(* ===== verification/BD_Prelude.thy ===== *)
theory BD_Prelude
  imports Main "HOL-Library.Word" "HOL-Library.Monad_Syntax"
begin

text \<open>
  Shared vocabulary of the BrainDance development.

  The kernel is freestanding 32-bit C.  A C object of \<open>n\<close> bytes is a list of \<open>n\<close> bytes, and an
  access outside of it is the value \<^term>\<open>None\<close>: every definition that touches memory returns an
  \<open>option\<close>, and \<^term>\<open>None\<close> means that the C code would leave the object (or divide by zero, or
  follow a null pointer).  Error codes that the C code itself returns are ordinary integers.
  Unsigned integers are words of their width; indices and lengths are \<open>nat\<close> where the surrounding
  object bounds them.

  The theory holds the byte and word types, bounds-checked access (\<open>rd\<close>, \<open>wr\<close>), block update
  (\<open>blit\<close>), C strings (\<open>cstr\<close>, \<open>terminated\<close>), the little-endian layout of a 32-bit word, a
  monadic left fold, and the locale of operations that never fail under an invariant.
\<close>

unbundle bit_operations_syntax

type_synonym byte = "8 word"
type_synonym u16 = "16 word"
type_synonym u32 = "32 word"
type_synonym u64 = "64 word"
type_synonym buf = "byte list"

named_theorems buf_simps \<open>closed forms of the C library loops\<close>
named_theorems inv_intros \<open>operations preserve their component's invariant\<close>

section \<open>Definitions\<close>

subsection \<open>Bounds-checked access to a C object\<close>

definition rd :: "'a list \<Rightarrow> nat \<Rightarrow> 'a option" where
  "rd b i = (if i < length b then Some (b ! i) else None)"

definition wr :: "'a list \<Rightarrow> nat \<Rightarrow> 'a \<Rightarrow> 'a list option" where
  "wr b i x = (if i < length b then Some (b[i := x]) else None)"

definition blit :: "'a list \<Rightarrow> nat \<Rightarrow> 'a list \<Rightarrow> 'a list" where
  "blit d i xs = take i d @ xs @ drop (i + length xs) d"

definition chunk :: "nat \<Rightarrow> nat \<Rightarrow> 'a list \<Rightarrow> 'a list" where
  "chunk i n xs = take n (drop i xs)"

subsection \<open>C strings\<close>

definition cstr :: "buf \<Rightarrow> buf" where
  "cstr s = takeWhile (\<lambda>c. c \<noteq> 0) s"

definition terminated :: "buf \<Rightarrow> bool" where
  "terminated s = (0 \<in> set s)"

definition bytes :: "string \<Rightarrow> buf" where
  "bytes s = map of_char s"

definition lit :: "string \<Rightarrow> buf" where
  "lit s = bytes s @ [0]"

text \<open>A string literal that ends in a newline.\<close>

definition line :: "string \<Rightarrow> buf" where
  "line s = bytes s @ [10, 0]"

subsection \<open>Little-endian words\<close>

definition le32 :: "u32 \<Rightarrow> buf" where
  "le32 w = [ucast w, ucast (drop_bit 8 w), ucast (drop_bit 16 w), ucast (drop_bit 24 w)]"

definition of_le32 :: "buf \<Rightarrow> u32" where
  "of_le32 b = ucast (b ! 0) OR push_bit 8 (ucast (b ! 1)) OR push_bit 16 (ucast (b ! 2))
     OR push_bit 24 (ucast (b ! 3))"

subsection \<open>Iteration\<close>

fun foldM :: "('e \<Rightarrow> 's \<Rightarrow> 's option) \<Rightarrow> 'e list \<Rightarrow> 's \<Rightarrow> 's option" where
  "foldM f [] s = Some s"
| "foldM f (x # xs) s = Option.bind (f x s) (foldM f xs)"

fun first_idx :: "('a \<Rightarrow> bool) \<Rightarrow> 'a list \<Rightarrow> nat option" where
  "first_idx P [] = None"
| "first_idx P (x # xs) = (if P x then Some 0 else map_option Suc (first_idx P xs))"

section \<open>Lemmas\<close>

subsection \<open>Access and block update\<close>

lemma rd_Some [simp]: "i < length b \<Longrightarrow> rd b i = Some (b ! i)"
  by (simp add: rd_def)

lemma rd_eq_Some: "rd b i = Some x \<longleftrightarrow> i < length b \<and> b ! i = x"
  by (auto simp: rd_def)

lemma wr_Some [simp]: "i < length b \<Longrightarrow> wr b i x = Some (b[i := x])"
  by (simp add: wr_def)

lemma wr_eq_Some: "wr b i x = Some b' \<longleftrightarrow> i < length b \<and> b' = b[i := x]"
  by (auto simp: wr_def)

lemma length_blit [simp]: "i + length xs \<le> length d \<Longrightarrow> length (blit d i xs) = length d"
  by (simp add: blit_def)

lemma blit_Nil [simp]: "blit d i [] = d"
  by (simp add: blit_def)

lemma nth_blit:
  assumes "i + length xs \<le> length d" and "k < length d"
  shows "blit d i xs ! k = (if i \<le> k \<and> k < i + length xs then xs ! (k - i) else d ! k)"
proof -
  consider "k < i" | "i \<le> k" "k < i + length xs" | "i + length xs \<le> k" by linarith
  then show ?thesis
    using assms by cases (auto simp: blit_def nth_append)
qed

lemma blit_one: "i < length d \<Longrightarrow> blit d i [x] = d[i := x]"
  by (simp add: blit_def upd_conv_take_nth_drop)

lemma blit_append:
  "i + length xs + length ys \<le> length d \<Longrightarrow>
   blit (blit d i xs) (i + length xs) ys = blit d i (xs @ ys)"
  by (simp add: blit_def algebra_simps)

lemma blit_Cons:
  "i + length xs < length d \<Longrightarrow> blit (d[i := x]) (Suc i) xs = blit d i (x # xs)"
  using blit_append [of i "[x]" xs d] by (simp add: blit_one)

lemma blit_over_prefix:
  assumes "length xs \<le> length ys" and "i + length ys \<le> length d"
  shows "blit (blit d i xs) i ys = blit d i ys"
  using assms by (auto intro!: nth_equalityI simp: nth_blit)

lemma length_chunk [simp]: "i + n \<le> length xs \<Longrightarrow> length (chunk i n xs) = n"
  by (simp add: chunk_def)

lemma nth_chunk: "k < n \<Longrightarrow> i + n \<le> length xs \<Longrightarrow> chunk i n xs ! k = xs ! (i + k)"
  by (simp add: chunk_def)

lemma chunk_blit_same:
  "i + length xs \<le> length d \<Longrightarrow> chunk i (length xs) (blit d i xs) = xs"
  by (simp add: chunk_def blit_def)

lemma chunk_blit_disjoint:
  assumes "i + length xs \<le> length d" and "j + n \<le> length d"
    and "j + n \<le> i \<or> i + length xs \<le> j"
  shows "chunk j n (blit d i xs) = chunk j n d"
  using assms by (auto intro!: nth_equalityI simp: nth_chunk nth_blit)

lemma take_blit_le: "n \<le> i \<Longrightarrow> i \<le> length d \<Longrightarrow> take n (blit d i xs) = take n d"
  by (simp add: blit_def)

lemma take_blit_0: "take (length xs) (blit d 0 xs) = xs"
  by (simp add: blit_def)

subsection \<open>C strings\<close>

lemma terminated_Nil [simp]: "\<not> terminated []"
  by (simp add: terminated_def)

lemma terminated_Cons [simp]: "terminated (c # s) \<longleftrightarrow> c = 0 \<or> terminated s"
  by (auto simp: terminated_def)

lemma cstr_Nil [simp]: "cstr [] = []"
  by (simp add: cstr_def)

lemma cstr_Cons [simp]: "cstr (c # s) = (if c = 0 then [] else c # cstr s)"
  by (simp add: cstr_def)

lemma zero_notin_cstr [simp]: "0 \<notin> set (cstr s)"
  by (auto simp: cstr_def dest: set_takeWhileD)

lemma length_cstr_less: "terminated s \<Longrightarrow> length (cstr s) < length s"
  by (induction s) auto

lemma terminated_split: "terminated s \<Longrightarrow> \<exists>rest. s = cstr s @ 0 # rest"
  by (induction s) auto

lemma cstr_append_zero: "0 \<notin> set xs \<Longrightarrow> cstr (xs @ 0 # ys) = xs"
  by (induction xs) auto

lemma terminated_append_zero [simp]: "terminated (xs @ 0 # ys)"
  by (simp add: terminated_def)

lemma cstr_ext: "terminated s \<Longrightarrow> cstr (s @ t) = cstr s"
  by (induction s) auto

lemma terminated_drop_cstr:
  "terminated s \<Longrightarrow> n \<le> length (cstr s) \<Longrightarrow> terminated (drop n s)"
  by (induction s arbitrary: n) (auto simp: drop_Cons' split: if_splits)

lemma cstr_drop: "n \<le> length (cstr s) \<Longrightarrow> cstr (drop n s) = drop n (cstr s)"
  by (induction s arbitrary: n) (auto simp: drop_Cons' split: if_splits)

lemma cstr_hd: "terminated s \<Longrightarrow> cstr s = [] \<longleftrightarrow> s ! 0 = 0"
  by (cases s) auto

lemma bytes_Nil [simp]: "bytes [] = []"
  by (simp add: bytes_def)

lemma length_bytes [simp]: "length (bytes s) = length s"
  by (simp add: bytes_def)

lemma lit_terminated [simp]: "terminated (lit s)"
  by (simp add: lit_def)

lemma line_terminated [simp]: "terminated (line s)"
  by (simp add: line_def terminated_def)

subsection \<open>Little-endian words\<close>

lemma length_le32 [simp]: "length (le32 w) = 4"
  by (simp add: le32_def)

lemma of_le32_le32 [simp]: "of_le32 (le32 w) = w"
proof (rule bit_word_eqI)
  fix n :: nat
  assume "n < LENGTH(32)"
  then consider "n < 8" | "8 \<le> n" "n < 16" | "16 \<le> n" "n < 24" | "24 \<le> n" "n < 32"
    by fastforce
  then show "bit (of_le32 (le32 w)) n \<longleftrightarrow> bit w n"
    by cases (auto simp: of_le32_def le32_def bit_simps)
qed

lemma le32_of_le32:
  assumes "length b = 4"
  shows "le32 (of_le32 b) = b"
proof -
  obtain b0 b1 b2 b3 where b: "b = [b0, b1, b2, b3]"
    using assms by (auto simp: length_Suc_conv eval_nat_numeral)
  have "(ucast (of_le32 b) :: byte) = b0" "(ucast (drop_bit 8 (of_le32 b)) :: byte) = b1"
    "(ucast (drop_bit 16 (of_le32 b)) :: byte) = b2" "(ucast (drop_bit 24 (of_le32 b)) :: byte) = b3"
    by (rule bit_word_eqI, auto simp: b of_le32_def bit_simps dest: bit_imp_le_length)+
  then show ?thesis by (simp add: le32_def b)
qed

subsection \<open>Iteration\<close>

lemma foldM_append: "foldM f (xs @ ys) s = Option.bind (foldM f xs s) (foldM f ys)"
proof (induction xs arbitrary: s)
  case (Cons a xs)
  then show ?case by (cases "f a s") auto
qed simp

lemma foldM_Nil_eq [simp]: "foldM f [] = Some"
  by (rule ext) simp

lemma foldM_single: "foldM f [x] = f x"
  by (rule ext, rename_tac s) (case_tac "f x s", auto)

lemma foldM_snoc [simp]: "foldM f (xs @ [x]) s = Option.bind (foldM f xs s) (f x)"
  by (simp add: foldM_append foldM_single del: foldM.simps)

lemma first_idx_None: "first_idx P xs = None \<longleftrightarrow> (\<forall>x \<in> set xs. \<not> P x)"
  by (induction xs) auto

lemma first_idx_Some:
  "first_idx P xs = Some i \<longleftrightarrow> i < length xs \<and> P (xs ! i) \<and> (\<forall>j < i. \<not> P (xs ! j))"
proof (induction xs arbitrary: i)
  case (Cons x xs)
  then show ?case by (cases i) (auto simp: All_less_Suc2)
qed simp

lemma first_idx_cong: "(\<And>x. x \<in> set xs \<Longrightarrow> P x = Q x) \<Longrightarrow> first_idx P xs = first_idx Q xs"
  by (induction xs) auto

lemma first_idx_append:
  "first_idx P (xs @ ys) = (case first_idx P xs of Some i \<Rightarrow> Some i
     | None \<Rightarrow> map_option (\<lambda>k. length xs + k) (first_idx P ys))"
  by (induction xs; cases "first_idx P ys") (auto split: option.splits)

text \<open>
  Several components offer operations that must never leave their objects while an invariant
  holds.  The contract is one locale: the operation returns, and the invariant survives; a whole
  sequence of such operations then returns as well.
\<close>

locale safe_step =
  fixes step :: "'e \<Rightarrow> 's \<Rightarrow> 's option" and inv :: "'s \<Rightarrow> bool" and ok :: "'e \<Rightarrow> bool"
  assumes step_safe: "inv s \<Longrightarrow> ok e \<Longrightarrow> \<exists>s'. step e s = Some s' \<and> inv s'"
begin

lemma run_safe: "inv s \<Longrightarrow> list_all ok es \<Longrightarrow> \<exists>s'. foldM step es s = Some s' \<and> inv s'"
proof (induction es arbitrary: s)
  case Nil
  then show ?case by simp
next
  case (Cons e es)
  then obtain s1 where "step e s = Some s1" "inv s1"
    using step_safe [of s e] by auto
  then show ?case using Cons by simp
qed

lemma step_inv: "inv s \<Longrightarrow> ok e \<Longrightarrow> step e s = Some s' \<Longrightarrow> inv s'"
  using step_safe by force

lemma run_inv: "inv s \<Longrightarrow> list_all ok es \<Longrightarrow> foldM step es s = Some s' \<Longrightarrow> inv s'"
  using run_safe by force

end

end
