(* ===== verification/Memcore.thy ===== *)
theory Memcore
  imports BD_Prelude
begin

text \<open>
  The memory and string half of \<^verbatim>\<open>src/libc/memcore.c\<close>, and \<^verbatim>\<open>src/libc/mathlib.c\<close>.

  A read-only \<^verbatim>\<open>const char*\<close> argument is the list of bytes from the pointer to the end of the
  object it points into, so that \<^verbatim>\<open>p++\<close> is the tail of the list; a written pointer is the object
  and an offset.  \<^verbatim>\<open>memmove\<close> and \<^verbatim>\<open>strcat\<close> are only used inside one object (the editor's
  buffer) and therefore take one object and two offsets, so that overlap is visible.  The loops
  are the loops of the source, one byte at a time; the lemmas give their closed forms.
\<close>

section \<open>Definitions\<close>

subsection \<open>Block operations\<close>

function memcpy_loop :: "nat \<Rightarrow> nat \<Rightarrow> buf \<Rightarrow> nat \<Rightarrow> buf \<Rightarrow> buf option" where
  "memcpy_loop i count d di s =
     (if i < count
      then do { c \<leftarrow> rd s i; d' \<leftarrow> wr d (di + i) c; memcpy_loop (Suc i) count d' di s }
      else Some d)"
  by pat_completeness auto
termination
  by (relation "measure (\<lambda>(i, count, d, di, s). count - i)") auto

definition memcpy :: "buf \<Rightarrow> nat \<Rightarrow> buf \<Rightarrow> nat \<Rightarrow> buf option" where
  "memcpy d di s count = memcpy_loop 0 count d di s"

function memmove_up :: "nat \<Rightarrow> nat \<Rightarrow> buf \<Rightarrow> nat \<Rightarrow> nat \<Rightarrow> buf option" where
  "memmove_up i count b d s =
     (if i < count
      then do { c \<leftarrow> rd b (s + i); b' \<leftarrow> wr b (d + i) c; memmove_up (Suc i) count b' d s }
      else Some b)"
  by pat_completeness auto
termination
  by (relation "measure (\<lambda>(i, count, b, d, s). count - i)") auto

fun memmove_down :: "nat \<Rightarrow> buf \<Rightarrow> nat \<Rightarrow> nat \<Rightarrow> buf option" where
  "memmove_down 0 b d s = Some b"
| "memmove_down (Suc i) b d s =
     do { c \<leftarrow> rd b (s + i); b' \<leftarrow> wr b (d + i) c; memmove_down i b' d s }"

definition memmove :: "buf \<Rightarrow> nat \<Rightarrow> nat \<Rightarrow> nat \<Rightarrow> buf option" where
  "memmove b d s count = (if d < s then memmove_up 0 count b d s else memmove_down count b d s)"

function memset_loop :: "nat \<Rightarrow> nat \<Rightarrow> buf \<Rightarrow> nat \<Rightarrow> byte \<Rightarrow> buf option" where
  "memset_loop i count d di v =
     (if i < count then do { d' \<leftarrow> wr d (di + i) v; memset_loop (Suc i) count d' di v }
      else Some d)"
  by pat_completeness auto
termination
  by (relation "measure (\<lambda>(i, count, d, di, v). count - i)") auto

definition memset :: "buf \<Rightarrow> nat \<Rightarrow> byte \<Rightarrow> nat \<Rightarrow> buf option" where
  "memset d di v count = memset_loop 0 count d di v"

declare memcpy_loop.simps [simp del] memmove_up.simps [simp del] memset_loop.simps [simp del]

subsection \<open>Strings\<close>

fun strlen :: "buf \<Rightarrow> nat option" where
  "strlen [] = None"
| "strlen (c # s) = (if c \<noteq> 0 then map_option Suc (strlen s) else Some 0)"

fun strcmp :: "buf \<Rightarrow> buf \<Rightarrow> int option" where
  "strcmp (a # s) (b # t) =
     (if a \<noteq> 0 \<and> a = b then strcmp s t else Some (uint a - uint b))"
| "strcmp _ _ = None"

fun strncmp :: "buf \<Rightarrow> buf \<Rightarrow> nat \<Rightarrow> int option" where
  "strncmp s t 0 = Some 0"
| "strncmp (a # s) (b # t) (Suc n) =
     (if a \<noteq> 0 \<and> a = b then strncmp s t n else Some (uint a - uint b))"
| "strncmp _ _ (Suc n) = None"

fun strcpy :: "buf \<Rightarrow> nat \<Rightarrow> buf \<Rightarrow> buf option" where
  "strcpy d i [] = None"
| "strcpy d i (c # s) =
     do { d' \<leftarrow> wr d i c; if c \<noteq> 0 then strcpy d' (Suc i) s else Some d' }"

function strcat_end :: "buf \<Rightarrow> nat \<Rightarrow> nat option" where
  "strcat_end b d = do { c \<leftarrow> rd b d; if c \<noteq> 0 then strcat_end b (Suc d) else Some d }"
  by pat_completeness auto
termination
  by (relation "measure (\<lambda>(b, d). length b - d)") (auto simp: rd_eq_Some)

function strcat_copy :: "buf \<Rightarrow> nat \<Rightarrow> nat \<Rightarrow> buf option" where
  "strcat_copy b d s =
     do { c \<leftarrow> rd b s; b' \<leftarrow> wr b d c;
          if c \<noteq> 0 then strcat_copy b' (Suc d) (Suc s) else Some b' }"
  by pat_completeness auto
termination
  by (relation "measure (\<lambda>(b, d, s). length b - d)") (auto simp: rd_eq_Some wr_eq_Some)

declare strcat_end.simps [simp del] strcat_copy.simps [simp del]

definition strcat :: "buf \<Rightarrow> nat \<Rightarrow> nat \<Rightarrow> buf option" where
  "strcat b d s = do { e \<leftarrow> strcat_end b d; strcat_copy b e s }"

fun strncpy_pad :: "buf \<Rightarrow> nat \<Rightarrow> nat \<Rightarrow> buf option" where
  "strncpy_pad d i 0 = Some d"
| "strncpy_pad d i (Suc n) = do { d' \<leftarrow> wr d i 0; strncpy_pad d' (Suc i) n }"

fun strncpy :: "buf \<Rightarrow> nat \<Rightarrow> buf \<Rightarrow> nat \<Rightarrow> buf option" where
  "strncpy d i s 0 = Some d"
| "strncpy d i [] (Suc n) = None"
| "strncpy d i (c # s) (Suc n) =
     (if c \<noteq> 0 then do { d' \<leftarrow> wr d i c; strncpy d' (Suc i) s n } else strncpy_pad d i (Suc n))"

definition ends_with :: "buf option \<Rightarrow> buf option \<Rightarrow> bool option" where
  "ends_with str suffix =
     (case (str, suffix) of
        (Some s, Some t) \<Rightarrow>
          do { str_len \<leftarrow> strlen s; suffix_len \<leftarrow> strlen t;
               if suffix_len > str_len then Some False
               else do { r \<leftarrow> strncmp (drop (str_len - suffix_len) s) t suffix_len; Some (r = 0) } }
      | _ \<Rightarrow> Some False)"

subsection \<open>strtok\<close>

text \<open>
  \<^verbatim>\<open>strtok_state\<close> is a pointer into the buffer being tokenised: an offset, or \<^term>\<open>None\<close> for
  \<^verbatim>\<open>NULL\<close>.  The result is the token pointer, the buffer (a delimiter is overwritten by NUL) and the
  new static state.
\<close>

fun is_delimiter :: "byte \<Rightarrow> buf \<Rightarrow> bool option" where
  "is_delimiter c [] = None"
| "is_delimiter c (d # ds) =
     (if d \<noteq> 0 then if c = d then Some True else is_delimiter c ds else Some False)"

function strtok_skip :: "buf \<Rightarrow> buf \<Rightarrow> nat \<Rightarrow> nat option" where
  "strtok_skip b delims p =
     do { c \<leftarrow> rd b p; x \<leftarrow> is_delimiter c delims;
          if x then strtok_skip b delims (Suc p) else Some p }"
  by pat_completeness auto
termination
  by (relation "measure (\<lambda>(b, delims, p). length b - p)") (auto simp: rd_eq_Some)

function strtok_end :: "buf \<Rightarrow> buf \<Rightarrow> nat \<Rightarrow> nat option" where
  "strtok_end b delims p =
     do { c \<leftarrow> rd b p;
          if c \<noteq> 0
          then do { x \<leftarrow> is_delimiter c delims;
                    if \<not> x then strtok_end b delims (Suc p) else Some p }
          else Some p }"
  by pat_completeness auto
termination
  by (relation "measure (\<lambda>(b, delims, p). length b - p)") (auto simp: rd_eq_Some)

declare strtok_skip.simps [simp del] strtok_end.simps [simp del]

definition strtok :: "nat option \<Rightarrow> buf \<Rightarrow> buf \<Rightarrow> nat option \<Rightarrow>
    (nat option \<times> buf \<times> nat option) option" where
  "strtok str delims b strtok_state =
     (let st = (case str of Some p \<Rightarrow> Some p | None \<Rightarrow> strtok_state) in
      case st of
        None \<Rightarrow> Some (None, b, st)
      | Some p \<Rightarrow>
          do { c \<leftarrow> rd b p;
               if c = 0 then Some (None, b, st)
               else do {
                 token_start \<leftarrow> strtok_skip b delims p;
                 c1 \<leftarrow> rd b token_start;
                 if c1 = 0 then Some (None, b, Some token_start)
                 else do {
                   token_end \<leftarrow> strtok_end b delims token_start;
                   c2 \<leftarrow> rd b token_end;
                   if c2 \<noteq> 0
                   then do { b' \<leftarrow> wr b token_end 0; Some (Some token_start, b', Some (Suc token_end)) }
                   else Some (Some token_start, b, Some token_end) } } })"

subsection \<open>mathlib\<close>

definition abs_c :: "u32 \<Rightarrow> u32" where
  "abs_c i = (if i <s 0 then - i else i)"

definition max_c :: "u32 \<Rightarrow> u32 \<Rightarrow> u32" where
  "max_c a b = (if b <s a then a else b)"

definition min_c :: "u32 \<Rightarrow> u32 \<Rightarrow> u32" where
  "min_c a b = (if a <s b then a else b)"

definition srand :: "u32 \<Rightarrow> u32" where
  "srand seed = seed"

definition rand :: "u32 \<Rightarrow> u32 \<times> u32" where
  "rand nxt = (let nxt' = nxt * 1103515245 + 12345 in ((nxt' div 65536) mod 32768, nxt'))"

section \<open>Closed forms of the block operations\<close>

lemma memcpy_loop_Some:
  "i \<le> n \<Longrightarrow> di + n \<le> length d \<Longrightarrow> n \<le> length s \<Longrightarrow>
   memcpy_loop i n d di s = Some (blit d (di + i) (drop i (take n s)))"
proof (induction "n - i" arbitrary: i d)
  case 0
  then show ?case by (simp add: memcpy_loop.simps)
next
  case (Suc k)
  then have i: "i < n" "i < length s" "di + i < length d" by auto
  have "drop i (take n s) = s ! i # drop (Suc i) (take n s)"
    using i by (simp add: Cons_nth_drop_Suc [symmetric])
  then have "blit (d[di + i := s ! i]) (di + Suc i) (drop (Suc i) (take n s))
      = blit d (di + i) (drop i (take n s))"
    using i Suc.prems by (simp add: blit_Cons)
  then show ?case
    using i Suc by (subst memcpy_loop.simps) simp
qed

lemma memcpy_loop_None:
  "i < n \<Longrightarrow> length d < di + n \<or> length s < n \<Longrightarrow> memcpy_loop i n d di s = None"
proof (induction "n - i" arbitrary: i d)
  case 0
  then show ?case by simp
next
  case (Suc k)
  show ?case
  proof (cases "i < length s \<and> di + i < length d")
    case True
    then have "Suc i < n" using Suc.prems by auto
    moreover have "k = n - Suc i" using Suc.hyps(2) by simp
    ultimately show ?thesis
      using True Suc.prems Suc.hyps(1) by (subst memcpy_loop.simps) simp
  next
    case False
    then show ?thesis
      using Suc.prems by (subst memcpy_loop.simps) (auto simp: rd_def wr_def)
  qed
qed

lemma memcpy_eq [buf_simps]:
  "memcpy d di s n =
     (if n = 0 \<or> di + n \<le> length d \<and> n \<le> length s then Some (blit d di (take n s)) else None)"
proof (cases "n = 0")
  case True
  then show ?thesis by (simp add: memcpy_def memcpy_loop.simps)
next
  case False
  then show ?thesis by (auto simp: memcpy_def memcpy_loop_Some memcpy_loop_None)
qed

lemma memset_loop_Some:
  "i \<le> n \<Longrightarrow> di + n \<le> length d \<Longrightarrow>
   memset_loop i n d di v = Some (blit d (di + i) (replicate (n - i) v))"
proof (induction "n - i" arbitrary: i d)
  case 0
  then show ?case by (simp add: memset_loop.simps)
next
  case (Suc k)
  then have i: "i < n" "di + i < length d" by auto
  have "replicate (n - i) v = v # replicate (n - Suc i) v"
    using i by (metis Suc_diff_Suc replicate_Suc)
  then have "blit (d[di + i := v]) (di + Suc i) (replicate (n - Suc i) v)
      = blit d (di + i) (replicate (n - i) v)"
    using i Suc.prems by (simp add: blit_Cons)
  then show ?case
    using i Suc by (subst memset_loop.simps) simp
qed

lemma memset_eq [buf_simps]:
  "di + n \<le> length d \<Longrightarrow> memset d di v n = Some (blit d di (replicate n v))"
  by (simp add: memset_def memset_loop_Some)

lemma memmove_up_Some:
  "i \<le> n \<Longrightarrow> d < s \<Longrightarrow> s + n \<le> length b \<Longrightarrow>
   memmove_up i n b d s = Some (blit b (d + i) (drop i (chunk s n b)))"
proof (induction "n - i" arbitrary: i b)
  case 0
  then show ?case by (simp add: memmove_up.simps chunk_def)
next
  case (Suc k)
  let ?b = "b[d + i := b ! (s + i)]"
  have i: "i < n" "s + i < length b" "d + i < length b" using Suc by auto
  have "memmove_up (Suc i) n ?b d s = Some (blit ?b (d + Suc i) (drop (Suc i) (chunk s n ?b)))"
    using Suc i by (simp add: Suc_diff_Suc)
  moreover have "blit ?b (d + Suc i) (drop (Suc i) (chunk s n ?b))
      = blit b (d + i) (drop i (chunk s n b))"
    using i Suc.prems
    by (intro nth_equalityI) (auto simp: nth_blit nth_chunk nth_list_update Suc_diff_Suc)
  ultimately show ?case
    using i by (subst memmove_up.simps) simp
qed

lemma memmove_down_Some:
  "s \<le> d \<Longrightarrow> d + n \<le> length b \<Longrightarrow>
   memmove_down n b d s = Some (blit b d (chunk s n b))"
proof (induction n arbitrary: b)
  case 0
  then show ?case by (simp add: chunk_def)
next
  case (Suc n)
  let ?b = "b[d + n := b ! (s + n)]"
  have "memmove_down n ?b d s = Some (blit ?b d (chunk s n ?b))"
    using Suc by simp
  moreover have "blit ?b d (chunk s n ?b) = blit b d (chunk s (Suc n) b)"
    using Suc.prems
    by (intro nth_equalityI) (auto simp: nth_blit nth_chunk nth_list_update)
  ultimately show ?case
    using Suc.prems by simp
qed

lemma memmove_eq [buf_simps]:
  "d + n \<le> length b \<Longrightarrow> s + n \<le> length b \<Longrightarrow> memmove b d s n = Some (blit b d (chunk s n b))"
  using memmove_up_Some [of 0 n d s b] by (auto simp: memmove_def memmove_down_Some)

section \<open>Closed forms of the string operations\<close>

lemma strlen_eq [buf_simps]: "strlen s = (if terminated s then Some (length (cstr s)) else None)"
  by (induction s) auto

lemma strcmp_Some: "terminated s \<Longrightarrow> terminated t \<Longrightarrow> \<exists>r. strcmp s t = Some r"
  by (induction s t rule: strcmp.induct) auto

lemma strcmp_eq_0:
  "terminated s \<Longrightarrow> terminated t \<Longrightarrow> strcmp s t = Some 0 \<longleftrightarrow> cstr s = cstr t"
proof (induction s t rule: strcmp.induct)
  case (1 a s b t)
  show ?case
  proof (cases "a \<noteq> 0 \<and> a = b")
    case True
    then show ?thesis using 1 by auto
  next
    case False
    then show ?thesis by (auto simp: uint_0_iff simp flip: word_uint_eq_iff)
  qed
qed auto

lemma strcmp_cases:
  assumes "terminated s" "terminated t"
  obtains r where "strcmp s t = Some r" "r = 0 \<longleftrightarrow> cstr s = cstr t"
  using strcmp_Some [OF assms] strcmp_eq_0 [OF assms] by auto

lemma strncmp_eq_0:
  "n \<le> length s \<Longrightarrow> n \<le> length t \<Longrightarrow> 0 \<notin> set (take n t) \<Longrightarrow>
   strncmp s t n = Some 0 \<longleftrightarrow> take n s = take n t"
proof (induction s t n rule: strncmp.induct)
  case (2 a s b t n)
  show ?case
  proof (cases "a \<noteq> 0 \<and> a = b")
    case True
    then show ?thesis using 2 by simp
  next
    case False
    then show ?thesis using "2.prems" by (auto simp: uint_0_iff simp flip: word_uint_eq_iff)
  qed
qed auto

lemma strncmp_Some: "n \<le> length s \<Longrightarrow> n \<le> length t \<Longrightarrow> \<exists>r. strncmp s t n = Some r"
  by (induction s t n rule: strncmp.induct) auto

lemma strcpy_eq:
  "terminated s \<Longrightarrow> i + length (cstr s) < length d \<Longrightarrow>
   strcpy d i s = Some (blit d i (cstr s @ [0]))"
proof (induction s arbitrary: d i)
  case (Cons c s)
  show ?case
  proof (cases "c = 0")
    case True
    then show ?thesis using Cons.prems by (simp add: blit_one)
  next
    case False
    then have "strcpy (d[i := c]) (Suc i) s = Some (blit (d[i := c]) (Suc i) (cstr s @ [0]))"
      using Cons by simp
    moreover have "blit (d[i := c]) (Suc i) (cstr s @ [0]) = blit d i (c # cstr s @ [0])"
      using False Cons.prems by (simp add: blit_Cons)
    ultimately show ?thesis using False Cons.prems by simp
  qed
qed simp

lemma strncpy_pad_eq:
  "i + n \<le> length d \<Longrightarrow> strncpy_pad d i n = Some (blit d i (replicate n 0))"
proof (induction n arbitrary: d i)
  case (Suc n)
  then have "strncpy_pad (d[i := 0]) (Suc i) n = Some (blit (d[i := 0]) (Suc i) (replicate n 0))"
    by simp
  moreover have "blit (d[i := 0]) (Suc i) (replicate n 0) = blit d i (0 # replicate n 0)"
    using Suc.prems by (simp add: blit_Cons)
  ultimately show ?case using Suc.prems by simp
qed simp

lemma strncpy_eq:
  "terminated s \<Longrightarrow> i + n \<le> length d \<Longrightarrow>
   strncpy d i s n = Some (blit d i (take n (cstr s @ replicate n 0)))"
proof (induction d i s n rule: strncpy.induct)
  case (3 d i c s n)
  show ?case
  proof (cases "c = 0")
    case True
    then show ?thesis using 3 by (simp add: strncpy_pad_eq del: strncpy_pad.simps)
  next
    case False
    let ?xs = "take n (cstr s @ replicate n 0)"
    have "strncpy (d[i := c]) (Suc i) s n = Some (blit (d[i := c]) (Suc i) ?xs)"
      using 3 False by simp
    moreover have "blit (d[i := c]) (Suc i) ?xs = blit d i (c # ?xs)"
      using "3.prems" by (simp add: blit_Cons)
    moreover have "take n (cstr s @ 0 # replicate n 0) = ?xs"
      by (simp add: take_append take_Cons' flip: replicate_Suc)
    ultimately show ?thesis using False "3.prems" by simp
  qed
qed auto

lemma cstr_at:
  assumes "p + length xs < length b" "chunk p (length xs) b = xs" "b ! (p + length xs) = 0"
    and "0 \<notin> set xs"
  shows "cstr (drop p b) = xs" "terminated (drop p b)"
proof -
  have "drop p b = xs @ 0 # drop (Suc (p + length xs)) b"
    using assms(1-3)
    by (metis (no_types, lifting) Cons_nth_drop_Suc append_take_drop_id chunk_def drop_drop
        add.commute)
  then show "cstr (drop p b) = xs" "terminated (drop p b)"
    using assms(4) by (simp_all add: cstr_append_zero)
qed

lemma cstr_atD:
  assumes "terminated (drop p b)"
  shows "p + length (cstr (drop p b)) < length b"
    and "chunk p (length (cstr (drop p b))) b = cstr (drop p b)"
    and "b ! (p + length (cstr (drop p b))) = 0"
proof -
  obtain rest where r: "drop p b = cstr (drop p b) @ 0 # rest"
    using terminated_split [OF assms] by blast
  then have "length (drop p b) = length (cstr (drop p b)) + Suc (length rest)"
    by (metis length_append length_Cons)
  then show l: "p + length (cstr (drop p b)) < length b" by simp
  show "chunk p (length (cstr (drop p b))) b = cstr (drop p b)"
    using r by (metis append_eq_conv_conj chunk_def)
  have "drop p b ! length (cstr (drop p b)) = 0"
    using r by (metis nth_append_length)
  then show "b ! (p + length (cstr (drop p b))) = 0"
    using l by simp
qed

lemma cstr_frame:
  assumes "terminated (drop p b)" "length b' = length b"
    and "\<And>k. p \<le> k \<Longrightarrow> k \<le> p + length (cstr (drop p b)) \<Longrightarrow> b' ! k = b ! k"
  shows "cstr (drop p b') = cstr (drop p b)" "terminated (drop p b')"
proof -
  note d = cstr_atD [OF assms(1)]
  have "chunk p (length (cstr (drop p b))) b' = chunk p (length (cstr (drop p b))) b"
    using assms(2,3) d(1) by (intro nth_equalityI) (auto simp: nth_chunk)
  then show "cstr (drop p b') = cstr (drop p b)" "terminated (drop p b')"
    using cstr_at [of p "cstr (drop p b)" b'] d assms(2,3) by auto
qed

lemma strcat_end_eq:
  "terminated (drop d b) \<Longrightarrow> strcat_end b d = Some (d + length (cstr (drop d b)))"
proof (induction b d rule: strcat_end.induct)
  case (1 b d)
  then have d: "d < length b" by (cases "d < length b") auto
  then have "drop d b = b ! d # drop (Suc d) b" by (simp add: Cons_nth_drop_Suc)
  then show ?case using 1 d by (subst strcat_end.simps) auto
qed

lemma strcat_copy_eq:
  "terminated (drop s b) \<Longrightarrow> d + length (cstr (drop s b)) < s \<Longrightarrow>
   strcat_copy b d s = Some (blit b d (cstr (drop s b) @ [0]))"
proof (induction b d s rule: strcat_copy.induct)
  case (1 b d s)
  then have "s < length b" by (cases "s < length b") auto
  with 1 have s: "s < length b" "d < length b" by auto
  then have ds: "drop s b = b ! s # drop (Suc s) b" by (simp add: Cons_nth_drop_Suc)
  let ?b = "b[d := b ! s]"
  have "drop (Suc s) ?b = drop (Suc s) b" using 1 by simp
  then have "b ! s \<noteq> 0 \<Longrightarrow>
      strcat_copy ?b (Suc d) (Suc s) = Some (blit ?b (Suc d) (cstr (drop (Suc s) b) @ [0]))"
    using "1.IH" [of "b ! s" ?b] 1 s ds by simp
  moreover have "b ! s \<noteq> 0 \<Longrightarrow> blit ?b (Suc d) (cstr (drop (Suc s) b) @ [0])
      = blit b d (cstr (drop s b) @ [0])"
    using 1 s ds cstr_atD(1) [of s b] by (simp add: blit_Cons)
  ultimately show ?case
    using s ds by (subst strcat_copy.simps) (auto simp: blit_one)
qed

lemma strcat_eq:
  assumes "terminated (drop d b)" "terminated (drop s b)"
    and "d + length (cstr (drop d b)) + length (cstr (drop s b)) < s"
  shows "strcat b d s = Some (blit b (d + length (cstr (drop d b))) (cstr (drop s b) @ [0]))"
  using assms by (simp add: strcat_def strcat_end_eq strcat_copy_eq)

lemma ends_with_eq:
  assumes "terminated s" "terminated t"
  shows "ends_with (Some s) (Some t) = Some (\<exists>zs. cstr s = zs @ cstr t)"
proof (cases "length (cstr s) < length (cstr t)")
  case True
  then show ?thesis
    using assms by (auto simp: ends_with_def strlen_eq)
next
  case False
  let ?k = "length (cstr s) - length (cstr t)"
  have s: "chunk 0 (length (cstr s)) s = cstr s" and t: "chunk 0 (length (cstr t)) t = cstr t"
    using cstr_atD(2) [of 0] assms by simp_all
  have len: "length (cstr t) \<le> length (drop ?k s)" "length (cstr t) \<le> length t"
    using length_cstr_less [OF assms(1)] length_cstr_less [OF assms(2)] False by auto
  have "drop ?k (cstr s) = take (length (cstr s) - ?k) (drop ?k s)"
    using s by (metis chunk_def drop0 drop_take)
  then have "take (length (cstr t)) (drop ?k s) = drop ?k (cstr s)"
    using False by simp
  moreover have "take (length (cstr t)) t = cstr t"
    using t by (simp add: chunk_def)
  moreover obtain r where "strncmp (drop ?k s) t (length (cstr t)) = Some r"
    using strncmp_Some [OF len] by auto
  ultimately have "ends_with (Some s) (Some t) = Some (drop ?k (cstr s) = cstr t)"
    using assms False strncmp_eq_0 [OF len] by (auto simp: ends_with_def strlen_eq)
  moreover have "drop ?k (cstr s) = cstr t \<longleftrightarrow> (\<exists>zs. cstr s = zs @ cstr t)"
    by (metis append_eq_conv_conj append_take_drop_id length_append add_diff_cancel_right')
  ultimately show ?thesis by simp
qed

section \<open>Tokenising\<close>

text \<open>
  What \<^verbatim>\<open>strtok\<close> promises: the next token of a string over a delimiter set, and the string left
  for the next call.
\<close>

definition next_token :: "byte set \<Rightarrow> buf \<Rightarrow> buf \<times> buf" where
  "next_token D s =
     (let t = dropWhile (\<lambda>c. c \<in> D) s
      in (takeWhile (\<lambda>c. c \<notin> D) t, drop 1 (dropWhile (\<lambda>c. c \<notin> D) t)))"

lemma is_delimiter_eq: "terminated ds \<Longrightarrow> is_delimiter c ds = Some (c \<in> set (cstr ds))"
  by (induction ds) auto

lemma strtok_skip_eq:
  "terminated ds \<Longrightarrow> terminated (drop p b) \<Longrightarrow>
   strtok_skip b ds p = Some (p + length (takeWhile (\<lambda>c. c \<in> set (cstr ds)) (cstr (drop p b))))"
proof (induction b ds p rule: strtok_skip.induct)
  case (1 b ds p)
  then have p: "p < length b" by (cases "p < length b") auto
  then have "drop p b = b ! p # drop (Suc p) b" by (simp add: Cons_nth_drop_Suc)
  then show ?case
    using 1 p zero_notin_cstr [of ds] by (subst strtok_skip.simps) (auto simp: is_delimiter_eq)
qed

lemma strtok_end_eq:
  "terminated ds \<Longrightarrow> terminated (drop p b) \<Longrightarrow>
   strtok_end b ds p = Some (p + length (takeWhile (\<lambda>c. c \<notin> set (cstr ds)) (cstr (drop p b))))"
proof (induction b ds p rule: strtok_end.induct)
  case (1 b ds p)
  then have p: "p < length b" by (cases "p < length b") auto
  then have "drop p b = b ! p # drop (Suc p) b" by (simp add: Cons_nth_drop_Suc)
  then show ?case
    using 1 p by (subst strtok_end.simps) (auto simp: is_delimiter_eq)
qed

lemma strtok_resume: "strtok None ds b (Some p) = strtok (Some p) ds b st"
  by (simp add: strtok_def)

lemma strtok_NULL: "strtok None ds b None = Some (None, b, None)"
  by (simp add: strtok_def)

lemma takeWhile_tail_cstr:
  assumes "terminated (drop p b)"
  shows "terminated (drop (p + length (takeWhile P (cstr (drop p b)))) b)"
    and "cstr (drop (p + length (takeWhile P (cstr (drop p b)))) b) = dropWhile P (cstr (drop p b))"
proof -
  let ?n = "length (takeWhile P (cstr (drop p b)))"
  have n: "?n \<le> length (cstr (drop p b))" by (rule length_takeWhile_le)
  have d: "drop (p + ?n) b = drop ?n (drop p b)" by (simp add: add.commute)
  show "terminated (drop (p + ?n) b)"
    unfolding d by (rule terminated_drop_cstr [OF assms n])
  show "cstr (drop (p + ?n) b) = dropWhile P (cstr (drop p b))"
    unfolding d cstr_drop [OF n] by (rule dropWhile_eq_drop [symmetric])
qed

text \<open>
  The call finds no token: it returns \<^verbatim>\<open>NULL\<close>, leaves the buffer alone and parks the state on an
  empty string.
\<close>

lemma strtok_no_token:
  assumes "terminated ds" "terminated (drop p b)"
    and "fst (next_token (set (cstr ds)) (cstr (drop p b))) = []"
  shows "\<exists>q. strtok (Some p) ds b st = Some (None, b, Some q) \<and> terminated (drop q b) \<and>
      cstr (drop q b) = []"
proof -
  let ?D = "\<lambda>c. c \<in> set (cstr ds)"
  let ?q = "p + length (takeWhile ?D (cstr (drop p b)))"
  note q = takeWhile_tail_cstr [OF assms(2), of ?D]
  have "dropWhile ?D (cstr (drop p b)) = []"
    using assms(3) hd_dropWhile [of ?D "cstr (drop p b)"]
    by (cases "dropWhile ?D (cstr (drop p b))") (auto simp: next_token_def)
  with q have e: "cstr (drop ?q b) = []" by simp
  note pd = cstr_atD [OF assms(2)] and qd = cstr_atD [OF q(1)]
  show ?thesis
  proof (cases "b ! p = 0")
    case True
    then have "strtok (Some p) ds b st = Some (None, b, Some p)"
      using pd(1) by (simp add: strtok_def)
    moreover have "cstr (drop p b) = []"
      using True pd(1) assms(2) by (simp add: cstr_hd)
    ultimately show ?thesis using assms(2) by blast
  next
    case False
    then have "strtok (Some p) ds b st = Some (None, b, Some ?q)"
      using pd(1) qd e assms(1,2) by (simp add: strtok_def strtok_skip_eq)
    then show ?thesis using q(1) e by blast
  qed
qed

text \<open>
  The call finds a token: the returned pointer reads as the token, the saved state reads as the
  rest, and the buffer changes at most at the byte that ends the token.
\<close>

lemma strtok_token:
  assumes "terminated ds" "terminated (drop p b)"
    and nt: "next_token (set (cstr ds)) (cstr (drop p b)) = (tok, rest)" and "tok \<noteq> []"
  shows "\<exists>t b' q. strtok (Some p) ds b st = Some (Some t, b', Some q) \<and> length b' = length b \<and>
      p \<le> t \<and> t + length tok \<le> q \<and>
      cstr (drop t b') = tok \<and> terminated (drop t b') \<and>
      cstr (drop q b') = rest \<and> terminated (drop q b') \<and>
      (\<forall>k. k < t \<longrightarrow> b' ! k = b ! k)"
proof -
  let ?D = "\<lambda>c. c \<in> set (cstr ds)" and ?N = "\<lambda>c. c \<notin> set (cstr ds)"
  define t where "t = p + length (takeWhile ?D (cstr (drop p b)))"
  define e where "e = t + length (takeWhile ?N (cstr (drop t b)))"
  have t: "terminated (drop t b)" "cstr (drop t b) = dropWhile ?D (cstr (drop p b))"
    using takeWhile_tail_cstr [OF assms(2), of ?D] by (simp_all add: t_def)
  have e: "terminated (drop e b)" "cstr (drop e b) = dropWhile ?N (cstr (drop t b))"
    using takeWhile_tail_cstr [OF t(1), of ?N] by (simp_all add: e_def)
  have tok: "tok = takeWhile ?N (cstr (drop t b))" and rest: "rest = drop 1 (cstr (drop e b))"
    using nt t(2) e(2) by (auto simp: next_token_def Let_def)
  note pd = cstr_atD [OF assms(2)] and td = cstr_atD [OF t(1)] and ed = cstr_atD [OF e(1)]
  have e_eq: "e = t + length tok" by (simp add: e_def tok)
  have ne: "cstr (drop t b) \<noteq> []" using assms(4) tok by auto
  have "b ! p \<noteq> 0"
    using ne t(2) cstr_hd [OF assms(2)] pd(1) by auto
  moreover have "b ! t \<noteq> 0"
    using ne cstr_hd [OF t(1)] td(1) by auto
  ultimately have st: "strtok (Some p) ds b st =
      (if b ! e \<noteq> 0 then Some (Some t, b[e := 0], Some (Suc e)) else Some (Some t, b, Some e))"
    using pd(1) td(1) ed(1) assms(1,2) t(1)
    by (simp add: strtok_def strtok_skip_eq strtok_end_eq flip: t_def e_def)
  have tok0: "0 \<notin> set tok"
    using tok zero_notin_cstr [of "drop t b"] by (auto dest: set_takeWhileD)
  have tokc: "chunk t (length tok) b = tok"
    using td(1,2) tok by (metis chunk_def length_takeWhile_le takeWhile_eq_take take_take min.absorb1)
  show ?thesis
  proof (cases "b ! e = 0")
    case True
    then have "cstr (drop e b) = []" using cstr_hd [OF e(1)] ed(1) by simp
    moreover have "cstr (drop t b) = tok" "terminated (drop t b)"
      using cstr_at [of t tok b] True ed(1) tokc tok0 by (auto simp: e_eq)
    ultimately show ?thesis
      using st True rest e(1) by (intro exI [of _ t] exI [of _ b] exI [of _ e]) (auto simp: t_def e_eq)
  next
    case False
    let ?b = "b[e := 0]"
    have "drop e b = b ! e # drop (Suc e) b" using ed(1) by (simp add: Cons_nth_drop_Suc)
    then have "cstr (drop (Suc e) ?b) = rest" "terminated (drop (Suc e) ?b)"
      using rest False e(1) by auto
    moreover have "chunk t (length tok) ?b = tok"
      using tokc ed(1) by (simp add: chunk_def e_eq drop_update_swap)
    then have "cstr (drop t ?b) = tok" "terminated (drop t ?b)"
      using cstr_at [of t tok ?b] ed(1) tok0 by (auto simp: e_eq)
    ultimately show ?thesis
      using st False by (intro exI [of _ t] exI [of _ ?b] exI [of _ "Suc e"]) (auto simp: t_def e_eq)
  qed
qed

section \<open>mathlib\<close>

lemma rand_bound: "fst (rand s) < 32768"
  by (simp add: rand_def Let_def word_mod_less_divisor)

lemma max_min_c_sint: "sint (max_c a b) = max (sint a) (sint b)" "sint (min_c a b) = min (sint a) (sint b)"
  by (auto simp: max_c_def min_c_def word_sless_alt)

end
