(* ===== verification/Ports.thy ===== *)
theory Ports
  imports BD_Prelude
begin

text \<open>
  Port input and output (\<^verbatim>\<open>src/include/ports.h\<close>).

  The history of port accesses is a list of events, newest first.  What an input instruction reads
  is decided by the hardware, which is a parameter of the model: a \<open>device\<close> maps the whole history
  so far and the port to the value on the bus, so that any device, with any state of its own, is
  covered.  Output instructions only extend the history.
\<close>

datatype io_event =
    InB u16 byte | OutB u16 byte
  | InW u16 u16 | OutW u16 u16
  | InL u16 u32 | OutL u16 u32

type_synonym io = "io_event list"
type_synonym device = "io \<Rightarrow> u16 \<Rightarrow> u32"

definition inb :: "device \<Rightarrow> u16 \<Rightarrow> io \<Rightarrow> byte \<times> io" where
  "inb dev port h = (let v = ucast (dev h port) in (v, InB port v # h))"

definition outb :: "u16 \<Rightarrow> byte \<Rightarrow> io \<Rightarrow> io" where
  "outb port data h = OutB port data # h"

definition inw :: "device \<Rightarrow> u16 \<Rightarrow> io \<Rightarrow> u16 \<times> io" where
  "inw dev port h = (let v = ucast (dev h port) in (v, InW port v # h))"

definition outw :: "u16 \<Rightarrow> u16 \<Rightarrow> io \<Rightarrow> io" where
  "outw port data h = OutW port data # h"

definition outl :: "u16 \<Rightarrow> u32 \<Rightarrow> io \<Rightarrow> io" where
  "outl port val h = OutL port val # h"

definition inl :: "device \<Rightarrow> u16 \<Rightarrow> io \<Rightarrow> u32 \<times> io" where
  "inl dev port h = (let v = dev h port in (v, InL port v # h))"

lemmas port_defs = inb_def outb_def inw_def outw_def outl_def inl_def Let_def

end
