(* ===== verification/Console.thy ===== *)
theory Console
  imports Memcore Ports
begin

text \<open>
  The VGA text console of \<^verbatim>\<open>src/libc/memcore.c\<close>: a scrollback buffer of 100 rows of 80 cells
  (character byte, attribute byte), a cursor, a view window that is copied to the 25 rows of video
  memory, and the formatted output built on it (\<^verbatim>\<open>print_int\<close>, \<^verbatim>\<open>print_uint\<close>, \<^verbatim>\<open>print_hex\<close>,
  \<^verbatim>\<open>kprintf\<close>, \<^verbatim>\<open>snprintf\<close>).  The static variables are the fields of the record \<open>console\<close>; video
  memory at \<^verbatim>\<open>0xB8000\<close> is the field \<open>vga_memory\<close>, and the port history (the cursor position is
  written to the CRT controller) is the field \<open>ports\<close>.
\<close>

section \<open>Definitions\<close>

abbreviation (input) VGA_WIDTH :: nat where "VGA_WIDTH \<equiv> 80"
abbreviation (input) VGA_HEIGHT :: nat where "VGA_HEIGHT \<equiv> 25"
abbreviation (input) SCROLLBACK_ROWS :: nat where "SCROLLBACK_ROWS \<equiv> 100"

abbreviation (input) COLOR_PROMPT :: byte where "COLOR_PROMPT \<equiv> 0x0B"
abbreviation (input) COLOR_INPUT :: byte where "COLOR_INPUT \<equiv> 0x0B"
abbreviation (input) COLOR_SYSTEM :: byte where "COLOR_SYSTEM \<equiv> 0x05"
abbreviation (input) COLOR_SUCCESS :: byte where "COLOR_SUCCESS \<equiv> 0x0A"
abbreviation (input) COLOR_ERROR :: byte where "COLOR_ERROR \<equiv> 0x04"
abbreviation (input) COLOR_DIR :: byte where "COLOR_DIR \<equiv> 0x0E"
abbreviation (input) COLOR_FILE :: byte where "COLOR_FILE \<equiv> 0x07"
abbreviation (input) COLOR_GHOST :: byte where "COLOR_GHOST \<equiv> 0x09"

record console =
  cursor_row :: int
  cursor_col :: int
  scrollback_buffer :: "buf list"
  scrollback_row :: int
  view_row :: int
  vga_memory :: buf
  ports :: io

text \<open>An access \<^verbatim>\<open>scrollback_buffer[r][c]\<close> with signed indices.\<close>

definition wr2 :: "buf list \<Rightarrow> int \<Rightarrow> int \<Rightarrow> byte \<Rightarrow> buf list option" where
  "wr2 rows r c v =
     (if 0 \<le> r \<and> 0 \<le> c
      then do { row \<leftarrow> rd rows (nat r); row' \<leftarrow> wr row (nat c) v; wr rows (nat r) row' }
      else None)"

definition rd_row :: "buf list \<Rightarrow> int \<Rightarrow> buf option" where
  "rd_row rows r = (if 0 \<le> r then rd rows (nat r) else None)"

subsection \<open>Screen refresh and cursor\<close>

definition refresh_row :: "nat \<Rightarrow> console \<Rightarrow> console option" where
  "refresh_row row k =
     (let buffer_row = view_row k + int row in
      if buffer_row < int SCROLLBACK_ROWS
      then do { src \<leftarrow> rd_row (scrollback_buffer k) buffer_row;
                v \<leftarrow> memcpy (vga_memory k) (row * VGA_WIDTH * 2) src (VGA_WIDTH * 2);
                Some (k\<lparr>vga_memory := v\<rparr>) }
      else Some k)"

definition refresh_screen :: "console \<Rightarrow> console option" where
  "refresh_screen k = foldM refresh_row [0..<VGA_HEIGHT] k"

definition update_cursor :: "console \<Rightarrow> console" where
  "update_cursor k =
     (let pos = (word_of_int ((cursor_row k - view_row k) * int VGA_WIDTH + cursor_col k) :: u16)
      in k\<lparr>ports := outb 0x3D5 (ucast (drop_bit 8 pos AND 0xFF))
              (outb 0x3D4 0x0E (outb 0x3D5 (ucast (pos AND 0xFF)) (outb 0x3D4 0x0F (ports k))))\<rparr>)"

definition set_cursor :: "int \<Rightarrow> int \<Rightarrow> console \<Rightarrow> console" where
  "set_cursor x y k =
     (if x \<ge> int VGA_WIDTH \<or> y \<ge> int VGA_HEIGHT then k
      else update_cursor (k\<lparr>cursor_col := x, cursor_row := y\<rparr>))"

definition print_char_at :: "byte \<Rightarrow> byte \<Rightarrow> int \<Rightarrow> int \<Rightarrow> console \<Rightarrow> console option" where
  "print_char_at c color x y k =
     (if x \<ge> int VGA_WIDTH \<or> y \<ge> int VGA_HEIGHT then Some k
      else let offset = (y * int VGA_WIDTH + x) * 2 in
        if offset < 0 then None
        else do { v \<leftarrow> wr (vga_memory k) (nat offset) c;
                  v' \<leftarrow> wr v (nat (offset + 1)) color;
                  Some (k\<lparr>vga_memory := v'\<rparr>) })"

subsection \<open>Characters\<close>

definition put_cell :: "int \<Rightarrow> int \<Rightarrow> byte \<Rightarrow> byte \<Rightarrow> console \<Rightarrow> console option" where
  "put_cell r col c color k =
     do { b \<leftarrow> wr2 (scrollback_buffer k) r (col * 2) c;
          b' \<leftarrow> wr2 b r (col * 2 + 1) color;
          Some (k\<lparr>scrollback_buffer := b'\<rparr>) }"

definition shift_row :: "nat \<Rightarrow> buf list \<Rightarrow> buf list option" where
  "shift_row i b =
     do { dst \<leftarrow> rd b (i - 1); src \<leftarrow> rd b i;
          row \<leftarrow> memcpy dst 0 src (VGA_WIDTH * 2);
          wr b (i - 1) row }"

definition clear_cell :: "int \<Rightarrow> byte \<Rightarrow> nat \<Rightarrow> buf list \<Rightarrow> buf list option" where
  "clear_cell r color i b =
     do { b' \<leftarrow> wr2 b r (int (i * 2)) 32; wr2 b' r (int (i * 2) + 1) color }"

definition shift_buffer :: "buf list \<Rightarrow> buf list option" where
  "shift_buffer b =
     do { b' \<leftarrow> foldM shift_row [1..<SCROLLBACK_ROWS] b;
          foldM (clear_cell (int (SCROLLBACK_ROWS - 1)) 0x07) [0..<VGA_WIDTH] b' }"

text \<open>The stages of \<^verbatim>\<open>print_char\<close>, in its order.\<close>

definition store_char :: "byte \<Rightarrow> byte \<Rightarrow> console \<Rightarrow> console option" where
  "store_char c color k =
     (if c = 10 then Some (k\<lparr>cursor_col := 0, cursor_row := cursor_row k + 1\<rparr>)
      else do { k' \<leftarrow> put_cell (cursor_row k) (cursor_col k) c color k;
                Some (k'\<lparr>cursor_col := cursor_col k' + 1\<rparr>) })"

definition wrap_line :: "console \<Rightarrow> console" where
  "wrap_line k =
     (if cursor_col k \<ge> int VGA_WIDTH then k\<lparr>cursor_col := 0, cursor_row := cursor_row k + 1\<rparr> else k)"

definition track_row :: "console \<Rightarrow> console" where
  "track_row k = (if cursor_row k > scrollback_row k then k\<lparr>scrollback_row := cursor_row k\<rparr> else k)"

definition shift_full :: "console \<Rightarrow> console option" where
  "shift_full k =
     (if cursor_row k \<ge> int SCROLLBACK_ROWS
      then do { b \<leftarrow> shift_buffer (scrollback_buffer k);
                Some (k\<lparr>scrollback_buffer := b, cursor_row := cursor_row k - 1,
                        scrollback_row := scrollback_row k - 1, view_row := view_row k - 1\<rparr>) }
      else Some k)"

definition follow_view :: "console \<Rightarrow> console" where
  "follow_view k =
     (let v = scrollback_row k - int VGA_HEIGHT + 1 in k\<lparr>view_row := (if v < 0 then 0 else v)\<rparr>)"

definition print_char :: "byte \<Rightarrow> byte \<Rightarrow> console \<Rightarrow> console option" where
  "print_char c color k =
     do { k1 \<leftarrow> store_char c color k;
          k2 \<leftarrow> shift_full (track_row (wrap_line k1));
          k3 \<leftarrow> refresh_screen (follow_view k2);
          Some (update_cursor k3) }"

definition print_backspace :: "console \<Rightarrow> console option" where
  "print_backspace k =
     do { k1 \<leftarrow> (if cursor_col k > 0
                 then let k' = k\<lparr>cursor_col := cursor_col k - 1\<rparr>
                      in put_cell (cursor_row k') (cursor_col k') 32 0x07 k'
                 else if cursor_row k > 0
                 then let k' = k\<lparr>cursor_row := cursor_row k - 1, cursor_col := int VGA_WIDTH - 1\<rparr>
                      in put_cell (cursor_row k') (cursor_col k') 32 0x07 k'
                 else Some k);
          k2 \<leftarrow> refresh_screen k1;
          Some (update_cursor k2) }"

definition clear_screen :: "byte \<Rightarrow> console \<Rightarrow> console option" where
  "clear_screen color k =
     do { b \<leftarrow> foldM (\<lambda>row. foldM (clear_cell (int row) color) [0..<VGA_WIDTH])
                [0..<SCROLLBACK_ROWS] (scrollback_buffer k);
          refresh_screen (k\<lparr>scrollback_buffer := b, cursor_row := 0, cursor_col := 0,
                            scrollback_row := 0, view_row := 0\<rparr>) }"

definition scroll_up :: "console \<Rightarrow> console option" where
  "scroll_up k = (if view_row k > 0 then refresh_screen (k\<lparr>view_row := view_row k - 1\<rparr>) else Some k)"

definition scroll_down :: "console \<Rightarrow> console option" where
  "scroll_down k =
     (if view_row k < scrollback_row k then refresh_screen (k\<lparr>view_row := view_row k + 1\<rparr>)
      else Some k)"

subsection \<open>Strings and numbers\<close>

fun print :: "buf \<Rightarrow> byte \<Rightarrow> console \<Rightarrow> console option" where
  "print [] color k = None"
| "print (c # msg) color k =
     (if c \<noteq> 0 then do { k' \<leftarrow> print_char c color k; print msg color k' } else Some k)"

definition println :: "buf \<Rightarrow> byte \<Rightarrow> console \<Rightarrow> console option" where
  "println msg color k = do { k' \<leftarrow> print msg color k; print_char 10 color k' }"

definition klog :: "buf \<Rightarrow> buf \<Rightarrow> console \<Rightarrow> console option" where
  "klog tag msg k =
     do { k1 \<leftarrow> print (lit ''['') 0x07 k; k2 \<leftarrow> print tag 0x07 k1; k3 \<leftarrow> print (lit ''] '') 0x07 k2;
          k4 \<leftarrow> print msg 0x07 k3; print [10, 0] 0x07 k4 }"

text \<open>\<^verbatim>\<open>panic\<close> clears the screen, prints and then halts for ever: the result is the final screen.\<close>

definition panic :: "buf \<Rightarrow> console \<Rightarrow> console option" where
  "panic msg k =
     do { k1 \<leftarrow> clear_screen 0x4F k;
          k2 \<leftarrow> print (bytes ''!!! KERNEL PANIC !!!'' @ [10, 10, 0]) 0x4F k1;
          print msg 0x4F k2 }"

text \<open>
  The digit loops fill \<^verbatim>\<open>buffer[i++]\<close>: the accumulator is the filled part, \<open>cap\<close> the size of the
  array.  C division and remainder truncate towards zero, so the loop over a negative \<^verbatim>\<open>int\<close> ends as
  well, with negative remainders.
\<close>

definition tdiv10 :: "int \<Rightarrow> int" where
  "tdiv10 n = sgn n * (\<bar>n\<bar> div 10)"

definition tmod10 :: "int \<Rightarrow> int" where
  "tmod10 n = sgn n * (\<bar>n\<bar> mod 10)"

function digit_loop :: "nat \<Rightarrow> int \<Rightarrow> buf \<Rightarrow> buf option" where
  "digit_loop cap number buffer =
     (if number \<noteq> 0
      then if length buffer < cap
           then digit_loop cap (tdiv10 number) (buffer @ [word_of_int (tmod10 number) + 48])
           else None
      else Some buffer)"
  by pat_completeness auto
termination
  by (relation "measure (\<lambda>(cap, n, b). nat \<bar>n\<bar>)") (auto simp: tdiv10_def abs_mult sgn_if)

declare digit_loop.simps [simp del]

definition print_reversed :: "buf \<Rightarrow> byte \<Rightarrow> console \<Rightarrow> console option" where
  "print_reversed buffer color k = foldM (\<lambda>c. print [c, 0] color) (rev buffer) k"

definition print_int :: "u32 \<Rightarrow> byte \<Rightarrow> console \<Rightarrow> console option" where
  "print_int number color k =
     (if number = 0 then print (lit ''0'') color k
      else do {
        let is_negative = (sint number < 0);
        let n = (if is_negative then sint (- number) else sint number);
        buffer \<leftarrow> digit_loop 12 n [];
        buffer' \<leftarrow> (if is_negative
                    then if length buffer < 12 then Some (buffer @ [45]) else None
                    else Some buffer);
        print_reversed buffer' color k })"

definition print_uint :: "u32 \<Rightarrow> byte \<Rightarrow> console \<Rightarrow> console option" where
  "print_uint number color k =
     (if number = 0 then print (lit ''0'') color k
      else do { buffer \<leftarrow> digit_loop 11 (uint number) []; print_reversed buffer color k })"

definition hex_chars :: buf where
  "hex_chars = lit ''0123456789ABCDEF''"

definition print_hex :: "u32 \<Rightarrow> byte \<Rightarrow> console \<Rightarrow> console option" where
  "print_hex number color k =
     do { k1 \<leftarrow> print (lit ''0x'') color k;
          foldM (\<lambda>i k'. do { digit \<leftarrow> rd hex_chars (unat (drop_bit i number AND 0xF));
                             print [digit, 0] color k' })
            [28, 24, 20, 16, 12, 8, 4, 0] k1 }"

subsection \<open>Formatted output\<close>

text \<open>
  The variadic arguments are a list; a conversion that does not match the next argument, or that
  finds none, reads the stack as something else and is \<^term>\<open>None\<close>.
\<close>

datatype karg = KInt u32 | KStr buf

fun kprintf :: "buf \<Rightarrow> karg list \<Rightarrow> console \<Rightarrow> console option" where
  "kprintf [] args k = None"
| "kprintf [c] args k =
     (if c = 0 then Some k else if c = 37 then None
      else do { k' \<leftarrow> print_char c 0x07 k; None })"
| "kprintf (c # spec # fmt) args k =
     (if c = 0 then Some k
      else if c = 37 then
        (if spec = 100 then
           (case args of KInt val # as \<Rightarrow> do { k' \<leftarrow> print_int val 0x07 k; kprintf fmt as k' } | _ \<Rightarrow> None)
         else if spec = 117 then
           (case args of KInt val # as \<Rightarrow> do { k' \<leftarrow> print_uint val 0x07 k; kprintf fmt as k' } | _ \<Rightarrow> None)
         else if spec = 120 then
           (case args of KInt val # as \<Rightarrow> do { k' \<leftarrow> print_hex val 0x07 k; kprintf fmt as k' } | _ \<Rightarrow> None)
         else if spec = 115 then
           (case args of KStr str # as \<Rightarrow> do { k' \<leftarrow> print str 0x07 k; kprintf fmt as k' } | _ \<Rightarrow> None)
         else if spec = 99 then
           (case args of KInt val # as \<Rightarrow> do { k' \<leftarrow> print_char (ucast val) 0x07 k; kprintf fmt as k' }
            | _ \<Rightarrow> None)
         else if spec = 37 then do { k' \<leftarrow> print_char 37 0x07 k; kprintf fmt args k' }
         else do { k' \<leftarrow> print_char 37 0x07 k; k'' \<leftarrow> print_char spec 0x07 k'; kprintf fmt args k'' })
      else do { k' \<leftarrow> print_char c 0x07 k; kprintf (spec # fmt) args k' })"

fun snprintf_str :: "buf \<Rightarrow> nat \<Rightarrow> buf \<Rightarrow> nat \<Rightarrow> (buf \<times> nat) option" where
  "snprintf_str [] lim str written = None"
| "snprintf_str (c # s) lim str written =
     (if c \<noteq> 0 \<and> written < lim
      then do { str' \<leftarrow> wr str written c; snprintf_str s lim str' (Suc written) }
      else Some (str, written))"

fun snprintf_digits :: "buf \<Rightarrow> nat \<Rightarrow> buf \<Rightarrow> nat \<Rightarrow> (buf \<times> nat) option" where
  "snprintf_digits [] lim str written = Some (str, written)"
| "snprintf_digits (c # cs) lim str written =
     (if written < lim
      then do { str' \<leftarrow> wr str written c; snprintf_digits cs lim str' (Suc written) }
      else Some (str, written))"

text \<open>The \<^verbatim>\<open>do ... while (n > 0)\<close> digit loop of \<^verbatim>\<open>snprintf\<close>, over \<^verbatim>\<open>buf[12]\<close>.\<close>

function snprintf_buf :: "int \<Rightarrow> buf \<Rightarrow> buf option" where
  "snprintf_buf n b =
     (if length b < 12
      then let b' = b @ [word_of_int (tmod10 n) + 48]; n' = tdiv10 n
           in if n' > 0 then snprintf_buf n' b' else Some b'
      else None)"
  by pat_completeness auto
termination
  by (relation "measure (\<lambda>(n, b). nat \<bar>n\<bar>)") (auto simp: tdiv10_def sgn_if split: if_splits)

declare snprintf_buf.simps [simp del]

definition snprintf_int :: "u32 \<Rightarrow> nat \<Rightarrow> buf \<Rightarrow> nat \<Rightarrow> (buf \<times> nat) option" where
  "snprintf_int v lim str written =
     do { (str1, w1, n) \<leftarrow> (if sint v < 0
            then do { s' \<leftarrow> wr str written 45; Some (s', Suc written, sint (- v)) }
            else Some (str, written, sint v));
          digits \<leftarrow> snprintf_buf n [];
          snprintf_digits (rev digits) lim str1 w1 }"

fun snprintf_loop :: "buf \<Rightarrow> karg list \<Rightarrow> nat \<Rightarrow> buf \<Rightarrow> nat \<Rightarrow> (buf \<times> nat) option" where
  "snprintf_loop [] args lim str written = None"
| "snprintf_loop [c] args lim str written =
     (if c \<noteq> 0 \<and> written < lim then None else Some (str, written))"
| "snprintf_loop (c # spec # fmt) args lim str written =
     (if c \<noteq> 0 \<and> written < lim then
        (if c = 37 then
           (if spec = 99 then
              (case args of
                 KInt v # as \<Rightarrow> do { str' \<leftarrow> wr str written (ucast v);
                                     snprintf_loop fmt as lim str' (Suc written) }
               | _ \<Rightarrow> None)
            else if spec = 115 then
              (case args of
                 KStr s # as \<Rightarrow> do { (str', w') \<leftarrow> snprintf_str s lim str written;
                                     snprintf_loop fmt as lim str' w' }
               | _ \<Rightarrow> None)
            else if spec = 100 then
              (case args of
                 KInt v # as \<Rightarrow> do { (str', w') \<leftarrow> snprintf_int v lim str written;
                                     snprintf_loop fmt as lim str' w' }
               | _ \<Rightarrow> None)
            else snprintf_loop fmt args lim str written)
         else do { str' \<leftarrow> wr str written c;
                   snprintf_loop (spec # fmt) args lim str' (Suc written) })
      else Some (str, written))"

definition snprintf :: "buf \<Rightarrow> u32 \<Rightarrow> buf \<Rightarrow> karg list \<Rightarrow> (nat \<times> buf) option" where
  "snprintf str sz format args =
     do { (str', written) \<leftarrow> snprintf_loop format args (unat (sz - 1)) str 0;
          str'' \<leftarrow> wr str' written 0;
          Some (written, str'') }"

section \<open>The console invariant\<close>

definition rows_ok :: "buf list \<Rightarrow> bool" where
  "rows_ok b \<longleftrightarrow> length b = SCROLLBACK_ROWS \<and> (\<forall>r \<in> set b. length r = 160)"

definition con_inv :: "console \<Rightarrow> bool" where
  "con_inv k \<longleftrightarrow> rows_ok (scrollback_buffer k) \<and> length (vga_memory k) = 4000 \<and>
     0 \<le> cursor_row k \<and> cursor_row k < 100 \<and> 0 \<le> cursor_col k \<and> cursor_col k < 80 \<and>
     0 \<le> scrollback_row k \<and> scrollback_row k < 100 \<and> 0 \<le> view_row k \<and> view_row k < 100"

definition blank_row :: "byte \<Rightarrow> buf" where
  "blank_row color = concat (replicate VGA_WIDTH [32, color])"

definition window :: "nat \<Rightarrow> buf list \<Rightarrow> buf \<Rightarrow> buf" where
  "window v rows old = concat (take VGA_HEIGHT (drop v rows)) @ drop (160 * min VGA_HEIGHT (100 - v)) old"

lemma rows_ok_length [simp]: "rows_ok b \<Longrightarrow> length b = 100"
  by (simp add: rows_ok_def)

lemma rows_ok_row [simp]: "rows_ok b \<Longrightarrow> i < 100 \<Longrightarrow> length (b ! i) = 160"
  by (simp add: rows_ok_def)

lemma rows_ok_update [intro]: "rows_ok b \<Longrightarrow> length r = 160 \<Longrightarrow> rows_ok (b[i := r])"
  by (auto simp: rows_ok_def dest: set_update_subset_insert [THEN subsetD])

lemma length_concat_rows: "(\<forall>r \<in> set b. length r = 160) \<Longrightarrow> length (concat b) = 160 * length b"
  by (induction b) auto

lemma length_window:
  assumes "rows_ok b" "length old = 4000"
  shows "length (window v b old) = 4000"
proof -
  have "\<forall>r \<in> set (take 25 (drop v b)). length r = 160"
    using assms by (auto simp: rows_ok_def dest!: in_set_takeD in_set_dropD)
  from length_concat_rows [OF this] show ?thesis
    using assms by (simp add: window_def min_def)
qed

lemma refresh_rows_eq:
  "rows_ok (scrollback_buffer k) \<Longrightarrow> length (vga_memory k) = 4000 \<Longrightarrow> view_row k = int v \<Longrightarrow> n \<le> 25 \<Longrightarrow>
   foldM refresh_row [0..<n] k =
     Some (k\<lparr>vga_memory := concat (take n (drop v (scrollback_buffer k)))
                          @ drop (160 * min n (100 - v)) (vga_memory k)\<rparr>)"
proof (induction n)
  case 0
  then show ?case by simp
next
  case (Suc n)
  let ?b = "scrollback_buffer k"
  let ?c = "concat (take n (drop v ?b))"
  let ?k = "k\<lparr>vga_memory := ?c @ drop (160 * min n (100 - v)) (vga_memory k)\<rparr>"
  have fold: "foldM refresh_row [0..<Suc n] k = Option.bind (Some ?k) (refresh_row n)"
    using Suc by simp
  show ?case
  proof (cases "v + n < 100")
    case True
    have "\<forall>r \<in> set (take n (drop v ?b)). length r = 160"
      using Suc.prems by (auto simp: rows_ok_def dest!: in_set_takeD in_set_dropD)
    from length_concat_rows [OF this] have lc: "length ?c = 160 * n"
      using Suc.prems True by simp
    have row: "length (?b ! (v + n)) = 160" using Suc.prems True by simp
    have tk: "take (Suc n) (drop v ?b) = take n (drop v ?b) @ [?b ! (v + n)]"
      using Suc.prems True by (simp add: take_Suc_conv_app_nth)
    have mins: "min n (100 - v) = n" "min (Suc n) (100 - v) = Suc n" using True by auto
    have len: "160 * n + 160 \<le> 4000" using Suc.prems by simp
    have nat: "nat (int v + int n) = v + n" by simp
    have "refresh_row n ?k = Some (k\<lparr>vga_memory := concat (take (Suc n) (drop v ?b))
        @ drop (160 * min (Suc n) (100 - v)) (vga_memory k)\<rparr>)"
      using True Suc.prems row lc len
      by (simp add: refresh_row_def rd_row_def nat memcpy_eq tk mins blit_def)
    with fold show ?thesis by simp
  next
    case False
    then have "refresh_row n ?k = Some ?k" using Suc.prems by (simp add: refresh_row_def)
    moreover have "min (Suc n) (100 - v) = min n (100 - v)" using False by auto
    moreover have "take (Suc n) (drop v ?b) = take n (drop v ?b)" using False Suc.prems by simp
    ultimately show ?thesis using fold by simp
  qed
qed

lemma refresh_screen_eq [buf_simps]:
  "rows_ok (scrollback_buffer k) \<Longrightarrow> length (vga_memory k) = 4000 \<Longrightarrow> 0 \<le> view_row k \<Longrightarrow>
   refresh_screen k = Some (k\<lparr>vga_memory := window (nat (view_row k)) (scrollback_buffer k) (vga_memory k)\<rparr>)"
  using refresh_rows_eq [of k "nat (view_row k)" 25]
  by (simp add: refresh_screen_def window_def)

subsection \<open>Cells\<close>

definition set_cell :: "buf list \<Rightarrow> nat \<Rightarrow> nat \<Rightarrow> byte \<Rightarrow> byte \<Rightarrow> buf list" where
  "set_cell b r col c color = b[r := (b ! r)[2 * col := c, 2 * col + 1 := color]]"

lemma rows_ok_set_cell [intro]: "rows_ok b \<Longrightarrow> r < 100 \<Longrightarrow> rows_ok (set_cell b r col c color)"
  by (auto simp: set_cell_def)

lemma put_cell_eq:
  assumes "rows_ok (scrollback_buffer k)" "0 \<le> r" "r < 100" "0 \<le> col" "col < 80"
  shows "put_cell r col c color k =
     Some (k\<lparr>scrollback_buffer := set_cell (scrollback_buffer k) (nat r) (nat col) c color\<rparr>)"
proof -
  have "nat (col * 2) = 2 * nat col" "nat (col * 2 + 1) = Suc (2 * nat col)" "2 * nat col < 159"
    "Suc (2 * nat col) < 160" "nat r < 100"
    using assms by auto
  then show ?thesis
    using assms by (simp add: put_cell_def wr2_def set_cell_def)
qed

lemma clear_cell_eq:
  assumes "rows_ok b" "r < 100" "i < 80"
  shows "clear_cell (int r) color i b = Some (set_cell b r i 32 color)"
proof -
  have "nat (int (i * 2)) = 2 * i" "nat (int (i * 2) + 1) = Suc (2 * i)" "nat (1 + int i * 2) = Suc (2 * i)"
     "2 * i < 160" "Suc (2 * i) < 160"
    using assms by auto
  then show ?thesis
    using assms by (simp add: clear_cell_def wr2_def set_cell_def mult.commute [of i 2] del: of_nat_mult)
qed

lemma length_blank_row [simp]: "length (blank_row color) = 160"
  by (simp add: blank_row_def length_concat sum_list_replicate)

lemma clear_row_prefix:
  "rows_ok b \<Longrightarrow> r < 100 \<Longrightarrow> n \<le> 80 \<Longrightarrow>
   foldM (clear_cell (int r) color) [0..<n] b =
     Some (b[r := concat (replicate n [32, color]) @ drop (2 * n) (b ! r)])"
proof (induction n)
  case 0
  then show ?case by simp
next
  case (Suc n)
  let ?p = "concat (replicate n [32, color])"
  let ?b = "b[r := ?p @ drop (2 * n) (b ! r)]"
  have lp: "length ?p = 2 * n" by (simp add: length_concat sum_list_replicate)
  have ok: "rows_ok ?b" using Suc.prems lp by auto
  have n: "n < 80" "Suc (2 * n) < 160" using Suc.prems by auto
  then have "drop (2 * n) (b ! r) = (b ! r) ! (2 * n) # (b ! r) ! Suc (2 * n) # drop (Suc (Suc (2 * n))) (b ! r)"
    using Suc.prems by (simp add: Cons_nth_drop_Suc)
  then have "set_cell ?b r n 32 color = b[r := ?p @ [32, color] @ drop (2 * Suc n) (b ! r)]"
    using Suc.prems lp by (simp add: set_cell_def list_update_append)
  moreover have "concat (replicate (Suc n) [32, color]) = ?p @ [32, color]"
    by (metis concat.simps concat_append append_Nil2 replicate_Suc replicate_append_same)
  ultimately show ?case
    using Suc ok n by (simp add: clear_cell_eq del: replicate_Suc)
qed

lemma clear_row_eq:
  "rows_ok b \<Longrightarrow> r < 100 \<Longrightarrow>
   foldM (clear_cell (int r) color) [0..<80] b = Some (b[r := blank_row color])"
  by (simp add: clear_row_prefix blank_row_def)

lemma shift_rows_prefix:
  "rows_ok b \<Longrightarrow> n < 100 \<Longrightarrow>
   foldM shift_row [1..<Suc n] b = Some (take n (tl b) @ drop n b)"
proof (induction n)
  case 0
  then show ?case by simp
next
  case (Suc n)
  let ?b = "take n (tl b) @ drop n b"
  have len: "length (take n (tl b)) = n" using Suc.prems by simp
  have "?b ! n = b ! n" "?b ! Suc n = b ! Suc n"
    using Suc.prems len by (simp_all add: nth_append)
  then have "shift_row (Suc n) ?b = Some (?b[n := b ! Suc n])"
    using Suc.prems by (simp add: shift_row_def memcpy_eq blit_def)
  moreover have "drop n b = b ! n # drop (Suc n) b"
    using Suc.prems by (simp add: Cons_nth_drop_Suc)
  then have "?b[n := b ! Suc n] = take (Suc n) (tl b) @ drop (Suc n) b"
    using Suc.prems len
    by (simp add: list_update_append take_Suc_conv_app_nth nth_tl)
  ultimately show ?case
    using Suc by (simp add: upt_Suc_append)
qed

lemma rows_ok_tl [intro]: "rows_ok b \<Longrightarrow> length r = 160 \<Longrightarrow> rows_ok (tl b @ [r])"
  by (cases b) (auto simp: rows_ok_def)

lemma shift_buffer_eq:
  assumes "rows_ok b"
  shows "shift_buffer b = Some (tl b @ [blank_row 7])"
proof -
  have b: "length b = 100" using assms by simp
  have tk: "take 99 (tl b) @ drop 99 b = tl b @ [last b]"
    using b Cons_nth_drop_Suc [of 99 b] last_conv_nth [of b] by (cases b) auto
  have ok: "rows_ok (tl b @ [last b])"
    using assms b by (intro rows_ok_tl) (metis last_in_set length_0_conv rows_ok_def zero_neq_numeral)+
  have "foldM shift_row [1..<100] b = Some (tl b @ [last b])"
    using shift_rows_prefix [OF assms, of 99] tk by simp
  moreover have "(tl b @ [last b])[99 := blank_row 7] = tl b @ [blank_row 7]"
    using b by (simp add: list_update_append)
  ultimately show ?thesis
    using clear_row_eq [OF ok, of 99 7] by (simp add: shift_buffer_def)
qed

lemma clear_rows_prefix:
  "rows_ok b \<Longrightarrow> n \<le> 100 \<Longrightarrow>
   foldM (\<lambda>row. foldM (clear_cell (int row) color) [0..<80]) [0..<n] b =
     Some (replicate n (blank_row color) @ drop n b)"
proof (induction n)
  case 0
  then show ?case by simp
next
  case (Suc n)
  let ?b = "replicate n (blank_row color) @ drop n b"
  have "rows_ok ?b" using Suc.prems by (auto simp: rows_ok_def dest: in_set_dropD)
  then have "foldM (clear_cell (int n) color) [0..<80] ?b = Some (?b[n := blank_row color])"
    using Suc.prems by (intro clear_row_eq) auto
  moreover have "?b[n := blank_row color] = replicate (Suc n) (blank_row color) @ drop (Suc n) b"
    using Suc.prems
    by (simp add: list_update_append replicate_append_same flip: Cons_nth_drop_Suc)
  ultimately show ?case using Suc by (simp del: replicate_Suc)
qed

lemma rows_ok_blank [simp]: "rows_ok (replicate 100 (blank_row color))"
  by (simp add: rows_ok_def)

lemma clear_screen_eq:
  assumes "rows_ok (scrollback_buffer k)" "length (vga_memory k) = 4000"
  shows "clear_screen color k =
    Some (k\<lparr>scrollback_buffer := replicate 100 (blank_row color), cursor_row := 0, cursor_col := 0,
            scrollback_row := 0, view_row := 0,
            vga_memory := window 0 (replicate 100 (blank_row color)) (vga_memory k)\<rparr>)"
  using clear_rows_prefix [OF assms(1), of 100 color] assms
  by (simp add: clear_screen_def refresh_screen_eq)

subsection \<open>A reference for the effect of one character\<close>

text \<open>
  What \<^verbatim>\<open>print_char\<close> is meant to do, without loops, intermediate states or bounds: write the cell,
  advance, open a new row at the end of a line, drop the oldest row when the buffer is full, show
  the last 25 rows and place the hardware cursor.
\<close>

definition advance :: "byte \<Rightarrow> byte \<Rightarrow> console \<Rightarrow> console" where
  "advance c color k =
     (let wrap = (c = 10 \<or> cursor_col k = 79);
          b = (if c = 10 then scrollback_buffer k
               else set_cell (scrollback_buffer k) (nat (cursor_row k)) (nat (cursor_col k)) c color);
          r = (if wrap then cursor_row k + 1 else cursor_row k);
          sr = max (scrollback_row k) r;
          full = (r \<ge> 100)
      in k\<lparr>scrollback_buffer := (if full then tl b @ [blank_row 7] else b),
           cursor_col := (if wrap then 0 else cursor_col k + 1),
           cursor_row := (if full then r - 1 else r),
           scrollback_row := (if full then sr - 1 else sr)\<rparr>)"

definition show_window :: "console \<Rightarrow> console" where
  "show_window k =
     (let v = max 0 (scrollback_row k - 24)
      in update_cursor (k\<lparr>view_row := v,
           vga_memory := concat (take 25 (drop (nat v) (scrollback_buffer k)))\<rparr>))"

lemma window_full:
  "rows_ok b \<Longrightarrow> length old = 4000 \<Longrightarrow> v \<le> 75 \<Longrightarrow> window v b old = concat (take 25 (drop v b))"
  by (simp add: window_def min_def)

lemma advance_inv:
  assumes "con_inv k"
  shows "rows_ok (scrollback_buffer (advance c color k))" "length (vga_memory (advance c color k)) = 4000"
    "0 \<le> cursor_row (advance c color k)" "cursor_row (advance c color k) < 100"
    "0 \<le> cursor_col (advance c color k)" "cursor_col (advance c color k) < 80"
    "0 \<le> scrollback_row (advance c color k)" "scrollback_row (advance c color k) < 100"
    "cursor_row (advance c color k) \<le> scrollback_row (advance c color k)"
  using assms by (auto simp: advance_def con_inv_def Let_def intro!: rows_ok_tl rows_ok_set_cell)

lemma print_char_eq:
  assumes "con_inv k"
  shows "print_char c color k = Some (show_window (advance c color k))"
proof -
  note i = assms [unfolded con_inv_def]
  define k1 where "k1 = (if c = 10 then k\<lparr>cursor_col := 0, cursor_row := cursor_row k + 1\<rparr>
    else k\<lparr>scrollback_buffer := set_cell (scrollback_buffer k) (nat (cursor_row k)) (nat (cursor_col k)) c color,
           cursor_col := cursor_col k + 1\<rparr>)"
  have k1: "store_char c color k = Some k1"
    using i by (simp add: store_char_def k1_def put_cell_eq)
  define k2 where "k2 = track_row (wrap_line k1)"
  have w: "cursor_col k1 \<ge> 80 \<longleftrightarrow> c \<noteq> 10 \<and> cursor_col k = 79"
    using i by (auto simp: k1_def)
  have k2: "k2 = k\<lparr>scrollback_buffer := scrollback_buffer k1,
      cursor_col := (if c = 10 \<or> cursor_col k = 79 then 0 else cursor_col k + 1),
      cursor_row := (if c = 10 \<or> cursor_col k = 79 then cursor_row k + 1 else cursor_row k),
      scrollback_row := max (scrollback_row k)
        (if c = 10 \<or> cursor_col k = 79 then cursor_row k + 1 else cursor_row k)\<rparr>"
    by (simp add: k2_def track_row_def wrap_line_def w, simp add: k1_def max_def)
  have rows: "rows_ok (scrollback_buffer k2)"
    using i by (auto simp: k2 k1_def)
  define k3 where "k3 = (if cursor_row k2 \<ge> 100
      then k2\<lparr>scrollback_buffer := tl (scrollback_buffer k2) @ [blank_row 7], cursor_row := cursor_row k2 - 1,
              scrollback_row := scrollback_row k2 - 1, view_row := view_row k2 - 1\<rparr>
      else k2)"
  have k3: "shift_full k2 = Some k3"
    using rows by (simp add: shift_full_def shift_buffer_eq k3_def)
  have adv: "k3\<lparr>view_row := v, vga_memory := m\<rparr> = (advance c color k)\<lparr>view_row := v, vga_memory := m\<rparr>" for v m
    by (simp add: k3_def k2, simp add: k1_def advance_def Let_def)
  have f: "scrollback_buffer k3 = scrollback_buffer (advance c color k)"
    "scrollback_row k3 = scrollback_row (advance c color k)" "vga_memory k3 = vga_memory k"
    by (simp_all add: k3_def k2, simp_all add: k1_def advance_def Let_def)
  have v: "follow_view k3 = k3\<lparr>view_row := max 0 (scrollback_row k3 - 24)\<rparr>"
    by (simp add: follow_view_def Let_def max_def)
  note a = advance_inv [OF assms, of c color]
  have "refresh_screen (follow_view k3) = Some (k3\<lparr>view_row := max 0 (scrollback_row k3 - 24),
        vga_memory := concat (take 25 (drop (nat (max 0 (scrollback_row k3 - 24))) (scrollback_buffer k3)))\<rparr>)"
    using i a f by (simp add: v refresh_screen_eq window_full)
  then show ?thesis
    using f adv k1 k3 by (simp add: print_char_def k2_def [symmetric] show_window_def Let_def)
qed

subsection \<open>Every console operation keeps the invariant\<close>

lemma con_inv_show_window:
  assumes "rows_ok (scrollback_buffer k)" "length (vga_memory k) = 4000"
    "0 \<le> cursor_row k" "cursor_row k < 100" "0 \<le> cursor_col k" "cursor_col k < 80"
    "0 \<le> scrollback_row k" "scrollback_row k < 100"
  shows "con_inv (show_window k)"
proof -
  let ?v = "nat (max 0 (scrollback_row k - 24))"
  have "length (concat (take 25 (drop ?v (scrollback_buffer k)))) = 4000"
    using length_window [OF assms(1,2), of ?v] window_full [OF assms(1,2), of ?v] assms(8) by simp
  then show ?thesis
    using assms by (simp add: con_inv_def show_window_def update_cursor_def Let_def)
qed

lemma print_char_inv [inv_intros]:
  "con_inv k \<Longrightarrow> \<exists>k'. print_char c color k = Some k' \<and> con_inv k'"
  by (simp add: print_char_eq con_inv_show_window advance_inv)

interpretation chars: safe_step "\<lambda>(c, color). print_char c color" con_inv "\<lambda>_. True"
  by unfold_locales (auto intro: print_char_inv)

lemma con_inv_update_cursor [simp]: "con_inv (update_cursor k) = con_inv k"
  by (simp add: con_inv_def update_cursor_def Let_def)

lemma con_inv_refresh:
  "con_inv k \<Longrightarrow> \<exists>k'. refresh_screen k = Some k' \<and> con_inv k'"
  by (auto simp: con_inv_def refresh_screen_eq length_window)

lemma print_backspace_inv [inv_intros]:
  assumes "con_inv k"
  shows "\<exists>k'. print_backspace k = Some k' \<and> con_inv k'"
proof -
  note i = assms [unfolded con_inv_def]
  define k1 where "k1 = (if cursor_col k > 0
      then k\<lparr>cursor_col := cursor_col k - 1,
             scrollback_buffer := set_cell (scrollback_buffer k) (nat (cursor_row k)) (nat (cursor_col k - 1)) 32 7\<rparr>
      else if cursor_row k > 0
      then k\<lparr>cursor_row := cursor_row k - 1, cursor_col := 79,
             scrollback_buffer := set_cell (scrollback_buffer k) (nat (cursor_row k - 1)) 79 32 7\<rparr>
      else k)"
  have "con_inv k1" using i by (auto simp: k1_def con_inv_def)
  moreover have "print_backspace k = do { k2 \<leftarrow> refresh_screen k1; Some (update_cursor k2) }"
    using i by (simp add: print_backspace_def k1_def put_cell_eq)
  ultimately show ?thesis using con_inv_refresh [of k1] by auto
qed

lemma clear_screen_inv [inv_intros]:
  "con_inv k \<Longrightarrow> \<exists>k'. clear_screen color k = Some k' \<and> con_inv k'"
  by (auto simp: con_inv_def clear_screen_eq length_window)

lemma scroll_inv [inv_intros]:
  assumes "con_inv k"
  shows "\<exists>k'. scroll_up k = Some k' \<and> con_inv k'" "\<exists>k'. scroll_down k = Some k' \<and> con_inv k'"
proof -
  have "view_row k > 0 \<Longrightarrow> con_inv (k\<lparr>view_row := view_row k - 1\<rparr>)"
    and "view_row k < scrollback_row k \<Longrightarrow> con_inv (k\<lparr>view_row := view_row k + 1\<rparr>)"
    using assms by (auto simp: con_inv_def)
  then show "\<exists>k'. scroll_up k = Some k' \<and> con_inv k'" "\<exists>k'. scroll_down k = Some k' \<and> con_inv k'"
    using assms con_inv_refresh by (auto simp: scroll_up_def scroll_down_def)
qed

lemma set_cursor_inv [inv_intros]:
  "con_inv k \<Longrightarrow> 0 \<le> x \<Longrightarrow> 0 \<le> y \<Longrightarrow> con_inv (set_cursor x y k)"
  by (simp add: set_cursor_def, auto simp: con_inv_def)

lemma print_char_at_inv [inv_intros]:
  assumes "con_inv k" "0 \<le> x" "0 \<le> y"
  shows "\<exists>k'. print_char_at c color x y k = Some k' \<and> con_inv k'"
proof (cases "x \<ge> 80 \<or> y \<ge> 25")
  case True
  then show ?thesis using assms by (auto simp: print_char_at_def)
next
  case False
  then have "nat ((y * 80 + x) * 2) < 4000" "nat ((y * 80 + x) * 2 + 1) < 4000"
    using assms by auto
  then show ?thesis
    using assms False by (auto simp: print_char_at_def con_inv_def Let_def)
qed

subsection \<open>Strings\<close>

lemma print_eq: "terminated s \<Longrightarrow> print s color k = foldM (\<lambda>c. print_char c color) (cstr s) k"
  by (induction s arbitrary: k) (auto cong: Option.bind_cong)

lemma foldM_map: "foldM f (map g xs) = foldM (\<lambda>x. f (g x)) xs"
  by (induction xs) (auto intro!: ext)

lemma print_chars_inv:
  "con_inv k \<Longrightarrow> \<exists>k'. foldM (\<lambda>c. print_char c color) cs k = Some k' \<and> con_inv k'"
  using chars.run_safe [of k "map (\<lambda>c. (c, color)) cs"] by (simp add: foldM_map list_all_iff)

lemma print_inv [inv_intros]:
  "con_inv k \<Longrightarrow> terminated s \<Longrightarrow> \<exists>k'. print s color k = Some k' \<and> con_inv k'"
  by (simp add: print_eq print_chars_inv)

subsection \<open>Numbers\<close>

text \<open>Decimal digits, the reference for the digit loops.\<close>

fun dec :: "nat \<Rightarrow> buf" where
  "dec n = (if n < 10 then [48 + of_nat n] else dec (n div 10) @ [48 + of_nat (n mod 10)])"

declare dec.simps [simp del]

lemma tdivmod10_nat: "tdiv10 (int n) = int (n div 10)" "tmod10 (int n) = int (n mod 10)"
  by (simp_all add: tdiv10_def tmod10_def sgn_if zdiv_int zmod_int)

lemma digit_loop_dec:
  "n \<noteq> 0 \<Longrightarrow> length acc + length (dec n) \<le> cap \<Longrightarrow>
   digit_loop cap (int n) acc = Some (acc @ rev (dec n))"
proof (induction n arbitrary: acc rule: dec.induct)
  case (1 n)
  have d: "dec n = (if n < 10 then [48 + of_nat n] else dec (n div 10) @ [48 + of_nat (n mod 10)])"
    by (rule dec.simps)
  then have "length acc < cap" using "1.prems"(2) by (auto split: if_splits)
  then have step: "digit_loop cap (int n) acc
      = digit_loop cap (int (n div 10)) (acc @ [of_nat (n mod 10) + 48])"
    using "1.prems"(1) by (subst digit_loop.simps) (simp add: tdivmod10_nat)
  show ?case
  proof (cases "n < 10")
    case True
    then show ?thesis
      using step d by (simp add: digit_loop.simps [of cap 0] add.commute)
  next
    case False
    then have "n div 10 \<noteq> 0" by simp
    then show ?thesis
      using step d False "1.IH" [OF False, of "acc @ [of_nat (n mod 10) + 48]"] "1.prems"(2)
      by (simp add: add.commute)
  qed
qed

lemma length_dec: "n < 10 ^ Suc k \<Longrightarrow> length (dec n) \<le> Suc k"
proof (induction k arbitrary: n)
  case 0
  then show ?case by (simp add: dec.simps)
next
  case (Suc k)
  then have "n div 10 < 10 ^ Suc k" by (auto simp: less_mult_imp_div_less)
  from Suc.IH [OF this] show ?case by (subst dec.simps) simp
qed

lemma dec_nonzero: "0 \<notin> set (dec n)"
proof (induction n rule: dec.induct)
  case (1 n)
  have "(48 + of_nat d :: byte) \<noteq> 0" if "d < 10" for d :: nat
  proof -
    from that have "unat (48 + of_nat d :: byte) = 48 + d"
      by (simp add: unat_word_ariths unat_of_nat)
    then show ?thesis by (metis add_is_0 unat_0 zero_neq_numeral)
  qed
  then show ?case using 1 by (subst dec.simps) auto
qed

lemma print_NUL [simp]: "print [0] color = Some"
  by (rule ext) simp

lemma print_one: "c \<noteq> 0 \<Longrightarrow> print [c, 0] color = print_char c color"
  by (rule ext) simp

lemma print_reversed_eq:
  assumes "0 \<notin> set b"
  shows "print_reversed b color k = foldM (\<lambda>c. print_char c color) (rev b) k"
proof -
  have "foldM (\<lambda>c. print [c, 0] color) cs k = foldM (\<lambda>c. print_char c color) cs k"
    if "0 \<notin> set cs" for cs k
    using that by (induction cs arbitrary: k) (auto simp: print_one cong: Option.bind_cong)
  then show ?thesis using assms by (simp add: print_reversed_def)
qed

lemma print_uint_eq: "print_uint n color k = foldM (\<lambda>c. print_char c color) (dec (unat n)) k"
proof (cases "n = 0")
  case True
  then show ?thesis by (simp add: print_uint_def print_eq lit_def bytes_def dec.simps)
next
  case False
  have "unat n < 2 ^ LENGTH(32)" by (rule unsigned_less)
  then have "unat n < 10 ^ Suc 9" by simp
  from length_dec [OF this] have "digit_loop 11 (int (unat n)) [] = Some (rev (dec (unat n)))"
    using False digit_loop_dec [of "unat n" "[]" 11] by (simp add: unat_eq_zero)
  then show ?thesis
    using False dec_nonzero [of "unat n"] by (simp add: print_uint_def print_reversed_eq)
qed

text \<open>
  The decimal text of a signed number, and what \<^verbatim>\<open>print_int\<close> prints.  The two differ for the most
  negative \<^verbatim>\<open>int\<close>, which has no positive counterpart: the digit loop then runs on negative remainders
  and emits the characters below \<^verbatim>\<open>'0'\<close>.
\<close>

definition int_text :: "u32 \<Rightarrow> buf" where
  "int_text n = (if sint n < 0 then [45] else []) @ dec (nat \<bar>sint n\<bar>)"

definition printed_int :: "u32 \<Rightarrow> buf" where
  "printed_int n = (if n = 0x80000000 then bytes ''-./,),(-*,('' else int_text n)"

lemma sint_u32_bounds: "- 2147483648 \<le> sint (n :: u32)" "sint (n :: u32) < 2147483648"
  using sint_greater_eq [of n] sint_less [of n] by simp_all

lemma sint_min_u32: "sint (n :: u32) = - 2147483648 \<longleftrightarrow> n = 0x80000000"
proof -
  have "sint (0x80000000 :: u32) = - 2147483648" by simp
  then show ?thesis by (metis signed_word_eqI)
qed

lemma sint_uminus_u32:
  assumes "n \<noteq> (0x80000000 :: u32)"
  shows "sint (- n) = - sint n"
  using assms sint_u32_bounds [of n] sint_min_u32 [of n]
  by (simp add: signed_eq_0_iff sint_word_ariths signed_take_bit_int_eq_self)

lemma digit_loop_min:
  "digit_loop 12 (- 2147483648) [] = Some [40, 44, 42, 45, 40, 44, 41, 44, 47, 46]"
  by (simp add: digit_loop.simps tdiv10_def tmod10_def)

lemma print_int_eq: "print_int n color k = foldM (\<lambda>c. print_char c color) (printed_int n) k"
proof -
  consider "n = 0" | "n = 0x80000000" | "n \<noteq> 0" "n \<noteq> 0x80000000" by blast
  then show ?thesis
  proof cases
    case 1
    then show ?thesis by (simp add: print_int_def print_eq lit_def bytes_def printed_int_def int_text_def dec.simps)
  next
    case 2
    then show ?thesis
      by (simp add: print_int_def digit_loop_min printed_int_def int_text_def print_reversed_eq bytes_def)
  next
    case 3
    let ?m = "nat \<bar>sint n\<bar>"
    have m: "(if sint n < 0 then sint (- n) else sint n) = int ?m"
      using 3 by (simp add: sint_uminus_u32)
    have "?m < 10 ^ Suc 9" using sint_u32_bounds [of n] by simp
    from length_dec [OF this] have l: "length (dec ?m) \<le> 10" by simp
    moreover have "?m \<noteq> 0" using 3 by (simp add: signed_eq_0_iff)
    ultimately have "digit_loop 12 (int ?m) [] = Some (rev (dec ?m))"
      using digit_loop_dec [of ?m "[]" 12] by simp
    then show ?thesis
      using 3 l dec_nonzero [of ?m]
      unfolding print_int_def m Let_def 
      by (cases "sint n < 0") (auto simp: print_reversed_eq printed_int_def int_text_def)
  qed
qed

definition hex_text :: "u32 \<Rightarrow> buf" where
  "hex_text n = bytes ''0x'' @
     map (\<lambda>i. hex_chars ! unat (drop_bit i n AND 0xF)) [28, 24, 20, 16, 12, 8, 4, 0]"

lemma nibble_less: "unat (x AND 0xF :: u32) < 16"
  using word_and_le1 [of x "0xF"] by (simp add: word_le_nat_alt)

lemma hex_digit_nonzero: "i < 16 \<Longrightarrow> hex_chars ! i \<noteq> 0"
  by (simp add: hex_chars_def lit_def bytes_def less_Suc_eq numeral_eq_Suc nth_append) auto

lemma print_hex_eq: "print_hex n color k = foldM (\<lambda>c. print_char c color) (hex_text n) k"
proof -
  have "length hex_chars = 17" by (simp add: hex_chars_def lit_def)
  then have d: "(\<lambda>k'. do { digit \<leftarrow> rd hex_chars (unat (drop_bit i n AND 0xF)); print [digit, 0] color k' })
      = print_char (hex_chars ! unat (drop_bit i n AND 0xF)) color" for i
    using nibble_less [of "drop_bit i n"] hex_digit_nonzero [of "unat (drop_bit i n AND 0xF)"]
    by (simp add: print_one)
  have "print (lit ''0x'') color k = foldM (\<lambda>c. print_char c color) (bytes ''0x'') k"
    by (simp add: lit_def bytes_def print_one foldM_single)
  then show ?thesis
    by (simp only: print_hex_def hex_text_def foldM_append foldM_map d)
qed

lemma print_number_inv [inv_intros]:
  assumes "con_inv k"
  shows "\<exists>k'. print_int n color k = Some k' \<and> con_inv k'"
    "\<exists>k'. print_uint n color k = Some k' \<and> con_inv k'"
    "\<exists>k'. print_hex n color k = Some k' \<and> con_inv k'"
  using print_chars_inv [OF assms] by (simp_all add: print_int_eq print_uint_eq print_hex_eq)

subsection \<open>Formatted output\<close>

text \<open>
  A format is good for an argument list when it is terminated, every \<^verbatim>\<open>%\<close> is followed by a
  character other than NUL, and the arguments match the conversions.
\<close>

fun fmt_ok :: "buf \<Rightarrow> karg list \<Rightarrow> bool" where
  "fmt_ok [] args = False"
| "fmt_ok [c] args = (c = 0)"
| "fmt_ok (c # spec # fmt) args =
     (c = 0 \<or>
      (if c = 37 then
         (if spec \<in> {100, 117, 120, 99} then
            (case args of KInt v # as \<Rightarrow> fmt_ok fmt as | _ \<Rightarrow> False)
          else if spec = 115 then
            (case args of KStr s # as \<Rightarrow> terminated s \<and> fmt_ok fmt as | _ \<Rightarrow> False)
          else spec \<noteq> 0 \<and> fmt_ok fmt args)
       else fmt_ok (spec # fmt) args))"

text \<open>The text that \<^verbatim>\<open>kprintf\<close> prints.\<close>

fun kformat :: "(u32 \<Rightarrow> buf) \<Rightarrow> buf \<Rightarrow> karg list \<Rightarrow> buf" where
  "kformat dt [] args = []"
| "kformat dt [c] args = []"
| "kformat dt (c # spec # fmt) args =
     (if c = 0 then []
      else if c = 37 then
        (case args of
           KInt v # as \<Rightarrow>
             if spec = 100 then dt v @ kformat dt fmt as
             else if spec = 117 then dec (unat v) @ kformat dt fmt as
             else if spec = 120 then hex_text v @ kformat dt fmt as
             else if spec = 99 then ucast v # kformat dt fmt as
             else if spec = 37 then 37 # kformat dt fmt args
             else 37 # spec # kformat dt fmt args
         | KStr s # as \<Rightarrow>
             if spec = 115 then cstr s @ kformat dt fmt as
             else if spec = 37 then 37 # kformat dt fmt args
             else 37 # spec # kformat dt fmt args
         | [] \<Rightarrow> if spec = 37 then 37 # kformat dt fmt args else 37 # spec # kformat dt fmt args)
      else c # kformat dt (spec # fmt) args)"

text \<open>The numbers that \<^verbatim>\<open>%d\<close> prints.\<close>

fun decimals :: "buf \<Rightarrow> karg list \<Rightarrow> u32 list" where
  "decimals [] args = []"
| "decimals [c] args = []"
| "decimals (c # spec # fmt) args =
     (if c = 0 then []
      else if c = 37 then
        (if spec = 100 then (case args of KInt v # as \<Rightarrow> v # decimals fmt as | _ \<Rightarrow> [])
         else if spec \<in> {117, 120, 99} then (case args of KInt v # as \<Rightarrow> decimals fmt as | _ \<Rightarrow> [])
         else if spec = 115 then (case args of KStr s # as \<Rightarrow> decimals fmt as | _ \<Rightarrow> [])
         else decimals fmt args)
      else decimals (spec # fmt) args)"

lemma kformat_cong:
  "fmt_ok fmt args \<Longrightarrow> \<forall>v \<in> set (decimals fmt args). f v = g v \<Longrightarrow> kformat f fmt args = kformat g fmt args"
  by (induction fmt args rule: decimals.induct) (auto split: list.splits karg.splits if_splits)

lemma bind_eta: "(\<And>k. f k = g k) \<Longrightarrow> Option.bind m f = Option.bind m g"
  by (cases m) auto

lemma kprintf_eq:
  "fmt_ok fmt args \<Longrightarrow> kprintf fmt args = foldM (\<lambda>c. print_char c 0x07) (kformat printed_int fmt args)"
proof (induction "length fmt" arbitrary: fmt args rule: less_induct)
  case less
  have e: "print s 0x07 = foldM (\<lambda>c. print_char c 0x07) (cstr s)" if "terminated s" for s
    using that by (auto simp: print_eq)
  have n: "print_int n 0x07 = foldM (\<lambda>c. print_char c 0x07) (printed_int n)"
    "print_uint n 0x07 = foldM (\<lambda>c. print_char c 0x07) (dec (unat n))"
    "print_hex n 0x07 = foldM (\<lambda>c. print_char c 0x07) (hex_text n)" for n
    by (auto simp: print_int_eq print_uint_eq print_hex_eq)
  consider "fmt = []" | c where "fmt = [c]" | c spec f where "fmt = c # spec # f"
    by (cases fmt rule: kprintf.cases [of "(x, y, z)" for x y z]) (metis list.exhaust)+
  then show ?case
  proof cases
    case (3 c spec f)
    then have IH: "fmt_ok f as \<Longrightarrow> kprintf f as = foldM (\<lambda>c. print_char c 0x07) (kformat printed_int f as)"
      "fmt_ok (spec # f) as \<Longrightarrow>
        kprintf (spec # f) as = foldM (\<lambda>c. print_char c 0x07) (kformat printed_int (spec # f) as)" for as
      using less.hyps by auto
    show ?thesis
      using less.prems IH e n unfolding 3
      by (auto simp: fun_eq_iff foldM_append intro!: bind_eta split: list.splits karg.splits)
  qed (use less.prems in auto)
qed

lemma kprintf_inv [inv_intros]:
  "con_inv k \<Longrightarrow> fmt_ok fmt args \<Longrightarrow> \<exists>k'. kprintf fmt args k = Some k' \<and> con_inv k'"
  by (simp add: kprintf_eq print_chars_inv)

text \<open>The text of \<^verbatim>\<open>snprintf\<close>, which knows \<^verbatim>\<open>%c\<close>, \<^verbatim>\<open>%s\<close> and \<^verbatim>\<open>%d\<close> and skips other conversions.\<close>

fun sfmt_ok :: "buf \<Rightarrow> karg list \<Rightarrow> bool" where
  "sfmt_ok [] args = False"
| "sfmt_ok [c] args = (c = 0)"
| "sfmt_ok (c # spec # fmt) args =
     (c = 0 \<or>
      (if c = 37 then
         (if spec \<in> {99, 100} then
            (case args of KInt v # as \<Rightarrow> sfmt_ok fmt as | _ \<Rightarrow> False)
          else if spec = 115 then
            (case args of KStr s # as \<Rightarrow> terminated s \<and> sfmt_ok fmt as | _ \<Rightarrow> False)
          else spec \<noteq> 0 \<and> sfmt_ok fmt args)
       else sfmt_ok (spec # fmt) args))"

text \<open>What \<^verbatim>\<open>snprintf\<close> stores for \<^verbatim>\<open>%d\<close>: its loop stops after one digit of the most negative \<^verbatim>\<open>int\<close>.\<close>

definition stored_int :: "u32 \<Rightarrow> buf" where
  "stored_int n = (if n = 0x80000000 then [45, 40] else int_text n)"

fun sformat :: "(u32 \<Rightarrow> buf) \<Rightarrow> buf \<Rightarrow> karg list \<Rightarrow> buf" where
  "sformat dt [] args = []"
| "sformat dt [c] args = []"
| "sformat dt (c # spec # fmt) args =
     (if c = 0 then []
      else if c = 37 then
        (case args of
           KInt v # as \<Rightarrow>
             if spec = 99 then ucast v # sformat dt fmt as
             else if spec = 100 then dt v @ sformat dt fmt as
             else sformat dt fmt args
         | KStr s # as \<Rightarrow> if spec = 115 then cstr s @ sformat dt fmt as else sformat dt fmt args
         | [] \<Rightarrow> sformat dt fmt args)
      else c # sformat dt (spec # fmt) args)"

fun sdecimals :: "buf \<Rightarrow> karg list \<Rightarrow> u32 list" where
  "sdecimals [] args = []"
| "sdecimals [c] args = []"
| "sdecimals (c # spec # fmt) args =
     (if c = 0 then []
      else if c = 37 then
        (if spec = 100 then (case args of KInt v # as \<Rightarrow> v # sdecimals fmt as | _ \<Rightarrow> [])
         else if spec = 99 then (case args of KInt v # as \<Rightarrow> sdecimals fmt as | _ \<Rightarrow> [])
         else if spec = 115 then (case args of KStr s # as \<Rightarrow> sdecimals fmt as | _ \<Rightarrow> [])
         else sdecimals fmt args)
      else sdecimals (spec # fmt) args)"

lemma sformat_cong:
  "sfmt_ok fmt args \<Longrightarrow> \<forall>v \<in> set (sdecimals fmt args). f v = g v \<Longrightarrow> sformat f fmt args = sformat g fmt args"
  by (induction fmt args rule: sdecimals.induct) (auto split: list.splits karg.splits if_splits)

lemma snprintf_digits_eq:
  "w \<le> lim \<Longrightarrow> lim \<le> length str \<Longrightarrow>
   snprintf_digits cs lim str w =
     Some (blit str w (take (lim - w) cs), w + length (take (lim - w) cs))"
proof (induction cs arbitrary: str w)
  case (Cons c cs)
  show ?case
  proof (cases "w < lim")
    case True
    have "take (lim - w) (c # cs) = c # take (lim - Suc w) cs"
      using True by (metis Suc_diff_Suc take_Suc_Cons)
    moreover have "blit (str[w := c]) (Suc w) (take (lim - Suc w) cs)
        = blit str w (c # take (lim - Suc w) cs)"
      using True Cons.prems by (simp add: blit_Cons)
    ultimately show ?thesis using Cons True by simp
  qed (use Cons in simp)
qed simp

lemma snprintf_str_eq:
  "terminated s \<Longrightarrow> snprintf_str s lim str w = snprintf_digits (cstr s) lim str w"
  by (induction s arbitrary: str w) (auto intro!: bind_eta)

lemma snprintf_buf_dec:
  "length acc + length (dec n) \<le> 12 \<Longrightarrow> snprintf_buf (int n) acc = Some (acc @ rev (dec n))"
proof (induction n arbitrary: acc rule: dec.induct)
  case (1 n)
  have d: "dec n = (if n < 10 then [48 + of_nat n] else dec (n div 10) @ [48 + of_nat (n mod 10)])"
    by (rule dec.simps)
  then have "length acc < 12" using "1.prems" by (auto split: if_splits)
  then have step: "snprintf_buf (int n) acc =
      (if n div 10 > 0 then snprintf_buf (int (n div 10)) (acc @ [of_nat (n mod 10) + 48])
       else Some (acc @ [of_nat (n mod 10) + 48]))"
    by (subst snprintf_buf.simps) (simp add: tdivmod10_nat Let_def)
  show ?case
  proof (cases "n < 10")
    case True
    then show ?thesis using step d by (simp add: add.commute)
  next
    case False
    then have "n div 10 > 0" by (simp add: div_greater_zero_iff)
    then show ?thesis
      using step d False "1.IH" [OF False, of "acc @ [of_nat (n mod 10) + 48]"] "1.prems"
      by (simp add: add.commute)
  qed
qed

text \<open>Appending text to a bounded output: what fits below \<open>lim\<close> is stored, the rest is dropped.\<close>

definition emit :: "nat \<Rightarrow> buf \<Rightarrow> buf \<times> nat \<Rightarrow> buf \<times> nat" where
  "emit lim xs = (\<lambda>(str, w). (blit str w (take (lim - w) xs), w + length (take (lim - w) xs)))"

definition out_ok :: "nat \<Rightarrow> buf \<times> nat \<Rightarrow> bool" where
  "out_ok lim o1 \<longleftrightarrow> snd o1 \<le> lim \<and> lim < length (fst o1)"

lemma emit_ok: "out_ok lim o1 \<Longrightarrow> out_ok lim (emit lim xs o1)"
  by (cases o1) (auto simp: out_ok_def emit_def)

lemma emit_append: "out_ok lim o1 \<Longrightarrow> emit lim ys (emit lim xs o1) = emit lim (xs @ ys) o1"
  by (cases o1) (auto simp: out_ok_def emit_def blit_append min_def)

lemma emit_Nil [simp]: "emit lim [] o1 = o1"
  by (cases o1) (simp add: emit_def)

lemma emit_full: "snd o1 = lim \<Longrightarrow> emit lim xs o1 = o1"
  by (cases o1) (simp add: emit_def)

lemma emit_Cons:
  assumes "w < lim" "lim < length str"
  shows "emit lim (c # cs) (str, w) = emit lim cs (str[w := c], Suc w)"
proof -
  have "take (lim - w) (c # cs) = c # take (lim - Suc w) cs"
    using assms by (metis Suc_diff_Suc take_Suc_Cons)
  then show ?thesis using assms by (simp add: emit_def blit_Cons)
qed

lemma snprintf_digits_emit:
  "out_ok lim (str, w) \<Longrightarrow> snprintf_digits cs lim str w = Some (emit lim cs (str, w))"
  by (simp add: out_ok_def emit_def snprintf_digits_eq)

lemma snprintf_buf_min: "snprintf_buf (- 2147483648) [] = Some [40]"
  by (simp add: snprintf_buf.simps tdiv10_def tmod10_def)

lemma snprintf_int_emit:
  assumes "out_ok lim (str, w)" "w < lim"
  shows "snprintf_int v lim str w = Some (emit lim (stored_int v) (str, w))"
proof (cases "v = 0x80000000")
  case True
  then show ?thesis
    using assms by (simp add: snprintf_int_def snprintf_buf_min stored_int_def int_text_def emit_Cons snprintf_digits_emit out_ok_def)
next
  case False
  let ?m = "nat \<bar>sint v\<bar>"
  have "?m < 10 ^ Suc 9" using sint_u32_bounds [of v] by simp
  from length_dec [OF this] have b: "snprintf_buf (int ?m) [] = Some (rev (dec ?m))"
    using snprintf_buf_dec [of "[]" ?m] by simp
  show ?thesis
  proof (cases "sint v < 0")
    case True
    then have "sint (- v) = int ?m" using False by (simp add: sint_uminus_u32)
    then show ?thesis
      using True False b assms
      by (simp add: snprintf_int_def stored_int_def int_text_def emit_Cons snprintf_digits_emit out_ok_def)
  next
    case False2: False
    then have "sint v = int ?m" by simp
    then show ?thesis
      using False2 False b assms by (simp add: snprintf_int_def stored_int_def int_text_def snprintf_digits_emit)
  qed
qed

lemma snprintf_loop_eq:
  "sfmt_ok fmt args \<Longrightarrow> out_ok lim (str, w) \<Longrightarrow>
   snprintf_loop fmt args lim str w = Some (emit lim (sformat stored_int fmt args) (str, w))"
proof (induction "length fmt" arbitrary: fmt args str w rule: less_induct)
  case less
  show ?case
  proof (cases "w < lim")
    case False
    then have w: "w = lim" using less.prems(2) by (simp add: out_ok_def)
    have "fmt \<noteq> []" using less.prems(1) by auto
    then have "snprintf_loop fmt args lim str w = Some (str, w)"
      using w by (cases "(fmt, args, lim, str, w)" rule: snprintf_loop.cases) auto
    then show ?thesis using w by (simp add: emit_full)
  next
    case True
    note lim = less.prems(2) [unfolded out_ok_def, simplified]
    consider c where "fmt = [c]" | c spec f where "fmt = c # spec # f"
      using less.prems(1) by (metis list.exhaust sfmt_ok.simps(1))
    then show ?thesis
    proof cases
      case (1 c)
      then show ?thesis using less.prems by simp
    next
      case (2 c spec f)
      have IH: "snprintf_loop f as lim s' w' = Some (emit lim (sformat stored_int f as) (s', w'))"
        if "sfmt_ok f as" "out_ok lim (s', w')" for as s' w'
        using less.hyps [of f] 2 that by simp
      show ?thesis
      proof (cases "c = 37")
        case False
        have "snprintf_loop (spec # f) args lim (str[w := c]) (Suc w)
            = Some (emit lim (sformat stored_int (spec # f) args) (str[w := c], Suc w))" if "c \<noteq> 0"
          using less.hyps [of "spec # f" args] less.prems True False that 2 by (simp add: out_ok_def)
        then show ?thesis
          using 2 False True lim by (auto simp: emit_Cons)
      next
        case c: True
        have ok: "out_ok lim (str[w := ucast v], Suc w)" for v :: u32
          using True lim by (simp add: out_ok_def)
        have st: "do { (s', w') \<leftarrow> Some (emit lim xs (str, w)); snprintf_loop f as lim s' w' }
            = Some (emit lim (xs @ sformat stored_int f as) (str, w))" if "sfmt_ok f as" for xs as
          using IH [OF that, of "fst (emit lim xs (str, w))" "snd (emit lim xs (str, w))"]
            emit_ok [OF less.prems(2), of xs] emit_append [OF less.prems(2)]
          by (simp add: case_prod_beta)
        show ?thesis
          using less.prems 2 c True lim IH ok st
          by (auto simp: snprintf_int_emit snprintf_str_eq snprintf_digits_emit emit_Cons
              split: list.splits karg.splits if_splits)
      qed
    qed
  qed
qed

lemma snprintf_eq:
  assumes "sfmt_ok fmt args" "0 < unat sz" "unat sz \<le> length str"
  shows "snprintf str sz fmt args =
     (let text = take (unat sz - 1) (sformat stored_int fmt args)
      in Some (length text, blit str 0 (text @ [0])))"
proof -
  let ?lim = "unat (sz - 1)"
  define out where "out = take ?lim (sformat stored_int fmt args)"
  have lim: "?lim = unat sz - 1"
    using assms(2) by (metis One_nat_def Suc_leI unat_1 unat_sub word_le_nat_alt)
  then have len: "length out < length str" and "out_ok ?lim (str, 0)"
    using assms by (auto simp: out_ok_def out_def)
  from snprintf_loop_eq [OF assms(1) this(2)]
  have "snprintf_loop fmt args ?lim str 0 = Some (blit str 0 out, length out)"
    by (simp add: emit_def out_def)
  moreover have "(blit str 0 out)[length out := 0] = blit str 0 (out @ [0])"
    using len blit_append [of 0 out "[0]" str] by (simp add: blit_one)
  moreover have "out = take (unat sz - 1) (sformat stored_int fmt args)"
    by (simp only: out_def lim)
  ultimately show ?thesis
    using len by (simp only: snprintf_def Let_def) simp
qed

end
