(* ===== verification/Bdfs.thy ===== *)
theory Bdfs
  imports Console
begin

text \<open>
  The in-memory file system of \<^verbatim>\<open>src/fs/bdfs.c\<close>: a table of 64 entries of 32 bytes, a RAM disk of
  68 sectors whose first four sectors hold the saved table, and the current directory.  The static
  variables are the fields of the record \<open>bdfs\<close>.  Every operation returns the C error code and the
  new state; \<^term>\<open>None\<close> stands for an access outside of an object.  The enum \<^verbatim>\<open>bdfs_file_type_t\<close> is
  kept as the 32-bit integer that C stores, because entries are reloaded from raw bytes.
\<close>

section \<open>Definitions\<close>

abbreviation (input) BDFS_MAGIC :: u32 where "BDFS_MAGIC \<equiv> 0x42444653"
abbreviation (input) BDFS_MAX_FILES :: nat where "BDFS_MAX_FILES \<equiv> 64"
abbreviation (input) BDFS_MAX_FILENAME_LENGTH :: nat where "BDFS_MAX_FILENAME_LENGTH \<equiv> 16"
abbreviation (input) BDFS_FILE_TABLE_SECTORS :: "'a :: numeral" where "BDFS_FILE_TABLE_SECTORS \<equiv> 4"
abbreviation (input) BDFS_DATA_SECTORS :: u32 where "BDFS_DATA_SECTORS \<equiv> 64"
abbreviation (input) BDFS_FILE_TYPE_FILE :: u32 where "BDFS_FILE_TYPE_FILE \<equiv> 0"
abbreviation (input) BDFS_FILE_TYPE_DIRECTORY :: u32 where "BDFS_FILE_TYPE_DIRECTORY \<equiv> 1"

record bdfs_file_entry =
  name :: buf
  ftype :: u32
  parent_inode :: u32
  start_sector :: u32
  flength :: u32

record bdfs =
  bdfs_storage :: buf
  file_table :: "bdfs_file_entry list"
  current_dir_inode :: u32

subsection \<open>Layout of the table in memory\<close>

definition enc_entry :: "bdfs_file_entry \<Rightarrow> buf" where
  "enc_entry e = name e @ le32 (ftype e) @ le32 (parent_inode e) @ le32 (start_sector e) @ le32 (flength e)"

definition dec_entry :: "buf \<Rightarrow> bdfs_file_entry" where
  "dec_entry b = \<lparr>name = take 16 b, ftype = of_le32 (chunk 16 4 b), parent_inode = of_le32 (chunk 20 4 b),
     start_sector = of_le32 (chunk 24 4 b), flength = of_le32 (chunk 28 4 b)\<rparr>"

definition enc_table :: "bdfs_file_entry list \<Rightarrow> buf" where
  "enc_table t = concat (map enc_entry t)"

fun dec_table :: "nat \<Rightarrow> buf \<Rightarrow> bdfs_file_entry list" where
  "dec_table 0 b = []"
| "dec_table (Suc n) b = dec_entry (take 32 b) # dec_table n (drop 32 b)"

definition zero_entry :: bdfs_file_entry where
  "zero_entry = \<lparr>name = replicate 16 0, ftype = 0, parent_inode = 0, start_sector = 0, flength = 0\<rparr>"

subsection \<open>Searching\<close>

fun find_entry_from :: "nat \<Rightarrow> bdfs_file_entry list \<Rightarrow> buf \<Rightarrow> u32 \<Rightarrow> int option" where
  "find_entry_from i [] nm parent = Some (-1)"
| "find_entry_from i (e # es) nm parent =
     do { c \<leftarrow> rd (name e) 0;
          if c \<noteq> 0 \<and> parent_inode e = parent
          then do { r \<leftarrow> strcmp (name e) nm;
                    if r = 0 then Some (int i) else find_entry_from (Suc i) es nm parent }
          else find_entry_from (Suc i) es nm parent }"

definition find_entry_in_dir :: "buf \<Rightarrow> u32 \<Rightarrow> bdfs \<Rightarrow> int option" where
  "find_entry_in_dir nm parent fs = find_entry_from 0 (file_table fs) nm parent"

fun find_free_from :: "nat \<Rightarrow> bdfs_file_entry list \<Rightarrow> int option" where
  "find_free_from i [] = Some (-1)"
| "find_free_from i (e # es) =
     do { c \<leftarrow> rd (name e) 0; if c = 0 then Some (int i) else find_free_from (Suc i) es }"

definition find_free_entry :: "bdfs \<Rightarrow> int option" where
  "find_free_entry fs = find_free_from 0 (file_table fs)"

fun find_free_sector_from :: "bdfs_file_entry list \<Rightarrow> u32 \<Rightarrow> u32 option" where
  "find_free_sector_from [] last_sector = Some last_sector"
| "find_free_sector_from (e # es) last_sector =
     do { c \<leftarrow> rd (name e) 0;
          if c \<noteq> 0 \<and> ftype e = BDFS_FILE_TYPE_FILE
          then let file_end_sector = start_sector e + (flength e + 511) div 512
               in find_free_sector_from es
                    (if file_end_sector > last_sector then file_end_sector else last_sector)
          else find_free_sector_from es last_sector }"

definition find_free_sector :: "bdfs \<Rightarrow> u32 option" where
  "find_free_sector fs = find_free_sector_from (file_table fs) 0"

subsection \<open>Creating, deleting, renaming\<close>

definition bdfs_sync_file_table :: "bdfs \<Rightarrow> bdfs option" where
  "bdfs_sync_file_table fs =
     do { s1 \<leftarrow> memset (bdfs_storage fs) 0 0 (BDFS_FILE_TABLE_SECTORS * 512);
          s2 \<leftarrow> memcpy s1 0 (le32 BDFS_MAGIC) 4;
          s3 \<leftarrow> memcpy s2 4 (enc_table (file_table fs)) (32 * BDFS_MAX_FILES);
          Some (fs\<lparr>bdfs_storage := s3\<rparr>) }"

text \<open>Filling the free slot, as both creation functions do.\<close>

definition fill_entry :: "int \<Rightarrow> buf \<Rightarrow> u32 \<Rightarrow> u32 \<Rightarrow> bdfs \<Rightarrow> bdfs option" where
  "fill_entry free_index nm ty parent fs =
     do { e \<leftarrow> rd (file_table fs) (nat free_index);
          nm' \<leftarrow> strcpy (name e) 0 nm;
          t \<leftarrow> wr (file_table fs) (nat free_index)
                (e\<lparr>name := nm', ftype := ty, parent_inode := parent, start_sector := 0, flength := 0\<rparr>);
          Some (fs\<lparr>file_table := t\<rparr>) }"

definition bdfs_create_dir_entry :: "buf \<Rightarrow> u32 \<Rightarrow> bdfs \<Rightarrow> (int \<times> bdfs) option" where
  "bdfs_create_dir_entry dirname parent fs =
     do { n \<leftarrow> strlen dirname;
          if n \<ge> BDFS_MAX_FILENAME_LENGTH then Some (-1, fs)
          else do {
            r \<leftarrow> find_entry_in_dir dirname parent fs;
            if r \<noteq> -1 then Some (-2, fs)
            else do {
              free_index \<leftarrow> find_free_entry fs;
              if free_index = -1 then Some (-3, fs)
              else do { fs' \<leftarrow> fill_entry free_index dirname BDFS_FILE_TYPE_DIRECTORY parent fs;
                        Some (free_index, fs') } } } }"

definition bdfs_create_file :: "buf \<Rightarrow> bdfs \<Rightarrow> (int \<times> bdfs) option" where
  "bdfs_create_file filename fs =
     do { n \<leftarrow> strlen filename;
          if n \<ge> BDFS_MAX_FILENAME_LENGTH then Some (-1, fs)
          else do {
            r \<leftarrow> find_entry_in_dir filename (current_dir_inode fs) fs;
            if r \<noteq> -1 then Some (-2, fs)
            else do {
              free_index \<leftarrow> find_free_entry fs;
              if free_index = -1 then Some (-3, fs)
              else do {
                fs1 \<leftarrow> fill_entry free_index filename BDFS_FILE_TYPE_FILE (current_dir_inode fs) fs;
                fs2 \<leftarrow> bdfs_sync_file_table fs1;
                Some (0, fs2) } } } }"

definition bdfs_mkdir :: "buf \<Rightarrow> bdfs \<Rightarrow> (int \<times> bdfs) option" where
  "bdfs_mkdir dirname fs =
     do { (result, fs1) \<leftarrow> bdfs_create_dir_entry dirname (current_dir_inode fs) fs;
          if result \<ge> 0
          then do { fs2 \<leftarrow> bdfs_sync_file_table fs1; Some (0, fs2) }
          else Some (result, fs1) }"

definition bdfs_delete_file :: "buf \<Rightarrow> bdfs \<Rightarrow> (int \<times> bdfs) option" where
  "bdfs_delete_file filename fs =
     do { file_index \<leftarrow> find_entry_in_dir filename (current_dir_inode fs) fs;
          if file_index = -1 then Some (-1, fs)
          else do {
            e \<leftarrow> rd (file_table fs) (nat file_index);
            nm \<leftarrow> wr (name e) 0 0;
            t \<leftarrow> wr (file_table fs) (nat file_index) (e\<lparr>name := nm\<rparr>);
            fs' \<leftarrow> bdfs_sync_file_table (fs\<lparr>file_table := t\<rparr>);
            Some (0, fs') } }"

definition bdfs_rename_file :: "buf \<Rightarrow> buf \<Rightarrow> bdfs \<Rightarrow> (int \<times> bdfs) option" where
  "bdfs_rename_file old_filename new_filename fs =
     do { n \<leftarrow> strlen new_filename;
          if n \<ge> BDFS_MAX_FILENAME_LENGTH then Some (-1, fs)
          else do {
            old_file_index \<leftarrow> find_entry_in_dir old_filename (current_dir_inode fs) fs;
            if old_file_index = -1 then Some (-2, fs)
            else do {
              r \<leftarrow> find_entry_in_dir new_filename (current_dir_inode fs) fs;
              if r \<noteq> -1 then Some (-3, fs)
              else do {
                e \<leftarrow> rd (file_table fs) (nat old_file_index);
                nm \<leftarrow> strcpy (name e) 0 new_filename;
                t \<leftarrow> wr (file_table fs) (nat old_file_index) (e\<lparr>name := nm\<rparr>);
                fs' \<leftarrow> bdfs_sync_file_table (fs\<lparr>file_table := t\<rparr>);
                Some (0, fs') } } } }"

subsection \<open>Start-up\<close>

definition bdfs_default_dirs :: "bdfs \<Rightarrow> bdfs option" where
  "bdfs_default_dirs fs =
     do { let t0 = replicate BDFS_MAX_FILES zero_entry;
          root \<leftarrow> rd t0 0;
          nm \<leftarrow> strcpy (name root) 0 (lit ''/'');
          t \<leftarrow> wr t0 0 (root\<lparr>name := nm, ftype := BDFS_FILE_TYPE_DIRECTORY, parent_inode := 0, flength := 0\<rparr>);
          (_, f1) \<leftarrow> bdfs_create_dir_entry (lit ''soul'') 0 (fs\<lparr>file_table := t\<rparr>);
          (_, f2) \<leftarrow> bdfs_create_dir_entry (lit ''cortex'') 0 f1;
          (vault_inode, f3) \<leftarrow> bdfs_create_dir_entry (lit ''vault'') 0 f2;
          (_, f4) \<leftarrow> bdfs_create_dir_entry (lit ''chrome'') 0 f3;
          (_, f5) \<leftarrow> bdfs_create_dir_entry (lit ''drift'') 0 f4;
          (_, f6) \<leftarrow> bdfs_create_dir_entry (lit ''ghost'') 0 f5;
          if vault_inode \<ge> 0
          then do { (_, f7) \<leftarrow> bdfs_create_dir_entry (lit ''cypher'') (word_of_int vault_inode) f6; Some f7 }
          else Some f6 }"

definition bdfs_init :: "bdfs \<Rightarrow> console \<Rightarrow> (bdfs \<times> console) option" where
  "bdfs_init fs k =
     (if of_le32 (take 4 (bdfs_storage fs)) \<noteq> BDFS_MAGIC
      then do { k' \<leftarrow> kprintf (bytes ''BDFS: No filesystem found, creating a new one in RAM.'' @ [10, 0]) [] k;
                fs1 \<leftarrow> bdfs_default_dirs fs;
                fs2 \<leftarrow> bdfs_sync_file_table fs1;
                Some (fs2\<lparr>current_dir_inode := 0\<rparr>, k') }
      else Some (fs\<lparr>file_table := dec_table BDFS_MAX_FILES (drop 4 (bdfs_storage fs)),
                    current_dir_inode := 0\<rparr>, k))"

subsection \<open>Directories\<close>

definition bdfs_chdir :: "buf \<Rightarrow> bdfs \<Rightarrow> (int \<times> bdfs) option" where
  "bdfs_chdir dirname fs =
     do { d1 \<leftarrow> strcmp dirname (lit ''.'');
          if d1 = 0 then Some (0, fs)
          else do {
            d2 \<leftarrow> strcmp dirname (lit ''..'');
            if d2 = 0
            then if current_dir_inode fs \<noteq> 0
                 then do { e \<leftarrow> rd (file_table fs) (unat (current_dir_inode fs));
                           Some (0, fs\<lparr>current_dir_inode := parent_inode e\<rparr>) }
                 else Some (0, fs)
            else do {
              dir_index \<leftarrow> find_entry_in_dir dirname (current_dir_inode fs) fs;
              if dir_index = -1 then Some (-1, fs)
              else do {
                e \<leftarrow> rd (file_table fs) (nat dir_index);
                if ftype e \<noteq> BDFS_FILE_TYPE_DIRECTORY then Some (-2, fs)
                else Some (0, fs\<lparr>current_dir_inode := word_of_int dir_index\<rparr>) } } } }"

definition bdfs_get_current_dir_inode :: "bdfs \<Rightarrow> u32" where
  "bdfs_get_current_dir_inode fs = current_dir_inode fs"

definition bdfs_get_current_dir_name :: "buf \<Rightarrow> bdfs \<Rightarrow> buf option" where
  "bdfs_get_current_dir_name buffer fs =
     do { e \<leftarrow> rd (file_table fs) (unat (current_dir_inode fs)); strcpy buffer 0 (name e) }"

definition dir_color :: "buf \<Rightarrow> byte option" where
  "dir_color nm =
     do { r1 \<leftarrow> strcmp nm (lit ''soul'');
          if r1 = 0 then Some 0x0B else do {
          r2 \<leftarrow> strcmp nm (lit ''cortex'');
          if r2 = 0 then Some 0x05 else do {
          r3 \<leftarrow> strcmp nm (lit ''vault'');
          if r3 = 0 then Some 0x0E else do {
          r4 \<leftarrow> strcmp nm (lit ''chrome'');
          if r4 = 0 then Some 0x0A else do {
          r5 \<leftarrow> strcmp nm (lit ''drift'');
          if r5 = 0 then Some 0x0D else do {
          r6 \<leftarrow> strcmp nm (lit ''ghost'');
          if r6 = 0 then Some 0x09 else Some COLOR_DIR }}}}}}"

definition list_entry :: "u32 \<Rightarrow> bdfs_file_entry \<Rightarrow> console \<Rightarrow> console option" where
  "list_entry cwd e k =
     do { c \<leftarrow> rd (name e) 0;
          if c \<noteq> 0 \<and> parent_inode e = cwd
          then if ftype e = BDFS_FILE_TYPE_DIRECTORY
               then do { color \<leftarrow> dir_color (name e);
                         k1 \<leftarrow> print (lit ''d '') color k;
                         k2 \<leftarrow> print (name e) color k1;
                         print [10, 0] color k2 }
               else do { k1 \<leftarrow> print (lit ''- '') COLOR_FILE k;
                         k2 \<leftarrow> print (name e) COLOR_FILE k1;
                         k3 \<leftarrow> print (lit '' ('') COLOR_GHOST k2;
                         k4 \<leftarrow> print_int (flength e) COLOR_GHOST k3;
                         print (bytes '' bytes)'' @ [10, 0]) COLOR_GHOST k4 }
          else Some k }"

definition bdfs_list_files :: "bdfs \<Rightarrow> console \<Rightarrow> console option" where
  "bdfs_list_files fs k =
     do { k1 \<leftarrow> print (lit ''Listing for /'') COLOR_SYSTEM k;
          e \<leftarrow> rd (file_table fs) (unat (current_dir_inode fs));
          k2 \<leftarrow> print (name e) COLOR_SYSTEM k1;
          k3 \<leftarrow> print (bytes '':'' @ [10, 0]) COLOR_SYSTEM k2;
          foldM (list_entry (current_dir_inode fs)) (file_table fs) k3 }"

subsection \<open>Reading and writing\<close>

definition store_data :: "nat \<Rightarrow> bdfs_file_entry \<Rightarrow> buf \<Rightarrow> u32 \<Rightarrow> bdfs \<Rightarrow> (int \<times> bdfs) option" where
  "store_data file_index file buffer bytes_to_write fs =
     do { t \<leftarrow> wr (file_table fs) file_index (file\<lparr>flength := bytes_to_write\<rparr>);
          let offset = start_sector file * 512;
          s \<leftarrow> memcpy (bdfs_storage fs) (unat (BDFS_FILE_TABLE_SECTORS * 512 + offset)) buffer (unat bytes_to_write);
          fs' \<leftarrow> bdfs_sync_file_table (fs\<lparr>file_table := t, bdfs_storage := s\<rparr>);
          Some (sint bytes_to_write, fs') }"

definition bdfs_write_file :: "buf \<Rightarrow> buf \<Rightarrow> u32 \<Rightarrow> bdfs \<Rightarrow> (int \<times> bdfs) option" where
  "bdfs_write_file filename buffer bytes_to_write fs =
     do { file_index \<leftarrow> find_entry_in_dir filename (current_dir_inode fs) fs;
          if file_index = -1 then Some (-1, fs)
          else do {
            file \<leftarrow> rd (file_table fs) (nat file_index);
            if ftype file \<noteq> BDFS_FILE_TYPE_FILE then Some (-3, fs)
            else do {
              let needed_sectors = (bytes_to_write + 511) div 512;
              if flength file = 0
              then do {
                start \<leftarrow> find_free_sector fs;
                if start + needed_sectors > BDFS_DATA_SECTORS then Some (-2, fs)
                else store_data (nat file_index) (file\<lparr>start_sector := start\<rparr>) buffer bytes_to_write fs }
              else
                let allocated_sectors = (flength file + 511) div 512 in
                if needed_sectors > allocated_sectors then Some (-2, fs)
                else store_data (nat file_index) file buffer bytes_to_write fs } } }"

text \<open>Result: the C return value, \<^verbatim>\<open>*bytes_read\<close> (when it is assigned), and the caller's buffer.\<close>

definition bdfs_read_file :: "buf \<Rightarrow> buf \<Rightarrow> bdfs \<Rightarrow> (int \<times> u32 option \<times> buf) option" where
  "bdfs_read_file filename buffer fs =
     do { file_index \<leftarrow> find_entry_in_dir filename (current_dir_inode fs) fs;
          if file_index = -1 then Some (-1, None, buffer)
          else do {
            file \<leftarrow> rd (file_table fs) (nat file_index);
            if ftype file \<noteq> BDFS_FILE_TYPE_FILE then Some (-2, None, buffer)
            else if flength file > 0
            then do {
              let offset = start_sector file * 512;
              b \<leftarrow> memcpy buffer 0 (drop (unat (BDFS_FILE_TABLE_SECTORS * 512 + offset)) (bdfs_storage fs))
                     (unat (flength file));
              Some (0, Some (flength file), b) }
            else Some (0, Some (flength file), buffer) } }"

end
