(* ===== verification/Bdfs_Inv.thy ===== *)
theory Bdfs_Inv
  imports Bdfs
begin

text \<open>
  Invariant and correctness of the file system.  The invariant says that the table has its 64
  entries with NUL-terminated names, that no directory holds one name twice, that the extents of
  the files lie on the disk and do not overlap, and that the disk holds the saved table.  Every
  operation keeps it, none leaves its objects, and reading and writing behave as specified up to
  the four bytes by which the saved table is longer than the sectors reserved for it.
\<close>

section \<open>Entries and search\<close>

definition live :: "bdfs_file_entry \<Rightarrow> bool" where
  "live e \<longleftrightarrow> name e ! 0 \<noteq> 0"

definition is_file :: "bdfs_file_entry \<Rightarrow> bool" where
  "is_file e \<longleftrightarrow> live e \<and> ftype e = BDFS_FILE_TYPE_FILE"

definition matches :: "buf \<Rightarrow> u32 \<Rightarrow> bdfs_file_entry \<Rightarrow> bool" where
  "matches nm parent e \<longleftrightarrow> live e \<and> parent_inode e = parent \<and> cstr (name e) = cstr nm"

definition entry_wf :: "bdfs_file_entry \<Rightarrow> bool" where
  "entry_wf e \<longleftrightarrow> length (name e) = 16 \<and> terminated (name e) \<and> unat (parent_inode e) < 64"

definition secs :: "bdfs_file_entry \<Rightarrow> nat" where
  "secs e = (unat (flength e) + 511) div 512"

definition extent :: "bdfs_file_entry \<Rightarrow> nat set" where
  "extent e = {unat (start_sector e) ..< unat (start_sector e) + secs e}"

definition lookup :: "buf \<Rightarrow> u32 \<Rightarrow> bdfs \<Rightarrow> nat option" where
  "lookup nm parent fs = first_idx (matches nm parent) (file_table fs)"

lemma entry_wf_name0: "entry_wf e \<Longrightarrow> rd (name e) 0 = Some (name e ! 0)"
  by (simp add: entry_wf_def)

lemma find_entry_from_eq:
  "\<forall>e \<in> set es. entry_wf e \<Longrightarrow> terminated nm \<Longrightarrow>
   find_entry_from i es nm parent =
     Some (case first_idx (matches nm parent) es of None \<Rightarrow> -1 | Some j \<Rightarrow> int (i + j))"
proof (induction es arbitrary: i)
  case (Cons e es)
  then have "terminated (name e)" by (simp add: entry_wf_def)
  then obtain r where "strcmp (name e) nm = Some r" "r = 0 \<longleftrightarrow> cstr (name e) = cstr nm"
    using Cons.prems(2) strcmp_cases by blast
  then show ?case
    using Cons by (auto simp: entry_wf_name0 matches_def live_def split: option.splits)
qed simp

lemma find_free_from_eq:
  "\<forall>e \<in> set es. entry_wf e \<Longrightarrow>
   find_free_from i es = Some (case first_idx (\<lambda>e. \<not> live e) es of None \<Rightarrow> -1 | Some j \<Rightarrow> int (i + j))"
  by (induction es arbitrary: i) (auto simp: entry_wf_name0 live_def split: option.splits)

definition free_slot :: "bdfs \<Rightarrow> nat option" where
  "free_slot fs = first_idx (\<lambda>e. \<not> live e) (file_table fs)"

section \<open>The table\<close>

definition names_unique :: "bdfs_file_entry list \<Rightarrow> bool" where
  "names_unique t \<longleftrightarrow> (\<forall>i < length t. \<forall>j < length t. live (t ! i) \<longrightarrow>
     matches (name (t ! i)) (parent_inode (t ! i)) (t ! j) \<longrightarrow> i = j)"

definition extents_ok :: "bdfs_file_entry list \<Rightarrow> bool" where
  "extents_ok t \<longleftrightarrow> (\<forall>i < length t. is_file (t ! i) \<longrightarrow> unat (start_sector (t ! i)) + secs (t ! i) \<le> 64) \<and>
     (\<forall>i < length t. \<forall>j < length t. i \<noteq> j \<longrightarrow> is_file (t ! i) \<longrightarrow> is_file (t ! j) \<longrightarrow>
        extent (t ! i) \<inter> extent (t ! j) = {})"

definition table_inv :: "bdfs_file_entry list \<Rightarrow> bool" where
  "table_inv t \<longleftrightarrow> length t = 64 \<and> (\<forall>e \<in> set t. entry_wf e) \<and> names_unique t \<and> extents_ok t"

definition synced :: "bdfs \<Rightarrow> bool" where
  "synced fs \<longleftrightarrow> take 2052 (bdfs_storage fs) = le32 BDFS_MAGIC @ enc_table (file_table fs)"

definition fs_inv :: "bdfs \<Rightarrow> bool" where
  "fs_inv fs \<longleftrightarrow> table_inv (file_table fs) \<and> length (bdfs_storage fs) = 34816 \<and>
     unat (current_dir_inode fs) < 64 \<and> synced fs"

lemma table_invD:
  assumes "table_inv t"
  shows "length t = 64" "e \<in> set t \<Longrightarrow> entry_wf e" "i < 64 \<Longrightarrow> entry_wf (t ! i)"
    "i < 64 \<Longrightarrow> length (name (t ! i)) = 16" "i < 64 \<Longrightarrow> terminated (name (t ! i))"
  using assms by (auto simp: table_inv_def entry_wf_def)

lemma fs_invD:
  assumes "fs_inv fs"
  shows "table_inv (file_table fs)" "length (file_table fs) = 64" "length (bdfs_storage fs) = 34816"
    "unat (current_dir_inode fs) < 64" "synced fs"
  using assms by (auto simp: fs_inv_def table_inv_def)

lemma find_entry_eq:
  "table_inv (file_table fs) \<Longrightarrow> terminated nm \<Longrightarrow>
   find_entry_in_dir nm parent fs =
     Some (case lookup nm parent fs of None \<Rightarrow> -1 | Some j \<Rightarrow> int j)"
  by (simp add: find_entry_in_dir_def lookup_def find_entry_from_eq table_inv_def split: option.splits)

lemma find_free_eq:
  "table_inv (file_table fs) \<Longrightarrow>
   find_free_entry fs = Some (case free_slot fs of None \<Rightarrow> -1 | Some j \<Rightarrow> int j)"
  by (simp add: find_free_entry_def free_slot_def find_free_from_eq table_inv_def split: option.splits)

lemma free_slot_Some:
  assumes "table_inv (file_table fs)" "free_slot fs = Some i"
  shows "i < 64" "\<not> live (file_table fs ! i)"
  using assms by (auto simp: free_slot_def first_idx_Some table_inv_def)

lemma extents_okD:
  assumes "table_inv t" "i < 64" "is_file (t ! i)"
  shows "unat (start_sector (t ! i)) + secs (t ! i) \<le> 64"
    "j < 64 \<Longrightarrow> j \<noteq> i \<Longrightarrow> is_file (t ! j) \<Longrightarrow> extent (t ! i) \<inter> extent (t ! j) = {}"
  using assms by (auto simp: table_inv_def extents_ok_def)

lemma lookup_Some:
  assumes "table_inv (file_table fs)" "lookup nm parent fs = Some i"
  shows "i < 64" "matches nm parent (file_table fs ! i)"
  using assms by (auto simp: lookup_def first_idx_Some table_inv_def)

lemma lookup_None: "lookup nm parent fs = None \<longleftrightarrow> (\<forall>e \<in> set (file_table fs). \<not> matches nm parent e)"
  by (simp add: lookup_def first_idx_None)

lemma lookup_unique:
  assumes "table_inv (file_table fs)"
  shows "lookup nm parent fs = Some i \<longleftrightarrow> i < 64 \<and> matches nm parent (file_table fs ! i)"
proof
  assume "lookup nm parent fs = Some i"
  then show "i < 64 \<and> matches nm parent (file_table fs ! i)" using lookup_Some [OF assms] by auto
next
  assume i: "i < 64 \<and> matches nm parent (file_table fs ! i)"
  note t = table_invD [OF assms]
  have u: "names_unique (file_table fs)" using assms by (simp add: table_inv_def)
  have "\<not> matches nm parent (file_table fs ! j)" if "j < i" for j
  proof
    assume "matches nm parent (file_table fs ! j)"
    then have "matches (name (file_table fs ! j)) (parent_inode (file_table fs ! j)) (file_table fs ! i)"
      "live (file_table fs ! j)"
      using i by (auto simp: matches_def)
    then have "j = i" using u i that t(1) by (auto simp: names_unique_def)
    then show False using that by simp
  qed
  then show "lookup nm parent fs = Some i" using i t(1) by (simp add: lookup_def first_idx_Some)
qed

lemma table_inv_update:
  assumes t: "table_inv t" and i: "i < 64" and "entry_wf e"
    and fresh: "\<And>j. live e \<Longrightarrow> j < 64 \<Longrightarrow> j \<noteq> i \<Longrightarrow> \<not> matches (name e) (parent_inode e) (t ! j)"
    and room: "is_file e \<Longrightarrow> unat (start_sector e) + secs e \<le> 64"
    and apart: "\<And>j. is_file e \<Longrightarrow> j < 64 \<Longrightarrow> j \<noteq> i \<Longrightarrow> is_file (t ! j) \<Longrightarrow> extent e \<inter> extent (t ! j) = {}"
  shows "table_inv (t[i := e])"
proof -
  note l = table_invD(1) [OF t]
  have "\<forall>e' \<in> set (t[i := e]). entry_wf e'"
    using table_invD(2) [OF t] assms(3) set_update_subset_insert [of t i e] by auto
  moreover have "names_unique (t[i := e])"
    unfolding names_unique_def
  proof (intro allI impI)
    fix a b
    assume a: "a < length (t[i := e])" and b: "b < length (t[i := e])"
      and live: "live (t[i := e] ! a)"
      and m: "matches (name (t[i := e] ! a)) (parent_inode (t[i := e] ! a)) (t[i := e] ! b)"
    have u: "names_unique t" using t by (simp add: table_inv_def)
    consider "a = i" "b = i" | "a = i" "b \<noteq> i" | "a \<noteq> i" "b = i" | "a \<noteq> i" "b \<noteq> i" by blast
    then show "a = b"
    proof cases
      case 3
      then have "matches (name e) (parent_inode e) (t ! a)" "live e"
        using m live l i a by (auto simp: matches_def)
      then show ?thesis using fresh [of a] a 3 l by simp
    qed (use u m live a b l i fresh in \<open>auto simp: names_unique_def\<close>)
  qed
  moreover have "extents_ok (t[i := e])"
    using t room apart l i by (auto simp: extents_ok_def table_inv_def nth_list_update)
  ultimately show ?thesis using l by (simp add: table_inv_def)
qed

section \<open>The saved table\<close>

lemma length_enc_entry: "length (name e) = 16 \<Longrightarrow> length (enc_entry e) = 32"
  by (simp add: enc_entry_def)

lemma length_enc_table: "\<forall>e \<in> set t. length (name e) = 16 \<Longrightarrow> length (enc_table t) = 32 * length t"
  by (induction t) (auto simp: enc_table_def length_enc_entry)

lemma dec_enc_entry: "length (name e) = 16 \<Longrightarrow> dec_entry (enc_entry e) = e"
  by (simp add: dec_entry_def enc_entry_def chunk_def)

lemma dec_enc_table:
  "\<forall>e \<in> set t. length (name e) = 16 \<Longrightarrow> dec_table (length t) (enc_table t @ rest) = t"
  by (induction t) (auto simp: enc_table_def length_enc_entry dec_enc_entry)

lemma table_inv_enc: "table_inv t \<Longrightarrow> length (enc_table t) = 2048"
  using length_enc_table [of t] by (auto simp: table_inv_def entry_wf_def)

definition header :: "bdfs_file_entry list \<Rightarrow> buf" where
  "header t = le32 BDFS_MAGIC @ enc_table t"

lemma length_header: "table_inv t \<Longrightarrow> length (header t) = 2052"
  by (simp add: header_def table_inv_enc)

lemma sync_eq:
  assumes "table_inv (file_table fs)" "length (bdfs_storage fs) = 34816"
  shows "bdfs_sync_file_table fs = Some (fs\<lparr>bdfs_storage := blit (bdfs_storage fs) 0 (header (file_table fs))\<rparr>)"
proof -
  let ?s = "bdfs_storage fs" and ?t = "enc_table (file_table fs)"
  have t: "length ?t = 2048" by (rule table_inv_enc [OF assms(1)])
  have "blit (blit (blit ?s 0 (replicate 2048 0)) 0 (le32 BDFS_MAGIC)) 4 ?t = blit ?s 0 (header (file_table fs))"
    using t assms(2)
    by (intro nth_equalityI) (auto simp: nth_blit header_def nth_append)
  then show ?thesis
    using t assms(2) by (simp add: bdfs_sync_file_table_def memset_eq memcpy_eq)
qed

lemma sync_inv:
  assumes "table_inv (file_table fs)" "length (bdfs_storage fs) = 34816" "unat (current_dir_inode fs) < 64"
  shows "fs_inv (fs\<lparr>bdfs_storage := blit (bdfs_storage fs) 0 (header (file_table fs))\<rparr>)"
  using assms length_header [OF assms(1)] take_blit_0 [of "header (file_table fs)" "bdfs_storage fs"]
  by (simp add: fs_inv_def synced_def header_def)

section \<open>Operations on the table\<close>

definition resync :: "bdfs \<Rightarrow> bdfs" where
  "resync fs = fs\<lparr>bdfs_storage := blit (bdfs_storage fs) 0 (header (file_table fs))\<rparr>"

definition named :: "buf \<Rightarrow> bdfs_file_entry \<Rightarrow> bdfs_file_entry" where
  "named nm e = e\<lparr>name := cstr nm @ [0] @ drop (Suc (length (cstr nm))) (name e)\<rparr>"

definition fresh_entry :: "buf \<Rightarrow> u32 \<Rightarrow> u32 \<Rightarrow> bdfs_file_entry \<Rightarrow> bdfs_file_entry" where
  "fresh_entry nm ty parent e =
     (named nm e)\<lparr>ftype := ty, parent_inode := parent, start_sector := 0, flength := 0\<rparr>"

definition put_entry :: "nat \<Rightarrow> bdfs_file_entry \<Rightarrow> bdfs \<Rightarrow> bdfs" where
  "put_entry i e fs = fs\<lparr>file_table := (file_table fs)[i := e]\<rparr>"

lemma cstr_named [simp]: "cstr (name (named nm e)) = cstr nm"
  using cstr_append_zero [of "cstr nm" "drop (Suc (length (cstr nm))) (name e)"]
  by (simp add: named_def)

lemma named_wf: "length (name e) = 16 \<Longrightarrow> length (cstr nm) < 16 \<Longrightarrow>
    length (name (named nm e)) = 16 \<and> terminated (name (named nm e))"
  by (simp add: named_def)

lemma fill_entry_eq:
  assumes "table_inv (file_table fs)" "i < 64" "terminated nm" "length (cstr nm) < 16"
  shows "fill_entry (int i) nm ty parent fs =
      Some (put_entry i (fresh_entry nm ty parent (file_table fs ! i)) fs)"
proof -
  note t = table_invD [OF assms(1)]
  have "strcpy (name (file_table fs ! i)) 0 nm = Some (name (named nm (file_table fs ! i)))"
    using assms t(4) by (simp add: strcpy_eq named_def blit_def)
  then show ?thesis
    using assms t(1)
    by (simp add: fill_entry_def fresh_entry_def put_entry_def named_def)
qed

lemma fresh_entry_inv:
  assumes "table_inv (file_table fs)" "i < 64" "length (cstr nm) < 16" "unat parent < 64"
    and "lookup nm parent fs = None"
  shows "table_inv (file_table (put_entry i (fresh_entry nm ty parent (file_table fs ! i)) fs))"
proof -
  note t = table_invD [OF assms(1)]
  let ?e = "fresh_entry nm ty parent (file_table fs ! i)"
  have e: "cstr (name ?e) = cstr nm" "parent_inode ?e = parent" "secs ?e = 0" "unat (start_sector ?e) = 0"
    by (simp_all add: fresh_entry_def secs_def)
  have "\<not> matches (name ?e) (parent_inode ?e) (file_table fs ! j)" if "j < 64" for j
    using assms(5) that t(1) nth_mem [of j "file_table fs"] e by (auto simp: lookup_None matches_def)
  moreover have "entry_wf ?e"
    using named_wf [OF t(4) [OF assms(2)] assms(3)] assms(4) by (simp add: entry_wf_def fresh_entry_def)
  ultimately show ?thesis
    using assms(1,2) e by (auto simp: put_entry_def extent_def intro!: table_inv_update)
qed

text \<open>The four operations that change the table, in closed form.\<close>

lemma create_dir_entry_eq:
  assumes "table_inv (file_table fs)" "terminated nm"
  shows "bdfs_create_dir_entry nm parent fs = Some (
     if 16 \<le> length (cstr nm) then (-1, fs)
     else if lookup nm parent fs \<noteq> None then (-2, fs)
     else case free_slot fs of
        None \<Rightarrow> (-3, fs)
      | Some i \<Rightarrow> (int i, put_entry i (fresh_entry nm BDFS_FILE_TYPE_DIRECTORY parent (file_table fs ! i)) fs))"
  using assms free_slot_Some(1) [OF assms(1)]
  by (auto simp: bdfs_create_dir_entry_def strlen_eq find_entry_eq find_free_eq fill_entry_eq
      split: option.splits)

lemma create_dir_entry_inv:
  assumes "table_inv (file_table fs)" "terminated nm" "unat parent < 64"
    and "bdfs_create_dir_entry nm parent fs = Some (r, fs')"
  shows "table_inv (file_table fs')" "bdfs_storage fs' = bdfs_storage fs"
    "current_dir_inode fs' = current_dir_inode fs" "- 3 \<le> r \<and> r < 64"
  using assms free_slot_Some(1) [OF assms(1)] fresh_entry_inv [OF assms(1)]
  by (auto simp: create_dir_entry_eq put_entry_def split: if_splits option.splits)

lemma sync_put_entry:
  assumes "fs_inv fs" "table_inv (file_table (put_entry i e fs))"
  shows "bdfs_sync_file_table (put_entry i e fs) = Some (resync (put_entry i e fs))"
    "fs_inv (resync (put_entry i e fs))"
  using assms sync_eq [OF assms(2)] sync_inv [OF assms(2)] fs_invD [OF assms(1)]
  by (simp_all add: put_entry_def resync_def)

lemma create_file_eq:
  assumes "fs_inv fs" "terminated nm"
  shows "bdfs_create_file nm fs = Some (
     if 16 \<le> length (cstr nm) then (-1, fs)
     else if lookup nm (current_dir_inode fs) fs \<noteq> None then (-2, fs)
     else case free_slot fs of
        None \<Rightarrow> (-3, fs)
      | Some i \<Rightarrow> (0, resync (put_entry i
            (fresh_entry nm BDFS_FILE_TYPE_FILE (current_dir_inode fs) (file_table fs ! i)) fs)))"
proof -
  note f = fs_invD [OF assms(1)]
  have "bdfs_sync_file_table (put_entry i (fresh_entry nm 0 (current_dir_inode fs) (file_table fs ! i)) fs)
      = Some (resync (put_entry i (fresh_entry nm 0 (current_dir_inode fs) (file_table fs ! i)) fs))"
    if "i < 64" "length (cstr nm) < 16" "lookup nm (current_dir_inode fs) fs = None" for i
    using sync_put_entry(1) [OF assms(1)] fresh_entry_inv [OF f(1)] that f(4) by blast
  then show ?thesis
    using assms f free_slot_Some(1) [OF f(1)]
    by (auto simp: bdfs_create_file_def strlen_eq find_entry_eq find_free_eq fill_entry_eq
        split: option.splits)
qed

lemma mkdir_eq:
  assumes "fs_inv fs" "terminated nm"
  shows "bdfs_mkdir nm fs = Some (
     if 16 \<le> length (cstr nm) then (-1, fs)
     else if lookup nm (current_dir_inode fs) fs \<noteq> None then (-2, fs)
     else case free_slot fs of
        None \<Rightarrow> (-3, fs)
      | Some i \<Rightarrow> (0, resync (put_entry i
            (fresh_entry nm BDFS_FILE_TYPE_DIRECTORY (current_dir_inode fs) (file_table fs ! i)) fs)))"
proof -
  note f = fs_invD [OF assms(1)]
  have "bdfs_sync_file_table (put_entry i (fresh_entry nm 1 (current_dir_inode fs) (file_table fs ! i)) fs)
      = Some (resync (put_entry i (fresh_entry nm 1 (current_dir_inode fs) (file_table fs ! i)) fs))"
    if "i < 64" "length (cstr nm) < 16" "lookup nm (current_dir_inode fs) fs = None" for i
    using sync_put_entry(1) [OF assms(1)] fresh_entry_inv [OF f(1)] that f(4) by blast
  then show ?thesis
    using assms f free_slot_Some(1) [OF f(1)]
    by (auto simp: bdfs_mkdir_def create_dir_entry_eq split: option.splits)
qed

definition deleted :: "bdfs_file_entry \<Rightarrow> bdfs_file_entry" where
  "deleted e = e\<lparr>name := (name e)[0 := 0]\<rparr>"

lemma deleted_inv:
  assumes "table_inv (file_table fs)" "i < 64"
  shows "table_inv (file_table (put_entry i (deleted (file_table fs ! i)) fs))"
proof -
  let ?e = "deleted (file_table fs ! i)"
  have l: "length (name (file_table fs ! i)) = 16" by (rule table_invD(4) [OF assms])
  have "\<not> live ?e" using l by (simp add: live_def deleted_def)
  moreover have "entry_wf ?e"
    using l table_invD(3) [OF assms] by (auto simp: entry_wf_def deleted_def terminated_def set_update_memI)
  ultimately show ?thesis
    using assms by (auto simp: put_entry_def is_file_def intro!: table_inv_update)
qed

lemma delete_eq:
  assumes "fs_inv fs" "terminated nm"
  shows "bdfs_delete_file nm fs = Some (
     case lookup nm (current_dir_inode fs) fs of
        None \<Rightarrow> (-1, fs)
      | Some i \<Rightarrow> (0, resync (put_entry i (deleted (file_table fs ! i)) fs)))"
proof -
  note f = fs_invD [OF assms(1)]
  have "bdfs_sync_file_table (put_entry i (deleted (file_table fs ! i)) fs)
      = Some (resync (put_entry i (deleted (file_table fs ! i)) fs))" if "i < 64" for i
    using sync_put_entry(1) [OF assms(1)] deleted_inv [OF f(1) that] by blast
  then show ?thesis
    using assms f lookup_Some(1) [OF f(1)] table_invD(4) [OF f(1)]
    by (auto simp: bdfs_delete_file_def find_entry_eq deleted_def put_entry_def split: option.splits)
qed

lemma renamed_inv:
  assumes "table_inv (file_table fs)" "lookup old parent fs = Some i" "length (cstr new) < 16"
    and "lookup new parent fs = None"
  shows "table_inv (file_table (put_entry i (named new (file_table fs ! i)) fs))"
proof -
  note t = table_invD [OF assms(1)] and i = lookup_Some [OF assms(1,2)]
  let ?e = "named new (file_table fs ! i)"
  have e: "parent_inode ?e = parent" "extent ?e = extent (file_table fs ! i)" "secs ?e = secs (file_table fs ! i)"
    "start_sector ?e = start_sector (file_table fs ! i)" "is_file ?e \<Longrightarrow> is_file (file_table fs ! i)"
    using i(2) by (simp_all add: named_def matches_def secs_def extent_def is_file_def)
  have "\<not> matches (name ?e) (parent_inode ?e) (file_table fs ! j)" if "j < 64" for j
    using assms(4) that t(1) nth_mem [of j "file_table fs"] e(1) by (auto simp: lookup_None matches_def)
  moreover have "entry_wf ?e"
    using named_wf [OF t(4) [OF i(1)] assms(3)] t(3) [OF i(1)] by (simp add: entry_wf_def named_def)
  ultimately show ?thesis
    using assms(1) i(1) e extents_okD [OF assms(1) i(1)]
    by (simp add: put_entry_def table_inv_update)
qed

lemma rename_eq:
  assumes "fs_inv fs" "terminated old" "terminated new"
  shows "bdfs_rename_file old new fs = Some (
     if 16 \<le> length (cstr new) then (-1, fs)
     else case lookup old (current_dir_inode fs) fs of
        None \<Rightarrow> (-2, fs)
      | Some i \<Rightarrow>
          if lookup new (current_dir_inode fs) fs \<noteq> None then (-3, fs)
          else (0, resync (put_entry i (named new (file_table fs ! i)) fs)))"
proof -
  note f = fs_invD [OF assms(1)]
  have st: "strcpy (name (file_table fs ! i)) 0 new = Some (name (named new (file_table fs ! i)))"
    if "i < 64" "length (cstr new) < 16" for i
    using assms that table_invD(4) [OF f(1)] by (simp add: strcpy_eq named_def blit_def)
  have sy: "bdfs_sync_file_table (put_entry i (named new (file_table fs ! i)) fs)
      = Some (resync (put_entry i (named new (file_table fs ! i)) fs))"
    if "lookup old (current_dir_inode fs) fs = Some i" "length (cstr new) < 16"
      "lookup new (current_dir_inode fs) fs = None" for i
    using sync_put_entry(1) [OF assms(1)] renamed_inv [OF f(1) that] by blast
  have nm: "(file_table fs ! i)\<lparr>name := name (named new (file_table fs ! i))\<rparr> = named new (file_table fs ! i)" for i
    by (simp add: named_def)
  show ?thesis
    using assms f lookup_Some(1) [OF f(1)] st sy
    by (auto simp: bdfs_rename_file_def strlen_eq find_entry_eq nm put_entry_def split: option.splits)
qed

section \<open>Reading and writing\<close>

lemma sint_small:
  assumes "unat (n :: u32) < 2147483648"
  shows "sint n = uint n"
proof -
  have "uint n = int (unat n)" by simp
  then have "uint n < 2147483648" using assms by linarith
  moreover have "- 2147483648 \<le> uint n" using uint_ge_0 [of n] by linarith
  ultimately show ?thesis by (simp add: sint_uint signed_take_bit_int_eq_self)
qed

lemma flength_bound: "secs e \<le> 64 \<Longrightarrow> unat (flength e) \<le> 32768"
  by (simp add: secs_def)

lemma unat_sectors:
  fixes n :: u32
  assumes "unat n + 511 < 2 ^ 32"
  shows "unat ((n + 511) div 512) = (unat n + 511) div 512"
proof -
  have "unat (n + 511) = unat n + 511"
    using assms by (simp add: unat_word_ariths)
  then show ?thesis by (simp add: unat_div)
qed

lemma unat_end_sector:
  assumes "unat (start_sector e) + secs e \<le> 64"
  shows "unat (start_sector e + (flength e + 511) div 512) = unat (start_sector e) + secs e"
proof -
  have "unat ((flength e + 511) div 512) = secs e"
    using assms flength_bound [of e] unat_sectors [of "flength e"] by (simp add: secs_def)
  then show ?thesis using assms by (simp add: unat_word_ariths)
qed

lemma find_free_sector_from_eq:
  "\<forall>e \<in> set es. entry_wf e \<Longrightarrow> \<forall>e \<in> set es. is_file e \<longrightarrow> unat (start_sector e) + secs e \<le> 64 \<Longrightarrow>
   unat l0 \<le> 64 \<Longrightarrow>
   \<exists>r. find_free_sector_from es l0 = Some r \<and> unat r \<le> 64 \<and> unat l0 \<le> unat r \<and>
     (\<forall>e \<in> set es. is_file e \<longrightarrow> unat (start_sector e) + secs e \<le> unat r)"
proof (induction es arbitrary: l0)
  case Nil
  then show ?case by simp
next
  case (Cons e es)
  let ?fin = "start_sector e + (flength e + 511) div 512"
  let ?last = "if is_file e \<and> ?fin > l0 then ?fin else l0"
  have c: "rd (name e) 0 = Some (name e ! 0)" using Cons.prems(1) by (simp add: entry_wf_name0)
  have step: "find_free_sector_from (e # es) l0 = find_free_sector_from es ?last"
    using c by (auto simp: is_file_def live_def Let_def)
  have e: "is_file e \<Longrightarrow> unat ?fin = unat (start_sector e) + secs e"
    using Cons.prems(2) unat_end_sector by simp
  have l: "unat ?last \<le> 64" "unat l0 \<le> unat ?last"
    "is_file e \<Longrightarrow> unat (start_sector e) + secs e \<le> unat ?last"
    using Cons.prems(2,3) e by (auto simp: word_less_nat_alt)
  obtain r where "find_free_sector_from es ?last = Some r" "unat r \<le> 64" "unat ?last \<le> unat r"
    "\<forall>e \<in> set es. is_file e \<longrightarrow> unat (start_sector e) + secs e \<le> unat r"
    using Cons.IH [of ?last] Cons.prems(1,2) l(1) by auto
  with step l show ?case by (intro exI [of _ r]) (auto intro: order_trans)
qed

definition free_sector :: "bdfs \<Rightarrow> u32" where
  "free_sector fs = the (find_free_sector fs)"

lemma free_sector:
  assumes "table_inv (file_table fs)"
  shows "find_free_sector fs = Some (free_sector fs)" "unat (free_sector fs) \<le> 64"
    "i < 64 \<Longrightarrow> is_file (file_table fs ! i) \<Longrightarrow>
      unat (start_sector (file_table fs ! i)) + secs (file_table fs ! i) \<le> unat (free_sector fs)"
proof -
  have "\<forall>e \<in> set (file_table fs). is_file e \<longrightarrow> unat (start_sector e) + secs e \<le> 64"
    using assms by (auto simp: table_inv_def extents_ok_def in_set_conv_nth)
  then obtain r where "find_free_sector fs = Some r" "unat r \<le> 64"
    "\<forall>e \<in> set (file_table fs). is_file e \<longrightarrow> unat (start_sector e) + secs e \<le> unat r"
    using find_free_sector_from_eq [of "file_table fs" 0] assms
    by (auto simp: find_free_sector_def table_inv_def)
  then show "find_free_sector fs = Some (free_sector fs)" "unat (free_sector fs) \<le> 64"
    "i < 64 \<Longrightarrow> is_file (file_table fs ! i) \<Longrightarrow>
      unat (start_sector (file_table fs ! i)) + secs (file_table fs ! i) \<le> unat (free_sector fs)"
    using table_invD(1) [OF assms] by (auto simp: free_sector_def)
qed

definition data_offset :: "bdfs_file_entry \<Rightarrow> nat" where
  "data_offset e = 2048 + 512 * unat (start_sector e)"

definition stored :: "bdfs \<Rightarrow> nat \<Rightarrow> buf" where
  "stored fs i = chunk (data_offset (file_table fs ! i)) (unat (flength (file_table fs ! i))) (bdfs_storage fs)"

definition written :: "nat \<Rightarrow> bdfs_file_entry \<Rightarrow> buf \<Rightarrow> u32 \<Rightarrow> bdfs \<Rightarrow> bdfs" where
  "written i e buffer n fs = resync (put_entry i (e\<lparr>flength := n\<rparr>)
     (fs\<lparr>bdfs_storage := blit (bdfs_storage fs) (data_offset e) (take (unat n) buffer)\<rparr>))"

lemma unat_offset: "unat (start_sector e) \<le> 64 \<Longrightarrow> unat (2048 + start_sector e * 512) = 2048 + 512 * unat (start_sector e)"
  by (simp add: unat_word_ariths)

lemma store_data_eq:
  assumes "fs_inv fs" "i < 64" "unat n \<le> length buffer"
    and e: "entry_wf e" "is_file e" "unat (start_sector e) + (unat n + 511) div 512 \<le> 64"
    and fresh: "\<And>j. j < 64 \<Longrightarrow> j \<noteq> i \<Longrightarrow> \<not> matches (name e) (parent_inode e) (file_table fs ! j)"
    and apart: "\<And>j. j < 64 \<Longrightarrow> j \<noteq> i \<Longrightarrow> is_file (file_table fs ! j) \<Longrightarrow>
        extent (e\<lparr>flength := n\<rparr>) \<inter> extent (file_table fs ! j) = {}"
  shows "store_data i e buffer n fs = Some (uint n, written i e buffer n fs)"
    "fs_inv (written i e buffer n fs)"
proof -
  note f = fs_invD [OF assms(1)]
  let ?e = "e\<lparr>flength := n\<rparr>"
  let ?s = "blit (bdfs_storage fs) (data_offset e) (take (unat n) buffer)"
  have n: "unat n \<le> 32768" and st: "unat (start_sector e) \<le> 64" using e(3) by auto
  have "512 * unat (start_sector e) + unat n \<le> 32768" using e(3) by linarith
  then have s: "length ?s = 34816" "data_offset e + unat n \<le> 34816"
    using f(3) assms(3) by (auto simp: data_offset_def)
  have sint: "sint n = uint n"
    using n by (intro sint_small) simp
  have t: "table_inv ((file_table fs)[i := ?e])"
    using f(1) assms(2) e fresh apart
    by (intro table_inv_update) (auto simp: entry_wf_def is_file_def live_def secs_def)
  have sy: "bdfs_sync_file_table (put_entry i ?e (fs\<lparr>bdfs_storage := ?s\<rparr>)) = Some (written i e buffer n fs)"
    using sync_eq [of "put_entry i ?e (fs\<lparr>bdfs_storage := ?s\<rparr>)"] t s
    by (simp add: put_entry_def written_def resync_def)
  have "fs\<lparr>file_table := (file_table fs)[i := ?e], bdfs_storage := ?s\<rparr> = put_entry i ?e (fs\<lparr>bdfs_storage := ?s\<rparr>)"
    by (simp add: put_entry_def)
  with sy show "store_data i e buffer n fs = Some (uint n, written i e buffer n fs)"
    using assms(2,3) f s unat_offset [OF st] sint
    by (simp add: store_data_def memcpy_eq data_offset_def)
  show "fs_inv (written i e buffer n fs)"
    using sync_inv [of "put_entry i ?e (fs\<lparr>bdfs_storage := ?s\<rparr>)"] t s f(4)
    by (simp add: put_entry_def written_def resync_def)
qed

text \<open>The entry a write lands in: a file without data moves to the first free sector.\<close>

definition target :: "nat \<Rightarrow> bdfs \<Rightarrow> bdfs_file_entry" where
  "target i fs = (let e = file_table fs ! i in
     if flength e = 0 then e\<lparr>start_sector := free_sector fs\<rparr> else e)"

definition fits :: "nat \<Rightarrow> u32 \<Rightarrow> bdfs \<Rightarrow> bool" where
  "fits i n fs = (let e = file_table fs ! i; need = (unat n + 511) div 512 in
     if flength e = 0 then unat (free_sector fs) + need \<le> 64 else need \<le> secs e)"

lemma store_target:
  assumes "fs_inv fs" "lookup nm (current_dir_inode fs) fs = Some i" "ftype (file_table fs ! i) = 0"
    and "unat n \<le> length buffer" "fits i n fs"
  shows "store_data i (target i fs) buffer n fs = Some (uint n, written i (target i fs) buffer n fs)"
    "fs_inv (written i (target i fs) buffer n fs)"
proof -
  note f = fs_invD [OF assms(1)] and i = lookup_Some [OF f(1) assms(2)]
  let ?e = "file_table fs ! i"
  have isf: "is_file ?e" using i(2) assms(3) by (simp add: is_file_def matches_def)
  have tgt: "name (target i fs) = name ?e" "parent_inode (target i fs) = parent_inode ?e"
    "ftype (target i fs) = ftype ?e"
    by (simp_all add: target_def Let_def)
  have 1: "entry_wf (target i fs)" using table_invD(3) [OF f(1) i(1)] tgt by (simp add: entry_wf_def)
  have 2: "is_file (target i fs)" using isf tgt by (simp add: is_file_def live_def)
  have 3: "unat (start_sector (target i fs)) + (unat n + 511) div 512 \<le> 64"
    using assms(5) extents_okD(1) [OF f(1) i(1) isf] by (auto simp: target_def fits_def Let_def)
  have 4: "\<not> matches (name (target i fs)) (parent_inode (target i fs)) (file_table fs ! j)"
    if "j < 64" "j \<noteq> i" for j
  proof -
    have "names_unique (file_table fs)" using f(1) by (simp add: table_inv_def)
    then show ?thesis
      using i(1) isf that f(2) tgt by (auto simp: names_unique_def is_file_def)
  qed
  have 5: "extent ((target i fs)\<lparr>flength := n\<rparr>) \<inter> extent (file_table fs ! j) = {}"
    if "j < 64" "j \<noteq> i" "is_file (file_table fs ! j)" for j
  proof (cases "flength ?e = 0")
    case True
    then show ?thesis
      using free_sector(3) [OF f(1) that(1,3)] by (auto simp: target_def extent_def Let_def)
  next
    case False
    then have "extent ((target i fs)\<lparr>flength := n\<rparr>) \<subseteq> extent ?e"
      using assms(5) by (auto simp: target_def extent_def fits_def secs_def Let_def)
    then show ?thesis using extents_okD(2) [OF f(1) i(1) isf that] by blast
  qed
  show "store_data i (target i fs) buffer n fs = Some (uint n, written i (target i fs) buffer n fs)"
    "fs_inv (written i (target i fs) buffer n fs)"
    using store_data_eq [OF assms(1) i(1) assms(4) 1 2 3 4 5] by blast+
qed

lemma write_eq:
  assumes "fs_inv fs" "terminated nm" "unat n \<le> length buffer" "unat n + 511 < 2 ^ 32"
  shows "bdfs_write_file nm buffer n fs = Some (
     case lookup nm (current_dir_inode fs) fs of
        None \<Rightarrow> (-1, fs)
      | Some i \<Rightarrow>
          if ftype (file_table fs ! i) \<noteq> BDFS_FILE_TYPE_FILE then (-3, fs)
          else if fits i n fs then (uint n, written i (target i fs) buffer n fs)
          else (-2, fs))"
proof (cases "lookup nm (current_dir_inode fs) fs")
  case None
  then show ?thesis
    using assms fs_invD [OF assms(1)] by (simp add: bdfs_write_file_def find_entry_eq)
next
  case (Some i)
  note f = fs_invD [OF assms(1)] and i = lookup_Some [OF f(1) Some]
  let ?e = "file_table fs ! i"
  have found: "find_entry_in_dir nm (current_dir_inode fs) fs = Some (int i)"
    using f(1) assms(2) Some by (simp add: find_entry_eq)
  show ?thesis
  proof (cases "ftype ?e = 0")
    case False
    then show ?thesis using found Some i(1) f(2) by (simp add: bdfs_write_file_def)
  next
    case True
    then have isf: "is_file ?e" using i(2) by (simp add: is_file_def matches_def)
    have need: "unat ((n + 511) div 512) = (unat n + 511) div 512" by (rule unat_sectors [OF assms(4)])
    have alloc: "unat ((flength ?e + 511) div 512) = secs ?e"
      using flength_bound [of ?e] extents_okD(1) [OF f(1) i(1) isf] unat_sectors [of "flength ?e"]
      by (simp add: secs_def)
    have sum: "unat (free_sector fs + (n + 511) div 512) = unat (free_sector fs) + (unat n + 511) div 512"
      using free_sector(2) [OF f(1)] need assms(4) by (simp add: unat_word_ariths)
    have "fits i n fs \<longleftrightarrow> (if flength ?e = 0 then \<not> free_sector fs + (n + 511) div 512 > 64
        else \<not> (n + 511) div 512 > (flength ?e + 511) div 512)"
      using need alloc sum by (auto simp: fits_def Let_def word_less_nat_alt not_less)
    then show ?thesis
      using True found Some i(1) f store_target(1) [OF assms(1) Some True assms(3)] free_sector(1) [OF f(1)]
      by (auto simp: bdfs_write_file_def target_def Let_def)
  qed
qed

lemma read_eq:
  assumes "fs_inv fs" "terminated nm"
  shows "bdfs_read_file nm buffer fs = (
     case lookup nm (current_dir_inode fs) fs of
        None \<Rightarrow> Some (-1, None, buffer)
      | Some i \<Rightarrow>
          if ftype (file_table fs ! i) \<noteq> BDFS_FILE_TYPE_FILE then Some (-2, None, buffer)
          else if unat (flength (file_table fs ! i)) \<le> length buffer
          then Some (0, Some (flength (file_table fs ! i)), blit buffer 0 (stored fs i))
          else None)"
proof (cases "lookup nm (current_dir_inode fs) fs")
  case None
  then show ?thesis
    using assms fs_invD [OF assms(1)] by (simp add: bdfs_read_file_def find_entry_eq)
next
  case (Some i)
  note f = fs_invD [OF assms(1)] and i = lookup_Some [OF f(1) Some]
  let ?e = "file_table fs ! i"
  have found: "find_entry_in_dir nm (current_dir_inode fs) fs = Some (int i)"
    using f(1) assms(2) Some by (simp add: find_entry_eq)
  show ?thesis
  proof (cases "ftype ?e = 0")
    case False
    then show ?thesis using found Some i(1) f(2) by (simp add: bdfs_read_file_def)
  next
    case True
    then have "is_file ?e" using i(2) by (simp add: is_file_def matches_def)
    then have b: "unat (start_sector ?e) + secs ?e \<le> 64" using extents_okD(1) [OF f(1) i(1)] by simp
    then have o1: "unat (2048 + start_sector ?e * 512) = 2048 + 512 * unat (start_sector ?e)"
      by (intro unat_offset) simp
    have "data_offset ?e + unat (flength ?e) \<le> 34816"
      using b by (simp add: data_offset_def secs_def)
    then show ?thesis
      using True found Some i(1) f o1
      by (auto simp: bdfs_read_file_def memcpy_eq stored_def data_offset_def chunk_def word_gt_0)
  qed
qed

section \<open>Start-up\<close>

definition dir_entry :: "string \<Rightarrow> u32 \<Rightarrow> bdfs_file_entry" where
  "dir_entry s parent = \<lparr>name = bytes s @ replicate (16 - length s) 0, ftype = 1, parent_inode = parent, start_sector = 0, flength = 0\<rparr>"

definition default_table :: "bdfs_file_entry list" where
  "default_table = [dir_entry ''/'' 0, dir_entry ''soul'' 0, dir_entry ''cortex'' 0, dir_entry ''vault'' 0,
     dir_entry ''chrome'' 0, dir_entry ''drift'' 0, dir_entry ''ghost'' 0, dir_entry ''cypher'' 3]
     @ replicate 56 zero_entry"
lemma default_dirs_eq: "bdfs_default_dirs fs = Some (fs\<lparr>file_table := default_table\<rparr>)"
proof (cases fs)
  case (fields a b c)
  show ?thesis unfolding fields by code_simp
qed

lemma default_table_live:
  assumes "i < 64" "live (default_table ! i)"
  shows "i < 8"
proof (rule ccontr)
  assume "\<not> i < 8"
  then have "default_table ! i = zero_entry" using assms(1) by (simp add: default_table_def nth_append)
  then show False using assms(2) by (simp add: live_def zero_entry_def)
qed

lemma default_table_inv: "table_inv default_table"
proof -
  have len: "length default_table = 64" by (simp add: default_table_def)
  have "\<forall>e \<in> set default_table. entry_wf e" by code_simp
  moreover have "list_all (\<lambda>i. list_all (\<lambda>j. matches (name (default_table ! i)) (parent_inode (default_table ! i)) (default_table ! j)
      \<longrightarrow> i = j) [0..<8]) [0..<8]" by code_simp
  then have u: "i = j" if "i < 8" "j < 8"
      "matches (name (default_table ! i)) (parent_inode (default_table ! i)) (default_table ! j)" for i j
    using that by (auto simp: list_all_iff)
  have "names_unique default_table"
    using default_table_live u len by (auto simp: names_unique_def matches_def)
  moreover have "\<forall>e \<in> set default_table. \<not> is_file e" by code_simp
  then have "extents_ok default_table" using len by (auto simp: extents_ok_def)
  ultimately show ?thesis using len by (simp add: table_inv_def)
qed
lemma init_fresh:
  assumes "length (bdfs_storage fs) = 34816" "of_le32 (take 4 (bdfs_storage fs)) \<noteq> BDFS_MAGIC" "con_inv k"
  shows "\<exists>fs' k'. bdfs_init fs k = Some (fs', k') \<and> fs_inv fs' \<and> file_table fs' = default_table \<and>
     current_dir_inode fs' = 0 \<and> con_inv k'"
proof -
  let ?fs = "fs\<lparr>file_table := default_table\<rparr>"
  have "fmt_ok (bytes ''BDFS: No filesystem found, creating a new one in RAM.'' @ [10, 0]) []"
    by (simp add: bytes_def)
  then obtain k' where k': "kprintf (bytes ''BDFS: No filesystem found, creating a new one in RAM.'' @ [10, 0]) [] k = Some k'"
    "con_inv k'"
    using kprintf_inv [OF assms(3)] by blast
  have "bdfs_sync_file_table ?fs = Some (resync ?fs)"
    using sync_eq [of ?fs] default_table_inv assms(1) by (simp add: resync_def)
  moreover have "fs_inv ((resync ?fs)\<lparr>current_dir_inode := 0\<rparr>)"
    using sync_inv [of "?fs\<lparr>current_dir_inode := 0\<rparr>"] default_table_inv assms(1)
    by (simp add: resync_def fs_inv_def synced_def)
  ultimately show ?thesis
    using assms(2) k' default_dirs_eq [of fs] by (auto simp: bdfs_init_def resync_def)
qed

lemma init_reload:
  assumes "fs_inv fs"
  shows "bdfs_init (fs\<lparr>file_table := junk\<rparr>) k = Some (fs\<lparr>current_dir_inode := 0\<rparr>, k)"
proof -
  note f = fs_invD [OF assms]
  let ?h = "le32 BDFS_MAGIC @ enc_table (file_table fs)"
  have h: "bdfs_storage fs = ?h @ drop 2052 (bdfs_storage fs)"
    using f(5) by (metis append_take_drop_id synced_def)
  have "take 4 (bdfs_storage fs) = le32 BDFS_MAGIC"
    by (subst h) simp
  moreover have "drop 4 (bdfs_storage fs) = enc_table (file_table fs) @ drop 2052 (bdfs_storage fs)"
    by (subst h) simp
  moreover have "dec_table 64 (enc_table (file_table fs) @ drop 2052 (bdfs_storage fs)) = file_table fs"
    using dec_enc_table [of "file_table fs"] f(1,2) by (auto simp: table_inv_def entry_wf_def)
  ultimately show ?thesis by (simp add: bdfs_init_def)
qed

section \<open>Directories\<close>

lemma cstr_dots: "cstr (lit ''.'') = [46]" "cstr (lit ''..'') = [46, 46]"
  by (simp_all add: lit_def bytes_def)

lemma chdir_eq:
  assumes "fs_inv fs" "terminated nm"
  shows "bdfs_chdir nm fs = Some (
     if cstr nm = [46] then (0, fs)
     else if cstr nm = [46, 46] then
       (0, if current_dir_inode fs = 0 then fs
           else fs\<lparr>current_dir_inode := parent_inode (file_table fs ! unat (current_dir_inode fs))\<rparr>)
     else case lookup nm (current_dir_inode fs) fs of
        None \<Rightarrow> (-1, fs)
      | Some i \<Rightarrow> if ftype (file_table fs ! i) \<noteq> BDFS_FILE_TYPE_DIRECTORY then (-2, fs)
                   else (0, fs\<lparr>current_dir_inode := of_nat i\<rparr>))"
proof -
  note f = fs_invD [OF assms(1)]
  obtain r1 r2 where "strcmp nm (lit ''.'') = Some r1" "r1 = 0 \<longleftrightarrow> cstr nm = [46]"
    "strcmp nm (lit ''..'') = Some r2" "r2 = 0 \<longleftrightarrow> cstr nm = [46, 46]"
    using strcmp_cases [OF assms(2) lit_terminated [of "''.''"]]
      strcmp_cases [OF assms(2) lit_terminated [of "''..''"]] cstr_dots by metis
  then show ?thesis
    using f assms(2) lookup_Some(1) [OF f(1)]
    by (auto simp: bdfs_chdir_def find_entry_eq split: option.splits)
qed

lemma chdir_inv:
  assumes "fs_inv fs" "terminated nm" "bdfs_chdir nm fs = Some (r, fs')"
  shows "fs_inv fs'"
proof -
  note f = fs_invD [OF assms(1)]
  have cd: "fs_inv (fs\<lparr>current_dir_inode := d\<rparr>)" if "unat d < 64" for d
    using assms(1) that by (simp add: fs_inv_def synced_def)
  have "unat (parent_inode (file_table fs ! unat (current_dir_inode fs))) < 64"
    using table_invD(3) [OF f(1,4)] by (simp add: entry_wf_def)
  moreover have "unat (of_nat i :: u32) < 64" if "lookup nm (current_dir_inode fs) fs = Some i" for i
    using lookup_Some(1) [OF f(1) that] by (simp add: unat_of_nat)
  ultimately show ?thesis
    using assms cd by (auto simp: chdir_eq split: if_splits option.splits)
qed

section \<open>The file system as a transition system\<close>

text \<open>The system calls that the shell, the editor and the bytecode interpreter can issue.\<close>

datatype fs_op = Create buf | Mkdir buf | Delete buf | Rename buf buf | Chdir buf | Write buf buf u32

fun fs_call :: "fs_op \<Rightarrow> bdfs \<Rightarrow> (int \<times> bdfs) option" where
  "fs_call (Create nm) fs = bdfs_create_file nm fs"
| "fs_call (Mkdir nm) fs = bdfs_mkdir nm fs"
| "fs_call (Delete nm) fs = bdfs_delete_file nm fs"
| "fs_call (Rename old new) fs = bdfs_rename_file old new fs"
| "fs_call (Chdir nm) fs = bdfs_chdir nm fs"
| "fs_call (Write nm b n) fs = bdfs_write_file nm b n fs"

definition fs_apply :: "fs_op \<Rightarrow> bdfs \<Rightarrow> bdfs option" where
  "fs_apply op fs = map_option snd (fs_call op fs)"

text \<open>
  What the callers owe: arguments are C strings, the buffer holds the bytes to be written, and the
  byte count does not wrap when it is rounded up to sectors.
\<close>

fun op_ok :: "fs_op \<Rightarrow> bool" where
  "op_ok (Rename old new) = (terminated old \<and> terminated new)"
| "op_ok (Write nm b n) = (terminated nm \<and> unat n \<le> length b \<and> unat n + 511 < 2 ^ 32)"
| "op_ok (Create nm) = terminated nm"
| "op_ok (Mkdir nm) = terminated nm"
| "op_ok (Delete nm) = terminated nm"
| "op_ok (Chdir nm) = terminated nm"

lemma fs_call_inv:
  assumes "fs_inv fs" "op_ok op"
  shows "\<exists>r fs'. fs_call op fs = Some (r, fs') \<and> fs_inv fs'"
proof (cases op)
  case (Create nm)
  note f = fs_invD [OF assms(1)]
  show ?thesis
    using assms Create f free_slot_Some [OF f(1)] sync_put_entry(2) [OF assms(1)] fresh_entry_inv [OF f(1)]
    by (auto simp: create_file_eq split: option.splits)
next
  case (Mkdir nm)
  note f = fs_invD [OF assms(1)]
  show ?thesis
    using assms Mkdir f free_slot_Some [OF f(1)] sync_put_entry(2) [OF assms(1)] fresh_entry_inv [OF f(1)]
    by (auto simp: mkdir_eq split: option.splits)
next
  case (Delete nm)
  note f = fs_invD [OF assms(1)]
  show ?thesis
    using assms Delete f lookup_Some [OF f(1)] sync_put_entry(2) [OF assms(1)] deleted_inv [OF f(1)]
    by (auto simp: delete_eq split: option.splits)
next
  case (Rename old new)
  note f = fs_invD [OF assms(1)]
  show ?thesis
    using assms Rename sync_put_entry(2) [OF assms(1)] renamed_inv [OF f(1)]
    by (auto simp: rename_eq split: option.splits)
next
  case (Chdir nm)
  then show ?thesis
    using assms chdir_inv [OF assms(1), of nm] by (cases "bdfs_chdir nm fs") (auto simp: chdir_eq)
next
  case (Write nm b n)
  then show ?thesis
    using assms store_target(2) [OF assms(1)] by (auto simp: write_eq split: option.splits)
qed

interpretation fsops: safe_step fs_apply fs_inv op_ok
  by unfold_locales (use fs_call_inv in \<open>fastforce simp: fs_apply_def\<close>)

end
