(* ===== verification/Console_Props.thy ===== *)
theory Console_Props
  imports Console
begin

text \<open>
  The properties of the C library and of the text console: overlapping moves, the printing
  characters against a reference terminal, formatted output, bounded formatting, and the safety of
  every sequence of console calls.
\<close>

section \<open>The console as a transition system\<close>

datatype con_op = PutChar byte byte | Backspace | Clear byte | ScrollUp | ScrollDown
  | SetCursor int int | CharAt byte byte int int | Print buf byte | Println buf byte
  | Log buf buf | Kprintf buf "karg list"

fun con_apply :: "con_op \<Rightarrow> console \<Rightarrow> console option" where
  "con_apply (PutChar c color) k = print_char c color k"
| "con_apply Backspace k = print_backspace k"
| "con_apply (Clear color) k = clear_screen color k"
| "con_apply ScrollUp k = scroll_up k"
| "con_apply ScrollDown k = scroll_down k"
| "con_apply (SetCursor x y) k = Some (set_cursor x y k)"
| "con_apply (CharAt c color x y) k = print_char_at c color x y k"
| "con_apply (Print s color) k = print s color k"
| "con_apply (Println s color) k = println s color k"
| "con_apply (Log tag msg) k = klog tag msg k"
| "con_apply (Kprintf fmt args) k = kprintf fmt args k"

text \<open>What the callers owe: terminated strings, matching arguments, no negative coordinates.\<close>

fun con_ok :: "con_op \<Rightarrow> bool" where
  "con_ok (SetCursor x y) = (0 \<le> x \<and> 0 \<le> y)"
| "con_ok (CharAt c color x y) = (0 \<le> x \<and> 0 \<le> y)"
| "con_ok (Print s color) = terminated s"
| "con_ok (Println s color) = terminated s"
| "con_ok (Log tag msg) = (terminated tag \<and> terminated msg)"
| "con_ok (Kprintf fmt args) = fmt_ok fmt args"
| "con_ok _ = True"

lemma bind_inv:
  "\<exists>k'. m = Some k' \<and> P k' \<Longrightarrow> (\<And>k'. P k' \<Longrightarrow> \<exists>k''. f k' = Some k'' \<and> Q k'') \<Longrightarrow>
   \<exists>k''. Option.bind m f = Some k'' \<and> Q k''"
  by auto

lemma println_inv [inv_intros]:
  "con_inv k \<Longrightarrow> terminated s \<Longrightarrow> \<exists>k'. println s color k = Some k' \<and> con_inv k'"
  unfolding println_def by (intro bind_inv [OF print_inv]) (auto intro: print_char_inv)

lemma klog_inv [inv_intros]:
  "con_inv k \<Longrightarrow> terminated tag \<Longrightarrow> terminated msg \<Longrightarrow> \<exists>k'. klog tag msg k = Some k' \<and> con_inv k'"
  unfolding klog_def
  by (rule bind_inv [OF print_inv], simp, simp)+ (rule print_inv, simp_all)

lemma con_apply_inv: "con_inv k \<Longrightarrow> con_ok op \<Longrightarrow> \<exists>k'. con_apply op k = Some k' \<and> con_inv k'"
  by (cases op) (simp_all add: inv_intros)

interpretation conops: safe_step con_apply con_inv con_ok
  by unfold_locales (rule con_apply_inv)

definition boot_console :: console where
  "boot_console = \<lparr>cursor_row = 0, cursor_col = 0, scrollback_buffer = replicate 100 (blank_row 7),
     scrollback_row = 0, view_row = 0, vga_memory = replicate 4000 0, ports = []\<rparr>"

lemma boot_console_inv: "con_inv boot_console"
  by (simp add: boot_console_def con_inv_def rows_ok_def)

section \<open>Properties\<close>

text \<open>
  (C8) Every sequence of console calls with terminated strings, matching format arguments and
  non-negative coordinates runs to its end and keeps the console's invariant: the cursor, the scroll
  position and the view stay inside of the 100-row buffer, and no write leaves a buffer.
\<close>

theorem console_runs_safely:
  "con_inv k \<Longrightarrow> list_all con_ok ops \<Longrightarrow> \<exists>k'. foldM con_apply ops k = Some k' \<and> con_inv k'"
  by (rule conops.run_safe)

theorem console_runs_safely_witness:
  "\<exists>k'. foldM con_apply [Clear 7, Println (lit ''ok'') 10, Backspace, ScrollDown, Kprintf [37, 100, 0] [KInt 7]]
      boot_console = Some k' \<and> con_inv k'"
  by (rule console_runs_safely [OF boot_console_inv]) simp

text \<open>
  (C7) \<^verbatim>\<open>print_char\<close> implements a reference terminal: the character goes to the cursor's cell,
  the cursor advances or wraps, a full buffer scrolls by exactly one row whose replacement is blank,
  and the screen shows the 25 rows that end with the last one in use.
\<close>

theorem print_char_reference:
  "con_inv k \<Longrightarrow> print_char c color k = Some (show_window (advance c color k))"
  by (rule print_char_eq)

theorem print_char_reference_witness:
  "print_char 65 7 (boot_console\<lparr>cursor_row := 99, cursor_col := 79, scrollback_row := 99\<rparr>) =
     Some (show_window (advance 65 7 (boot_console\<lparr>cursor_row := 99, cursor_col := 79, scrollback_row := 99\<rparr>)))"
  by (rule print_char_reference) (use boot_console_inv in \<open>simp add: con_inv_def\<close>)

text \<open>
  (C30) \<^verbatim>\<open>kprintf\<close> prints exactly the characters of the formatted text, in order: decimal numbers
  without leading zeros, hexadecimal numbers with eight digits, strings up to their terminator, and
  unknown conversions literally.  The numbers of \<^verbatim>\<open>%d\<close> may be all but the smallest \<^verbatim>\<open>int\<close>, whose
  digits come out wrong (\<open>print_int_text\<close>).
\<close>

theorem kprintf_prints_format:
  assumes "fmt_ok fmt args" "0x80000000 \<notin> set (decimals fmt args)"
  shows "kprintf fmt args k = foldM (\<lambda>c. print_char c 0x07) (kformat int_text fmt args) k"
proof -
  have "kformat printed_int fmt args = kformat int_text fmt args"
    using assms by (intro kformat_cong) (auto simp: printed_int_def)
  then show ?thesis using assms(1) by (simp add: kprintf_eq)
qed

theorem kprintf_prints_format_witness:
  "kprintf (lit ''%d,%u:%x%s%%'') [KInt (-42), KInt 42, KInt 0x80000000, KStr (lit ''ab'')] boot_console =
     foldM (\<lambda>c. print_char c 0x07) (bytes ''-42,42:0x80000000ab%'') boot_console"
proof -
  let ?args = "[KInt (-42), KInt 42, KInt 0x80000000, KStr (lit ''ab'')]"
  have "0x80000000 \<notin> set (decimals (lit ''%d,%u:%x%s%%'') ?args)" by (simp add: lit_def bytes_def)
  moreover have "fmt_ok (lit ''%d,%u:%x%s%%'') ?args" by code_simp
  moreover have "kformat int_text (lit ''%d,%u:%x%s%%'') ?args = bytes ''-42,42:0x80000000ab%''" by code_simp
  ultimately show ?thesis using kprintf_prints_format by metis
qed

text \<open>
  (C31) \<^verbatim>\<open>snprintf\<close> is bounded: with a positive size that the buffer has, it stores the formatted text
  cut to one less than the size, then a terminator, changes nothing behind the size and returns the
  number of characters stored.  The bounds hold for all arguments; the text stored for \<^verbatim>\<open>%d\<close> is the
  decimal notation except for the smallest \<^verbatim>\<open>int\<close>, for which it is \<^verbatim>\<open>-(\<close>.
\<close>

theorem snprintf_bounded:
  assumes "sfmt_ok fmt args" "0 < unat sz" "unat sz \<le> length str"
  shows "\<exists>t out. t = take (unat sz - 1) (sformat stored_int fmt args) \<and>
     (0x80000000 \<notin> set (sdecimals fmt args) \<longrightarrow> t = take (unat sz - 1) (sformat int_text fmt args)) \<and>
     snprintf str sz fmt args = Some (length t, out) \<and> length out = length str \<and>
     take (length t) out = t \<and> out ! length t = 0 \<and>
     (\<forall>i. unat sz \<le> i \<longrightarrow> i < length str \<longrightarrow> out ! i = str ! i)"
proof -
  define t where "t = take (unat sz - 1) (sformat stored_int fmt args)"
  have d: "t = take (unat sz - 1) (sformat int_text fmt args)" if "0x80000000 \<notin> set (sdecimals fmt args)"
    using sformat_cong [OF assms(1), of stored_int int_text] that by (auto simp: t_def stored_int_def)
  have l: "length (t @ [0]) \<le> unat sz" using assms(2) by (simp add: t_def)
  have "length (blit str 0 (t @ [0])) = length str" using l assms(3) by (intro length_blit) simp
  moreover have "take (length t) (blit str 0 (t @ [0])) = t" by (simp add: blit_def)
  moreover have "blit str 0 (t @ [0]) ! length t = 0" by (simp add: blit_def nth_append)
  moreover have "blit str 0 (t @ [0]) ! i = str ! i" if "unat sz \<le> i" "i < length str" for i
    using nth_blit [of 0 "t @ [0]" str i] l that assms(3) by auto
  moreover have "snprintf str sz fmt args = Some (length t, blit str 0 (t @ [0]))"
    using snprintf_eq [OF assms] by (simp add: Let_def t_def)
  ultimately show ?thesis using d unfolding t_def [symmetric] by auto
qed

theorem snprintf_bounded_witness:
  "\<exists>out. snprintf (replicate 8 9) 4 (lit ''n=%d'') [KInt 123] = Some (3, out) \<and> take 4 out = bytes ''n=1'' @ [0]"
proof -
  let ?args = "[KInt 123]"
  have f: "sfmt_ok (lit ''n=%d'') ?args" "0x80000000 \<notin> set (sdecimals (lit ''n=%d'') ?args)"
    by (simp_all add: lit_def bytes_def)
  have t: "take 3 (sformat int_text (lit ''n=%d'') ?args) = bytes ''n=1''"
    by (simp add: lit_def bytes_def int_text_def dec.simps)
  have a: "0 < unat (4 :: u32)" "unat (4 :: u32) \<le> length (replicate 8 (9 :: byte))" "unat (4 :: u32) - 1 = 3" by simp_all
  obtain u out where o: "0x80000000 \<notin> set (sdecimals (lit ''n=%d'') ?args) \<longrightarrow> u = bytes ''n=1''"
    "snprintf (replicate 8 9) 4 (lit ''n=%d'') ?args = Some (length u, out)" "length out = 8"
    "take (length u) out = u" "out ! length u = 0"
    using snprintf_bounded [OF f(1) a(1,2)] unfolding a(3) t length_replicate
    by (elim exE conjE) (rule that; assumption)
  have "u = bytes ''n=1''" using o(1) f(2) by blast
  then have o: "snprintf (replicate 8 9) 4 (lit ''n=%d'') ?args = Some (3, out)" "length out = 8"
    "take 3 out = bytes ''n=1''" "out ! 3 = 0" using o(2-5) by (simp_all add: numeral_3_eq_3)
  then have "take (Suc 3) out = bytes ''n=1'' @ [0]" by (subst take_Suc_conv_app_nth) auto
  then show ?thesis using o by auto
qed

text \<open>
  (C32) \<^verbatim>\<open>memmove\<close> copies correctly between overlapping regions of one object: the destination
  receives the bytes the source had before the call, and the rest is unchanged.
\<close>

theorem memmove_overlap:
  assumes "d + n \<le> length b" "s + n \<le> length b"
  shows "\<exists>b'. memmove b d s n = Some b' \<and> length b' = length b \<and>
     (\<forall>i < length b. b' ! i = (if d \<le> i \<and> i < d + n then b ! (s + (i - d)) else b ! i))"
  using assms by (auto simp: memmove_eq nth_blit nth_chunk)

theorem memmove_overlap_witness:
  "\<exists>b'. memmove [1, 2, 3, 4, 5] 1 0 4 = Some b' \<and> length b' = 5 \<and> b' ! 4 = 4 \<and> b' ! 1 = 1"
  using memmove_overlap [of 1 4 "[1, 2, 3, 4, 5]" 0] by force

text \<open>
  \<^verbatim>\<open>print_int\<close> prints the decimal notation of every number except the smallest one: negating it
  overflows, its remainders are negative and the characters printed are not digits.
\<close>

theorem print_int_text:
  "print_int n color k = foldM (\<lambda>c. print_char c color)
     (if n = 0x80000000 then bytes ''-./,),(-*,(''
      else (if sint n < 0 then [45] else []) @ dec (nat \<bar>sint n\<bar>)) k"
  by (simp add: print_int_eq printed_int_def int_text_def)

end
