(* ===== verification/Bdfs_Props.thy ===== *)
theory Bdfs_Props
  imports Bdfs_Inv Console_Props
begin

text \<open>
  What the file system promises to its users: the contract of the current directory as a finite
  map (a locale, interpreted on the C functions), the round trip of writing and reading, the
  isolation of files from each other, and the places where the code falls short of them.
\<close>

section \<open>The current directory as a map\<close>

locale directory =
  fixes inv :: "'s \<Rightarrow> bool" and view :: "'s \<Rightarrow> 'n \<Rightarrow> 'v option"
    and add :: "'n \<Rightarrow> 's \<Rightarrow> 's option" and del :: "'n \<Rightarrow> 's \<Rightarrow> 's option"
    and ren :: "'n \<Rightarrow> 'n \<Rightarrow> 's \<Rightarrow> 's option"
    and ok :: "'n \<Rightarrow> bool" and new :: 'v
  assumes add: "inv s \<Longrightarrow> ok n \<Longrightarrow> add n s = Some s' \<Longrightarrow>
      inv s' \<and> view s n = None \<and> view s' = (view s)(n \<mapsto> new)"
    and del_defined: "inv s \<Longrightarrow> ok n \<Longrightarrow> (\<exists>s'. del n s = Some s') \<longleftrightarrow> view s n \<noteq> None"
    and del: "inv s \<Longrightarrow> ok n \<Longrightarrow> del n s = Some s' \<Longrightarrow> inv s' \<and> view s' = (view s)(n := None)"
    and ren_defined: "inv s \<Longrightarrow> ok a \<Longrightarrow> ok b \<Longrightarrow>
      (\<exists>s'. ren a b s = Some s') \<longleftrightarrow> view s a \<noteq> None \<and> view s b = None"
    and ren: "inv s \<Longrightarrow> ok a \<Longrightarrow> ok b \<Longrightarrow> ren a b s = Some s' \<Longrightarrow>
      inv s' \<and> view s' = (view s)(a := None, b := view s a)"
begin

lemma add_del_restores:
  assumes "inv s" "ok n" "add n s = Some s1"
  shows "\<exists>s2. del n s1 = Some s2 \<and> inv s2 \<and> view s2 = view s"
proof -
  note a = add [OF assms]
  then obtain s2 where s2: "del n s1 = Some s2"
    using del_defined [of s1 n] assms(2) by auto
  have "(view s1)(n := None) = view s" using a by auto
  then show ?thesis using del [OF _ assms(2) s2] a s2 by auto
qed

lemma ren_back_restores:
  assumes "inv s" "ok a" "ok b" "ren a b s = Some s1"
  shows "\<exists>s2. ren b a s1 = Some s2 \<and> inv s2 \<and> view s2 = view s"
proof -
  note r = ren [OF assms]
  have d: "view s a \<noteq> None" "view s b = None" using ren_defined assms by blast+
  then have "view s1 b \<noteq> None" "view s1 a = None" using r by auto
  then obtain s2 where s2: "ren b a s1 = Some s2" using ren_defined [of s1 b a] r assms by auto
  have "(view s1)(b := None, a := view s1 b) = view s" using r d by auto
  then show ?thesis using ren [OF _ assms(3,2) s2] r s2 by auto
qed

end

definition ok_result :: "(int \<times> bdfs) option \<Rightarrow> bdfs option" where
  "ok_result m = (case m of Some (r, fs) \<Rightarrow> if r = 0 then Some fs else None | None \<Rightarrow> None)"

definition ok_name :: "buf \<Rightarrow> bool" where
  "ok_name n \<longleftrightarrow> n \<noteq> [] \<and> 0 \<notin> set n \<and> length n < 16"

text \<open>Type, start sector and length of the entry that a name denotes in the current directory.\<close>

definition dir_view :: "bdfs \<Rightarrow> buf \<Rightarrow> (u32 \<times> u32 \<times> u32) option" where
  "dir_view fs n = map_option
     (\<lambda>i. (ftype (file_table fs ! i), start_sector (file_table fs ! i), flength (file_table fs ! i)))
     (lookup (n @ [0]) (current_dir_inode fs) fs)"

lemma ok_name_cstr: "ok_name n \<Longrightarrow> cstr (n @ [0]) = n" "ok_name n \<Longrightarrow> terminated (n @ [0])"
  by (auto simp: ok_name_def cstr_append_zero)

lemma resync_fields [simp]:
  "file_table (resync fs) = file_table fs" "current_dir_inode (resync fs) = current_dir_inode fs"
  "lookup nm p (resync fs) = lookup nm p fs"
  by (simp_all add: resync_def lookup_def)

lemma put_entry_fields [simp]:
  "file_table (put_entry i e fs) = (file_table fs)[i := e]"
  "current_dir_inode (put_entry i e fs) = current_dir_inode fs"
  by (simp_all add: put_entry_def)

lemma option_eqI: "(\<And>k. x = Some k \<longleftrightarrow> y = Some k) \<Longrightarrow> x = y"
  by (cases x; cases y) auto

lemma lookup_put_entry:
  assumes "table_inv (file_table fs)" "table_inv (file_table (put_entry i e fs))" "i < 64"
  shows "lookup nm p (put_entry i e fs) =
     (if matches nm p e then Some i else if lookup nm p fs = Some i then None else lookup nm p fs)"
proof -
  have new: "lookup nm p (put_entry i e fs) = Some k \<longleftrightarrow>
      k < 64 \<and> matches nm p (if k = i then e else file_table fs ! k)" for k
    using lookup_unique [OF assms(2), of nm p k] assms(3) table_invD(1) [OF assms(1)]
    by (simp add: nth_list_update)
  show ?thesis
  proof (cases "matches nm p e")
    case True
    then show ?thesis using new [of i] assms(3) by simp
  next
    case False
    have "lookup nm p (put_entry i e fs) = Some k \<longleftrightarrow> k \<noteq> i \<and> lookup nm p fs = Some k" for k
      using new [of k] lookup_unique [OF assms(1), of nm p k] False by simp
    then show ?thesis using False by (intro option_eqI) auto
  qed
qed

lemma ok_result_Some: "ok_result m = Some fs \<longleftrightarrow> m = Some (0, fs)"
  by (auto simp: ok_result_def split: option.splits if_splits)

lemma matches_cstr: "cstr a = cstr b \<Longrightarrow> matches a p e = matches b p e"
  by (simp add: matches_def)

lemma dir_view_put_entry:
  assumes "fs_inv fs" "table_inv (file_table (put_entry i e fs))" "i < 64" "ok_name n"
  shows "dir_view (resync (put_entry i e fs)) n =
     (if matches (n @ [0]) (current_dir_inode fs) e then Some (ftype e, start_sector e, flength e)
      else if lookup (n @ [0]) (current_dir_inode fs) fs = Some i then None else dir_view fs n)"
proof -
  note f = fs_invD [OF assms(1)]
  have "k \<noteq> i \<Longrightarrow> (file_table fs)[i := e] ! k = file_table fs ! k" for k by simp
  then show ?thesis
    using lookup_put_entry [OF f(1) assms(2,3), of "n @ [0]" "current_dir_inode fs"] f(2) assms(3)
    by (cases "lookup (n @ [0]) (current_dir_inode fs) fs") (auto simp: dir_view_def)
qed

text \<open>Only names that C can store are looked at; on the others the view is defined to be empty.\<close>

definition cwd_view :: "bdfs \<Rightarrow> buf \<Rightarrow> (u32 \<times> u32 \<times> u32) option" where
  "cwd_view fs n = (if ok_name n then dir_view fs n else None)"

lemma create_view:
  assumes "fs_inv fs" "ok_name n" "ok_result (bdfs_create_file (n @ [0]) fs) = Some fs'"
  shows "fs_inv fs' \<and> cwd_view fs n = None \<and> cwd_view fs' = (cwd_view fs)(n \<mapsto> (0, 0, 0))"
proof -
  note f = fs_invD [OF assms(1)] and c = ok_name_cstr [OF assms(2)]
  obtain i where i: "free_slot fs = Some i" and look: "lookup (n @ [0]) (current_dir_inode fs) fs = None"
    and fs': "fs' = resync (put_entry i (fresh_entry (n @ [0]) 0 (current_dir_inode fs) (file_table fs ! i)) fs)"
    using assms c by (auto simp: ok_result_Some create_file_eq split: if_splits option.splits)
  let ?e = "fresh_entry (n @ [0]) 0 (current_dir_inode fs) (file_table fs ! i)"
  note s = free_slot_Some [OF f(1) i]
  have t: "table_inv (file_table (put_entry i ?e fs))"
    using fresh_entry_inv [OF f(1) s(1) _ f(4) look] assms(2) c by (simp add: ok_name_def)
  have m: "matches (x @ [0]) (current_dir_inode fs) ?e \<longleftrightarrow> x = n" if "ok_name x" for x
  proof -
    have "live ?e" using assms(2) c by (cases n) (auto simp: live_def fresh_entry_def named_def ok_name_def)
    then show ?thesis
      using c ok_name_cstr [OF that] by (auto simp: matches_def fresh_entry_def)
  qed
  have l: "lookup (x @ [0]) (current_dir_inode fs) fs \<noteq> Some i" for x
    using lookup_Some(2) [OF f(1)] s(2) by (auto simp: matches_def)
  have e: "ftype ?e = 0" "start_sector ?e = 0" "flength ?e = 0" by (simp_all add: fresh_entry_def)
  have "cwd_view fs' x = ((cwd_view fs)(n \<mapsto> (0, 0, 0))) x" for x
  proof (cases "ok_name x")
    case True
    then show ?thesis
      using dir_view_put_entry [OF assms(1) t s(1) True] m [OF True] l [of x] e
      by (simp add: cwd_view_def fs')
  next
    case False
    then show ?thesis using assms(2) by (auto simp: cwd_view_def)
  qed
  moreover have "cwd_view fs n = None" using look by (simp add: cwd_view_def dir_view_def)
  ultimately show ?thesis using sync_put_entry(2) [OF assms(1) t] fs' by auto
qed

lemma delete_view:
  assumes "fs_inv fs" "ok_name n" "ok_result (bdfs_delete_file (n @ [0]) fs) = Some fs'"
  shows "fs_inv fs' \<and> cwd_view fs' = (cwd_view fs)(n := None)"
proof -
  note f = fs_invD [OF assms(1)] and c = ok_name_cstr [OF assms(2)]
  obtain i where look: "lookup (n @ [0]) (current_dir_inode fs) fs = Some i"
    and fs': "fs' = resync (put_entry i (deleted (file_table fs ! i)) fs)"
    using assms c by (auto simp: ok_result_Some delete_eq split: option.splits)
  note i = lookup_Some [OF f(1) look] and t = deleted_inv [OF f(1) lookup_Some(1) [OF f(1) look]]
  have m: "\<not> matches (x @ [0]) (current_dir_inode fs) (deleted (file_table fs ! i))" for x
    using table_invD(4) [OF f(1) i(1)] by (simp add: matches_def live_def deleted_def)
  have l: "lookup (x @ [0]) (current_dir_inode fs) fs = Some i \<longleftrightarrow> x = n" if "ok_name x" for x
    using lookup_unique [OF f(1)] i c ok_name_cstr [OF that] by (auto simp: matches_def)
  have "cwd_view fs' x = ((cwd_view fs)(n := None)) x" for x
  proof (cases "ok_name x")
    case True
    then show ?thesis
      using dir_view_put_entry [OF assms(1) t i(1) True] m [of x] l [OF True] by (simp add: cwd_view_def fs')
  next
    case False
    then show ?thesis using assms(2) by (auto simp: cwd_view_def)
  qed
  then show ?thesis using sync_put_entry(2) [OF assms(1) t] fs' by auto
qed

lemma rename_view:
  assumes "fs_inv fs" "ok_name a" "ok_name b" "ok_result (bdfs_rename_file (a @ [0]) (b @ [0]) fs) = Some fs'"
  shows "fs_inv fs' \<and> cwd_view fs' = (cwd_view fs)(a := None, b := cwd_view fs a)"
proof -
  note f = fs_invD [OF assms(1)] and c = ok_name_cstr [OF assms(2)] ok_name_cstr [OF assms(3)]
  obtain i where look: "lookup (a @ [0]) (current_dir_inode fs) fs = Some i"
    and free: "lookup (b @ [0]) (current_dir_inode fs) fs = None"
    and fs': "fs' = resync (put_entry i (named (b @ [0]) (file_table fs ! i)) fs)"
    using assms c by (auto simp: ok_result_Some rename_eq split: option.splits if_splits)
  let ?e = "named (b @ [0]) (file_table fs ! i)"
  note i = lookup_Some [OF f(1) look]
  have t: "table_inv (file_table (put_entry i ?e fs))"
    using renamed_inv [OF f(1) look _ free] assms(3) c by (simp add: ok_name_def)
  have m: "matches (x @ [0]) (current_dir_inode fs) ?e \<longleftrightarrow> x = b" if "ok_name x" for x
  proof -
    have "live ?e" using assms(3) c by (cases b) (auto simp: live_def named_def ok_name_def)
    then show ?thesis
      using i(2) c ok_name_cstr [OF that] by (auto simp: matches_def) (simp add: named_def)
  qed
  have l: "lookup (x @ [0]) (current_dir_inode fs) fs = Some i \<longleftrightarrow> x = a" if "ok_name x" for x
    using lookup_unique [OF f(1)] i c ok_name_cstr [OF that] by (auto simp: matches_def)
  have ne: "a \<noteq> b" using look free by auto
  have e: "ftype ?e = ftype (file_table fs ! i)" "start_sector ?e = start_sector (file_table fs ! i)"
    "flength ?e = flength (file_table fs ! i)" by (simp_all add: named_def)
  have va: "dir_view fs a = Some (ftype ?e, start_sector ?e, flength ?e)"
    using look e by (simp add: dir_view_def)
  have "cwd_view fs' x = ((cwd_view fs)(a := None, b := cwd_view fs a)) x" for x
  proof (cases "ok_name x")
    case True
    then show ?thesis
      using dir_view_put_entry [OF assms(1) t i(1) True] m [OF True] l [OF True] ne va assms(2)
      by (simp add: cwd_view_def fs')
  next
    case False
    then show ?thesis using assms(2,3) by (auto simp: cwd_view_def)
  qed
  then show ?thesis using sync_put_entry(2) [OF assms(1) t] fs' by auto
qed

interpretation cwd: directory fs_inv cwd_view
  "\<lambda>n fs. ok_result (bdfs_create_file (n @ [0]) fs)"
  "\<lambda>n fs. ok_result (bdfs_delete_file (n @ [0]) fs)"
  "\<lambda>a b fs. ok_result (bdfs_rename_file (a @ [0]) (b @ [0]) fs)"
  ok_name "(0, 0, 0)"
proof (unfold_locales, goal_cases)
  case (1 s n s')
  then show ?case by (rule create_view)
next
  case (2 s n)
  then show ?case
    using ok_name_cstr [OF 2(2)]
    by (auto simp: ok_result_Some delete_eq cwd_view_def dir_view_def split: option.splits)
next
  case (3 s n s')
  then show ?case by (rule delete_view)
next
  case (4 s a b)
  then show ?case
    using ok_name_cstr [OF 4(2)] ok_name_cstr [OF 4(3)]
    by (auto simp: ok_result_Some rename_eq cwd_view_def dir_view_def ok_name_def split: option.splits if_splits)
next
  case (5 s a b s')
  then show ?case by (rule rename_view)
qed


section \<open>File contents and the saved table\<close>

text \<open>
  The saved table is four bytes longer than the sectors reserved for it; its last four bytes, the
  length of entry 63, lie in data sector 0.
\<close>

lemma header_tail:
  assumes "table_inv t"
  shows "chunk 2048 4 (header t) = le32 (flength (t ! 63))"
proof -
  note w = table_invD [OF assms]
  obtain u e where t: "t = u @ [e]" and u: "length u = 63"
    using w(1) by (cases t rule: rev_cases) auto
  have names: "\<forall>x \<in> set t. length (name x) = 16" using assms by (auto simp: table_inv_def entry_wf_def)
  then have "length (enc_table u) = 2016" using length_enc_table [of u] t u by simp
  moreover have "enc_table t = enc_table u @ enc_entry e" by (simp add: enc_table_def t)
  ultimately show ?thesis
    using names t u by (simp add: header_def chunk_def enc_entry_def nth_append)
qed

text \<open>What saving the table leaves of the data bytes.\<close>

definition clobber :: "bdfs_file_entry list \<Rightarrow> bdfs_file_entry \<Rightarrow> buf \<Rightarrow> buf" where
  "clobber t e xs = (if start_sector e = 0
     then blit xs 0 (take (length xs) (le32 (flength (t ! 63)))) else xs)"

lemma chunk_header:
  assumes "table_inv t" "length S = 34816" "data_offset e + n \<le> 34816"
  shows "chunk (data_offset e) n (blit S 0 (header t)) = clobber t e (chunk (data_offset e) n S)"
proof (cases "start_sector e = 0")
  case False
  then have "1 \<le> unat (start_sector e)" using unat_gt_0 [of "start_sector e"] by linarith
  then have "2052 \<le> data_offset e" by (simp add: data_offset_def)
  then show ?thesis using assms False length_header [OF assms(1)]
    by (simp add: clobber_def chunk_blit_disjoint)
next
  case True
  note h = length_header [OF assms(1)]
  have "header t ! (2048 + k) = le32 (flength (t ! 63)) ! k" if "k < 4" for k
    using header_tail [OF assms(1)] nth_chunk [of k 4 2048 "header t"] that h by simp
  then show ?thesis using True assms h
    by (auto simp: clobber_def data_offset_def nth_chunk nth_blit intro!: nth_equalityI)
qed

lemma written_fields:
  "file_table (written i e b n fs) = (file_table fs)[i := e\<lparr>flength := n\<rparr>]"
  "current_dir_inode (written i e b n fs) = current_dir_inode fs"
  "bdfs_storage (written i e b n fs) =
     blit (blit (bdfs_storage fs) (data_offset e) (take (unat n) b)) 0 (header ((file_table fs)[i := e\<lparr>flength := n\<rparr>]))"
  by (simp_all add: written_def) (simp add: resync_def put_entry_def)

lemma extent_bytes:
  assumes "unat (start_sector e) + secs e \<le> 64"
  shows "data_offset e + unat (flength e) \<le> 34816"
  using assms by (simp add: data_offset_def secs_def)

lemma extents_apart:
  assumes "extent a \<inter> extent b = {}" "flength a \<noteq> 0" "flength b \<noteq> 0"
  shows "data_offset a + unat (flength a) \<le> data_offset b \<or> data_offset b + unat (flength b) \<le> data_offset a"
proof -
  have "0 < unat (flength a)" "0 < unat (flength b)" using assms(2,3) by (simp_all add: unat_gt_0)
  then have "0 < secs a" "0 < secs b" by (auto simp: secs_def div_greater_zero_iff)
  then have "\<not> (unat (start_sector a) \<in> extent b \<or> unat (start_sector b) \<in> extent a)"
    using assms(1) by (auto simp: extent_def)
  then show ?thesis using \<open>0 < secs a\<close> \<open>0 < secs b\<close> by (auto simp: extent_def data_offset_def secs_def)
qed

lemma lookup_written:
  assumes "fs_inv fs" "fs_inv (written i (target i fs) b n fs)" "i < 64"
  shows "lookup nm p (written i (target i fs) b n fs) = lookup nm p fs"
proof (rule option_eqI)
  fix k
  note f = fs_invD [OF assms(1)] and g = fs_invD [OF assms(2)]
  have "matches nm p ((target i fs)\<lparr>flength := n\<rparr>) = matches nm p (file_table fs ! i)"
    by (simp add: target_def matches_def live_def Let_def)
  then show "lookup nm p (written i (target i fs) b n fs) = Some k \<longleftrightarrow> lookup nm p fs = Some k"
    using lookup_unique [OF g(1), of nm p k] lookup_unique [OF f(1), of nm p k] f(2) assms(3)
    by (cases "k = i") (auto simp: written_fields)
qed

lemma stored_written_same:
  assumes "fs_inv fs" "fs_inv (written i e b n fs)" "i < 64" "unat n \<le> length b"
    and "is_file (e\<lparr>flength := n\<rparr>)"
  shows "stored (written i e b n fs) i = clobber ((file_table fs)[i := e\<lparr>flength := n\<rparr>]) e (take (unat n) b)"
proof -
  note f = fs_invD [OF assms(1)] and g = fs_invD [OF assms(2)]
  let ?t = "(file_table fs)[i := e\<lparr>flength := n\<rparr>]" and ?e = "e\<lparr>flength := n\<rparr>"
  have "unat (start_sector ?e) + secs ?e \<le> 64"
    using extents_okD(1) [OF g(1) assms(3)] assms(3,5) f(2) by (simp add: written_fields)
  then have r: "data_offset ?e + unat n \<le> 34816" using extent_bytes [of ?e] by simp
  have d: "data_offset ?e = data_offset e" by (simp add: data_offset_def)
  have "chunk (data_offset e) (unat n) (blit (bdfs_storage fs) (data_offset e) (take (unat n) b)) = take (unat n) b"
    using chunk_blit_same [of "data_offset e" "take (unat n) b" "bdfs_storage fs"] assms(4) r d f(3) by simp
  then show ?thesis
    using chunk_header [of ?t "blit (bdfs_storage fs) (data_offset e) (take (unat n) b)" e "unat n"]
      g(1) r d f(2,3) assms(3,4)
    by (simp add: stored_def written_fields clobber_def)
qed

lemma stored_written_other:
  assumes "fs_inv fs" "fs_inv (written i e b n fs)" "i < 64" "j < 64" "j \<noteq> i" "unat n \<le> length b"
    and "is_file (e\<lparr>flength := n\<rparr>)" "is_file (file_table fs ! j)"
  shows "stored (written i e b n fs) j =
      clobber ((file_table fs)[i := e\<lparr>flength := n\<rparr>]) (file_table fs ! j) (stored fs j)"
proof -
  note f = fs_invD [OF assms(1)] and g = fs_invD [OF assms(2)]
  let ?t = "(file_table fs)[i := e\<lparr>flength := n\<rparr>]" and ?e = "e\<lparr>flength := n\<rparr>" and ?f = "file_table fs ! j"
  let ?S = "blit (bdfs_storage fs) (data_offset e) (take (unat n) b)"
  have "unat (start_sector ?e) + secs ?e \<le> 64"
    using extents_okD(1) [OF g(1) assms(3)] assms f(2) by (simp add: written_fields)
  then have re: "data_offset e + unat n \<le> 34816"
    using extent_bytes [of ?e] by (simp add: data_offset_def)
  have x: "extent ?e \<inter> extent ?f = {}"
    using extents_okD(2) [OF g(1) assms(3), of j] assms f(2) by (simp add: written_fields)
  have rf: "data_offset ?f + unat (flength ?f) \<le> 34816"
    using extents_okD(1) [OF f(1) assms(4,8)] extent_bytes by blast
  have "chunk (data_offset ?f) (unat (flength ?f)) ?S = chunk (data_offset ?f) (unat (flength ?f)) (bdfs_storage fs)"
  proof (cases "n = 0 \<or> flength ?f = 0")
    case True
    then show ?thesis by (auto simp: chunk_def)
  next
    case False
    then show ?thesis
      using extents_apart [OF x] re rf f(3) assms(6)
      by (intro chunk_blit_disjoint) (auto simp: data_offset_def)
  qed
  then show ?thesis
    using chunk_header [of ?t ?S ?f "unat (flength ?f)"] g(1) re rf f(2,3) assms
    by (simp add: stored_def written_fields)
qed


section \<open>Example states\<close>

text \<open>A freshly formatted disk, and one with an empty file \<^verbatim>\<open>a\<close> in the root directory.\<close>

definition boot_fs :: bdfs where
  "boot_fs = resync \<lparr>bdfs_storage = replicate 34816 0, file_table = default_table, current_dir_inode = 0\<rparr>"


lemma boot_fs_inv: "fs_inv boot_fs"
  unfolding boot_fs_def resync_def by (intro sync_inv) (simp_all add: default_table_inv)

lemma boot_fs_fields [simp]: "file_table boot_fs = default_table" "current_dir_inode boot_fs = 0"
  by (simp_all add: boot_fs_def)

definition file_a :: buf where "file_a = [97, 0]"

lemma file_a_terminated [simp]: "terminated file_a"
  by (simp add: file_a_def)

lemma boot_lookup: "lookup file_a 0 boot_fs = None" "free_slot boot_fs = Some 8"
  unfolding lookup_def free_slot_def boot_fs_fields file_a_def by code_simp+

definition fs_a :: bdfs where
  "fs_a = resync (put_entry 8 (fresh_entry file_a 0 0 zero_entry) boot_fs)"

lemma create_a: "bdfs_create_file file_a boot_fs = Some (0, fs_a)"
  using create_file_eq [OF boot_fs_inv file_a_terminated] boot_lookup
  by (simp add: fs_a_def file_a_def default_table_def)

lemma fs_a_inv: "fs_inv fs_a"
  using fs_call_inv [OF boot_fs_inv, of "Create file_a"] create_a by simp

lemma fs_a_lookup: "lookup file_a 0 fs_a = Some 8" "current_dir_inode fs_a = 0"
    "file_table fs_a ! 8 = fresh_entry file_a 0 0 zero_entry" "free_sector fs_a = 0"
proof -
  have t: "file_table fs_a = default_table[8 := fresh_entry file_a 0 0 zero_entry]"
    by (simp add: fs_a_def)
  then show "file_table fs_a ! 8 = fresh_entry file_a 0 0 zero_entry" by (simp add: default_table_def)
  show "current_dir_inode fs_a = 0" by (simp add: fs_a_def)
  show "lookup file_a 0 fs_a = Some 8" unfolding lookup_def t by code_simp
  show "free_sector fs_a = 0" unfolding free_sector_def find_free_sector_def t by code_simp
qed


text \<open>The same disk after one byte was written to \<^verbatim>\<open>a\<close> and a second file \<^verbatim>\<open>b\<close> was created.\<close>

definition file_b :: buf where "file_b = [98, 0]"

definition entry_a :: bdfs_file_entry where
  "entry_a = (fresh_entry file_a 0 0 zero_entry)\<lparr>flength := 1\<rparr>"

definition fs_b :: bdfs where
  "fs_b = resync (put_entry 9 (fresh_entry file_b 0 0 zero_entry) (written 8 (target 8 fs_a) [65] 1 fs_a))"

lemma file_b_terminated [simp]: "terminated file_b"
  by (simp add: file_b_def)

lemma write_a: "bdfs_write_file file_a [65] 1 fs_a = Some (1, written 8 (target 8 fs_a) [65] 1 fs_a)"
    "file_table (written 8 (target 8 fs_a) [65] 1 fs_a) = default_table[8 := entry_a]"
proof -
  have "fits 8 1 fs_a" "ftype (file_table fs_a ! 8) = 0" using fs_a_lookup
    by (simp_all add: fits_def fresh_entry_def)
  then show "bdfs_write_file file_a [65] 1 fs_a = Some (1, written 8 (target 8 fs_a) [65] 1 fs_a)"
    using write_eq [OF fs_a_inv file_a_terminated, of 1 "[65]"] fs_a_lookup by simp
  have "target 8 fs_a = fresh_entry file_a 0 0 zero_entry"
    using fs_a_lookup by (simp add: target_def fresh_entry_def)
  then show "file_table (written 8 (target 8 fs_a) [65] 1 fs_a) = default_table[8 := entry_a]"
    by (simp add: written_fields entry_a_def) (simp add: fs_a_def)
qed

lemma fs_b_table: "file_table fs_b = default_table[8 := entry_a, 9 := fresh_entry file_b 0 0 zero_entry]"
    "current_dir_inode fs_b = 0"
  by (simp_all add: fs_b_def write_a written_fields(2) fs_a_lookup)

lemma fs_b_inv: "fs_inv fs_b"
proof -
  let ?w = "written 8 (target 8 fs_a) [65] 1 fs_a"
  have w: "fs_inv ?w" using fs_call_inv [OF fs_a_inv, of "Write file_a [65] 1"] write_a by simp
  have "lookup file_b 0 ?w = None" "free_slot ?w = Some 9"
    unfolding lookup_def free_slot_def write_a by code_simp+
  then have "bdfs_create_file file_b ?w = Some (0, fs_b)"
    using create_file_eq [OF w file_b_terminated]
    by (simp add: fs_b_def file_b_def written_fields fs_a_lookup) (simp add: default_table_def fs_a_def)
  then show ?thesis using fs_call_inv [OF w, of "Create file_b"] by simp
qed

lemma fs_b_lookup: "lookup file_a 0 fs_b = Some 8" "lookup file_b 0 fs_b = Some 9"
    "file_table fs_b ! 9 = fresh_entry file_b 0 0 zero_entry" "free_sector fs_b = 1"
proof -
  show "file_table fs_b ! 9 = fresh_entry file_b 0 0 zero_entry" by (simp add: fs_b_table default_table_def)
  show "lookup file_a 0 fs_b = Some 8" "lookup file_b 0 fs_b = Some 9"
    unfolding lookup_def fs_b_table by code_simp+
  show "free_sector fs_b = 1" unfolding free_sector_def find_free_sector_def fs_b_table by code_simp
qed

section \<open>Properties\<close>

lemma clobber_same:
  assumes "fs_inv fs" "is_file (file_table fs ! j)" "j < 64"
    and "flength (t ! 63) = flength (file_table fs ! 63)"
  shows "clobber t (file_table fs ! j) (stored fs j) = stored fs j"
proof -
  note f = fs_invD [OF assms(1)]
  have "take (length (header (file_table fs))) (bdfs_storage fs) = header (file_table fs)"
    using f(5) length_header [OF f(1)] by (simp add: synced_def header_def)
  then have "blit (bdfs_storage fs) 0 (header (file_table fs)) = bdfs_storage fs"
    by (metis append_take_drop_id blit_def plus_nat.add_0 self_append_conv2 take0)
  moreover have "data_offset (file_table fs ! j) + unat (flength (file_table fs ! j)) \<le> 34816"
    using extents_okD(1) [OF f(1) assms(3,2)] extent_bytes by blast
  ultimately show ?thesis
    using chunk_header [OF f(1,3)] assms(4) by (metis clobber_def stored_def)
qed

lemma write_success:
  assumes "fs_inv fs" "terminated nm" "unat n \<le> length buffer" "unat n + 511 < 2 ^ 32"
    and "bdfs_write_file nm buffer n fs = Some (uint n, fs')"
  obtains i where "i < 64" "lookup nm (current_dir_inode fs) fs = Some i" "is_file (file_table fs ! i)"
    "fs' = written i (target i fs) buffer n fs" "fs_inv fs'" "is_file ((target i fs)\<lparr>flength := n\<rparr>)"
proof -
  note f = fs_invD [OF assms(1)]
  have err: "uint n \<noteq> -1" "uint n \<noteq> -2" "uint n \<noteq> -3" using uint_ge_0 [of n] by linarith+
  obtain i where i: "lookup nm (current_dir_inode fs) fs = Some i" "ftype (file_table fs ! i) = 0"
    "fits i n fs" "fs' = written i (target i fs) buffer n fs"
    using assms(5) write_eq [OF assms(1-4)] err err [symmetric] by (auto split: option.splits if_splits)
  note l = lookup_Some [OF f(1) i(1)]
  have "is_file (file_table fs ! i)" using l(2) i(2) by (simp add: is_file_def matches_def)
  moreover from this have "is_file ((target i fs)\<lparr>flength := n\<rparr>)"
    by (simp add: is_file_def target_def live_def Let_def)
  ultimately show ?thesis
    using that [OF l(1) i(1) _ i(4)] store_target(2) [OF assms(1) i(1,2) assms(3) i(3)] i(4) by simp
qed

lemma read_after_write:
  assumes "fs_inv fs" "terminated nm" "unat n \<le> length buffer" "unat n + 511 < 2 ^ 32"
    and "bdfs_write_file nm buffer n fs = Some (uint n, fs')"
    and "lookup nm (current_dir_inode fs) fs = Some i" "unat n \<le> length out"
  shows "bdfs_read_file nm out fs' =
     Some (0, Some n, blit out 0 (clobber (file_table fs') (file_table fs' ! i) (take (unat n) buffer)))"
proof -
  obtain j where j: "j < 64" "lookup nm (current_dir_inode fs) fs = Some j" "is_file (file_table fs ! j)"
    "fs' = written j (target j fs) buffer n fs" "fs_inv fs'" "is_file ((target j fs)\<lparr>flength := n\<rparr>)"
    using write_success [OF assms(1-5)] .
  note f = fs_invD [OF assms(1)]
  have e: "file_table fs' ! j = (target j fs)\<lparr>flength := n\<rparr>" using j f(2) by (simp add: written_fields)
  have "stored fs' j = clobber (file_table fs') (target j fs) (take (unat n) buffer)"
    using stored_written_same [OF assms(1) j(5) [unfolded j(4)] j(1) assms(3) j(6)] j(4)
    by (simp add: written_fields)
  then show ?thesis
    using read_eq [OF j(5) assms(2), of out] lookup_written [OF assms(1) j(5) [unfolded j(4)] j(1)]
      j e assms(6,7) by (simp add: written_fields is_file_def clobber_def)
qed


text \<open>
  (C3) From power-on, every sequence of file-system calls with terminated names and true buffer sizes
  runs without leaving any object, whatever the calls return, and keeps the invariant: the table is
  well formed, names are unique in their directory, extents are disjoint and inside of the disk, and
  the saved table is the table in use.
\<close>

theorem fs_runs_safely:
  assumes "length (bdfs_storage fs) = 34816" "of_le32 (take 4 (bdfs_storage fs)) \<noteq> BDFS_MAGIC"
    and "con_inv k" "list_all op_ok ops"
  shows "\<exists>fs1 k' fs2. bdfs_init fs k = Some (fs1, k') \<and> foldM fs_apply ops fs1 = Some fs2 \<and> fs_inv fs2"
proof -
  obtain fs1 k' where "bdfs_init fs k = Some (fs1, k')" "fs_inv fs1" using init_fresh [OF assms(1-3)] by blast
  then show ?thesis using fsops.run_safe [OF _ assms(4)] by blast
qed

theorem fs_runs_safely_witness:
  "\<exists>fs1 k' fs2. bdfs_init \<lparr>bdfs_storage = replicate 34816 0, file_table = [], current_dir_inode = 0\<rparr> boot_console
      = Some (fs1, k') \<and>
     foldM fs_apply [Create file_a, Write file_a [65] 1, Delete file_a, Chdir file_b] fs1 = Some fs2 \<and> fs_inv fs2"
  by (rule fs_runs_safely) (simp_all add: boot_console_inv of_le32_def)

text \<open>
  (C6) Saving and loading round trip: initialising again on the RAM disk of a running system loads
  exactly the table in use, leaves the data alone and prints nothing.
\<close>

theorem fs_reload:
  assumes "fs_inv fs" "list_all op_ok ops"
  shows "\<exists>fs'. foldM fs_apply ops fs = Some fs' \<and>
     bdfs_init (fs'\<lparr>file_table := junk\<rparr>) k = Some (fs'\<lparr>current_dir_inode := 0\<rparr>, k)"
proof -
  obtain fs' where "foldM fs_apply ops fs = Some fs'" "fs_inv fs'" using fsops.run_safe [OF assms] by blast
  then show ?thesis using init_reload by auto
qed

theorem fs_reload_witness:
  "\<exists>fs'. foldM fs_apply [Mkdir file_b, Chdir file_b, Create file_a] fs_a = Some fs' \<and>
     bdfs_init (fs'\<lparr>file_table := []\<rparr>) boot_console = Some (fs'\<lparr>current_dir_inode := 0\<rparr>, boot_console)"
  by (rule fs_reload [OF fs_a_inv]) simp

text \<open>
  (C4) Writing and reading back a file whose data do not start in sector 0 returns exactly the bytes
  written and their number.
\<close>

theorem write_read_roundtrip:
  assumes "fs_inv fs" "terminated nm" "unat n \<le> length buffer" "unat n + 511 < 2 ^ 32"
    and "bdfs_write_file nm buffer n fs = Some (uint n, fs')"
    and "lookup nm (current_dir_inode fs) fs = Some i" "unat n \<le> length out"
    and "start_sector (file_table fs' ! i) \<noteq> 0"
  shows "bdfs_read_file nm out fs' = Some (0, Some n, take (unat n) buffer @ drop (unat n) out)"
  using read_after_write [OF assms(1-7)] assms(3,8) by (simp add: clobber_def blit_def)

theorem write_read_roundtrip_witness:
  "\<exists>fs'. bdfs_write_file file_b [1, 2, 3, 4, 5] 5 fs_b = Some (5, fs') \<and>
     bdfs_read_file file_b [0, 0, 0, 0, 0, 9] fs' = Some (0, Some 5, [1, 2, 3, 4, 5, 9])"
proof -
  let ?f = "written 9 (target 9 fs_b) [1, 2, 3, 4, 5] 5 fs_b"
  note l = fs_b_lookup fs_b_table(2)
  have "fits 9 5 fs_b" "ftype (file_table fs_b ! 9) = 0" using l by (simp_all add: fits_def fresh_entry_def)
  then have w: "bdfs_write_file file_b [1, 2, 3, 4, 5] 5 fs_b = Some (uint (5 :: u32), ?f)"
    using write_eq [OF fs_b_inv file_b_terminated, of 5 "[1, 2, 3, 4, 5]"] l by simp
  have "start_sector (file_table ?f ! 9) \<noteq> 0"
    using l fs_invD(2) [OF fs_b_inv] by (simp add: written_fields target_def fresh_entry_def)
  then show ?thesis
    using write_read_roundtrip [OF fs_b_inv file_b_terminated _ _ w, of 9 "[0, 0, 0, 0, 0, 9]"] w l by simp
qed

text \<open>
  (C36) A file whose data start in sector 0, such as the first file written after formatting, does not
  read back: its first four bytes are replaced by the length field of table entry 63, because the
  saved table of 2052 bytes overruns the 2048 bytes reserved for it.
\<close>

theorem sector_zero_clobbered:
  assumes "fs_inv fs" "terminated nm" "unat n \<le> length buffer" "unat n + 511 < 2 ^ 32"
    and "bdfs_write_file nm buffer n fs = Some (uint n, fs')"
    and "lookup nm (current_dir_inode fs) fs = Some i" "unat n \<le> length out"
    and "start_sector (file_table fs' ! i) = 0" "4 \<le> unat n"
  shows "bdfs_read_file nm out fs' = Some (0, Some n,
     le32 (flength (file_table fs' ! 63)) @ drop 4 (take (unat n) buffer) @ drop (unat n) out)"
  using read_after_write [OF assms(1-7)] assms(3,8,9) by (simp add: clobber_def blit_def)

theorem sector_zero_clobbered_witness:
  "\<exists>fs'. bdfs_write_file file_a [1, 2, 3, 4, 5] 5 fs_a = Some (5, fs') \<and>
     bdfs_read_file file_a [9, 9, 9, 9, 9] fs' = Some (0, Some 5, [0, 0, 0, 0, 5])"
proof -
  let ?f = "written 8 (target 8 fs_a) [1, 2, 3, 4, 5] 5 fs_a"
  note l = fs_a_lookup
  have "fits 8 5 fs_a" "ftype (file_table fs_a ! 8) = 0" using l by (simp_all add: fits_def fresh_entry_def)
  then have w: "bdfs_write_file file_a [1, 2, 3, 4, 5] 5 fs_a = Some (uint (5 :: u32), ?f)"
    using write_eq [OF fs_a_inv file_a_terminated, of 5 "[1, 2, 3, 4, 5]"] l by simp
  have s: "start_sector (file_table ?f ! 8) = 0"
    using l fs_invD(2) [OF fs_a_inv] by (simp add: written_fields target_def fresh_entry_def)
  have "flength (file_table ?f ! 63) = 0" by (simp add: written_fields fs_a_def default_table_def zero_entry_def)
  then show ?thesis
    using sector_zero_clobbered [OF fs_a_inv file_a_terminated _ _ w, of 8 "[9, 9, 9, 9, 9]"] w l s
    by (simp add: le32_def)
qed


definition in_sector_zero :: "buf \<Rightarrow> bdfs \<Rightarrow> bool" where
  "in_sector_zero nm fs \<longleftrightarrow>
     (case lookup nm (current_dir_inode fs) fs of Some j \<Rightarrow> start_sector (file_table fs ! j) = 0 | None \<Rightarrow> False)"

lemma blit_blit: "length ys \<le> length xs \<Longrightarrow> length xs \<le> length b \<Longrightarrow> blit (blit b 0 xs) 0 ys = blit b 0 (blit xs 0 ys)"
  by (simp add: blit_def)

text \<open>
  (C5) Files are isolated: a successful write to one file of the current directory leaves what any
  other name reads as it was, with one exception, which is stated exactly: when the written file is
  table entry 63, whose length field is the part of the saved table that reaches into data sector 0,
  a file in that sector reads the new length in place of its first four bytes.
\<close>

theorem write_isolated:
  assumes "fs_inv fs" "terminated nm" "terminated other" "cstr nm \<noteq> cstr other"
    and "unat n \<le> length buffer" "unat n + 511 < 2 ^ 32"
    and "bdfs_write_file nm buffer n fs = Some (uint n, fs')"
  shows "bdfs_read_file other out fs' =
    (if lookup nm (current_dir_inode fs) fs = Some 63 \<and> in_sector_zero other fs
     then map_option (\<lambda>(r, m, b). (r, m, if r = 0 then blit b 0 (take (unat (the m)) (le32 n)) else b)) (bdfs_read_file other out fs)
     else bdfs_read_file other out fs)"
proof -
  obtain i where i: "i < 64" "lookup nm (current_dir_inode fs) fs = Some i" "is_file (file_table fs ! i)"
    "fs' = written i (target i fs) buffer n fs" "fs_inv fs'" "is_file ((target i fs)\<lparr>flength := n\<rparr>)"
    using write_success [OF assms(1,2,5-7)] .
  note f = fs_invD [OF assms(1)]
  have cwd: "current_dir_inode fs' = current_dir_inode fs" using i(4) by (simp add: written_fields)
  have look: "lookup other (current_dir_inode fs) fs' = lookup other (current_dir_inode fs) fs"
    using lookup_written [OF assms(1) i(5) [unfolded i(4)] i(1)] i(4) by simp
  show ?thesis
  proof (cases "lookup other (current_dir_inode fs) fs")
    case None
    then show ?thesis using read_eq [OF i(5) assms(3)] read_eq [OF assms(1,3)] cwd look by (simp add: in_sector_zero_def)
  next
    case (Some j)
    note j = lookup_Some [OF f(1) Some] and mi = lookup_Some(2) [OF f(1) i(2)]
    let ?e = "file_table fs ! j"
    have ne: "j \<noteq> i" using j mi assms(4) by (auto simp: matches_def)
    then have e: "file_table fs' ! j = ?e" using i(4) by (simp add: written_fields)
    have isf: "is_file ?e" if "ftype ?e = 0" using that j(2) by (simp add: is_file_def matches_def)
    have l: "length (stored fs j) = unat (flength ?e)" if "ftype ?e = 0"
      using extent_bytes [OF extents_okD(1) [OF f(1) j(1) isf [OF that]]] f(3) by (simp add: stored_def)
    have s: "stored fs' j = (if i = 63 \<and> start_sector ?e = 0
        then blit (stored fs j) 0 (take (unat (flength ?e)) (le32 n)) else stored fs j)" if t: "ftype ?e = 0"
      using stored_written_other [OF assms(1) i(5) [unfolded i(4)] i(1) j(1) ne assms(5) i(6) isf [OF t]]
        clobber_same [OF assms(1) isf [OF t] j(1), of "file_table fs"] i(4) f(2) l [OF t]
      by (cases "start_sector ?e = 0"; cases "i = 63") (simp_all add: clobber_def)
    show ?thesis
      using read_eq [OF i(5) assms(3)] read_eq [OF assms(1,3)] cwd look Some e s l i(2)
      by (auto simp: in_sector_zero_def blit_blit)
  qed
qed

theorem write_isolated_witness:
  "\<exists>fs'. bdfs_write_file file_b [1, 2, 3, 4, 5] 5 fs_b = Some (5, fs') \<and>
     bdfs_read_file file_a [0] fs' = bdfs_read_file file_a [0] fs_b"
proof -
  note l = fs_b_lookup fs_b_table(2)
  have "fits 9 5 fs_b" "ftype (file_table fs_b ! 9) = 0" using l by (simp_all add: fits_def fresh_entry_def)
  then have w: "bdfs_write_file file_b [1, 2, 3, 4, 5] 5 fs_b =
      Some (uint (5 :: u32), written 9 (target 9 fs_b) [1, 2, 3, 4, 5] 5 fs_b)"
    using write_eq [OF fs_b_inv file_b_terminated, of 5 "[1, 2, 3, 4, 5]"] l by simp
  then show ?thesis
    using write_isolated [OF fs_b_inv file_b_terminated file_a_terminated _ _ _ w, of "[0]"] l
    by (simp add: file_a_def file_b_def)
qed

text \<open>
  (C33) Creating a file reports exactly one of four results: \<open>-1\<close> for a name of 16 or more
  characters, \<open>-2\<close> for a name that the current directory has, \<open>-3\<close> when all 64 entries are in use,
  all three without any change, and otherwise \<open>0\<close> with an empty file of that name, put into the first
  unused entry, every other entry unchanged.
\<close>

theorem create_file_results:
  assumes "fs_inv fs" "terminated nm" "bdfs_create_file nm fs = Some (r, fs')"
  shows "(r = -1 \<and> 16 \<le> length (cstr nm) \<and> fs' = fs) \<or>
    (r = -2 \<and> length (cstr nm) < 16 \<and> (\<exists>e \<in> set (file_table fs). matches nm (current_dir_inode fs) e) \<and> fs' = fs) \<or>
    (r = -3 \<and> length (cstr nm) < 16 \<and> (\<forall>e \<in> set (file_table fs). live e) \<and> fs' = fs) \<or>
    (r = 0 \<and> length (cstr nm) < 16 \<and> (\<exists>i e. free_slot fs = Some i \<and> cstr (name e) = cstr nm \<and>
       ftype e = BDFS_FILE_TYPE_FILE \<and> parent_inode e = current_dir_inode fs \<and> flength e = 0 \<and>
       file_table fs' = (file_table fs)[i := e] \<and> current_dir_inode fs' = current_dir_inode fs))"
proof -
  have none: "free_slot fs = None \<longleftrightarrow> (\<forall>e \<in> set (file_table fs). live e)"
    by (simp add: free_slot_def first_idx_None)
  have new: "cstr (name (fresh_entry nm 0 p e)) = cstr nm \<and> ftype (fresh_entry nm 0 p e) = 0 \<and>
      parent_inode (fresh_entry nm 0 p e) = p \<and> flength (fresh_entry nm 0 p e) = 0" for p e
    by (simp add: fresh_entry_def)
  show ?thesis
    using assms(3) unfolding create_file_eq [OF assms(1,2)]
    by (auto simp: none lookup_None new simp del: cstr_named split: if_splits option.splits) (use new in blast)
qed

theorem create_file_results_witness:
  "\<exists>fs'. bdfs_create_file file_a boot_fs = Some (0, fs') \<and> file_table fs' = default_table[8 := file_table fs' ! 8]"
proof -
  have "\<exists>i e. free_slot boot_fs = Some i \<and> file_table fs_a = (file_table boot_fs)[i := e]"
    using create_file_results [OF boot_fs_inv file_a_terminated create_a] by auto
  then obtain e where "file_table fs_a = default_table[8 := e]" using boot_lookup(2) by auto
  moreover have "length default_table = 64" by (simp add: default_table_def)
  ultimately show ?thesis using create_a by auto
qed


text \<open>
  (C34) Creating a file and deleting it again succeeds and leaves the current directory with the
  names, types and extents it had.
\<close>

theorem create_delete_restores:
  assumes "fs_inv fs" "ok_name n" "bdfs_create_file (n @ [0]) fs = Some (0, fs1)"
  shows "\<exists>fs2. bdfs_delete_file (n @ [0]) fs1 = Some (0, fs2) \<and> fs_inv fs2 \<and> cwd_view fs2 = cwd_view fs"
  using cwd.add_del_restores [OF assms(1,2)] assms(3) by (simp add: ok_result_Some)

theorem create_delete_restores_witness:
  "\<exists>fs1 fs2. bdfs_create_file [97, 0] boot_fs = Some (0, fs1) \<and> bdfs_delete_file [97, 0] fs1 = Some (0, fs2) \<and>
     cwd_view fs2 = cwd_view boot_fs"
  using create_delete_restores [OF boot_fs_inv, of "[97]"] create_a by (auto simp: ok_name_def file_a_def)

text \<open>
  (C35) Renaming moves exactly one name, and renaming back restores the directory: the entry keeps its
  type, sectors and length under the new name, and no other name is affected.
\<close>

theorem rename_back_restores:
  assumes "fs_inv fs" "ok_name a" "ok_name b" "bdfs_rename_file (a @ [0]) (b @ [0]) fs = Some (0, fs1)"
  shows "cwd_view fs1 = (cwd_view fs)(a := None, b := cwd_view fs a) \<and>
    (\<exists>fs2. bdfs_rename_file (b @ [0]) (a @ [0]) fs1 = Some (0, fs2) \<and> fs_inv fs2 \<and> cwd_view fs2 = cwd_view fs)"
  using cwd.ren_back_restores [OF assms(1-3)] cwd.ren [OF assms(1-3)] assms(4) by (simp add: ok_result_Some)

theorem rename_back_restores_witness:
  "\<exists>fs1 fs2. bdfs_rename_file [97, 0] [99, 0] fs_a = Some (0, fs1) \<and>
     bdfs_rename_file [99, 0] [97, 0] fs1 = Some (0, fs2) \<and> cwd_view fs2 = cwd_view fs_a"
proof -
  have "lookup [99, 0] 0 fs_a = None" unfolding lookup_def fs_a_def resync_fields put_entry_fields boot_fs_fields
    by code_simp
  then have "\<exists>fs1. bdfs_rename_file [97, 0] [99, 0] fs_a = Some (0, fs1)"
    using rename_eq [OF fs_a_inv, of "[97, 0]" "[99, 0]"] fs_a_lookup by (simp add: file_a_def)
  then show ?thesis using rename_back_restores [OF fs_a_inv, of "[97]" "[99]"] by (auto simp: ok_name_def)
qed

text \<open>
  Deleting a directory does not look inside of it: when its entry is the first one free
  afterwards, the next directory made there owns the old contents.
\<close>

theorem mkdir_inherits_children:
  assumes "fs_inv fs" "terminated d" "lookup d (current_dir_inode fs) fs = Some i" "i \<noteq> 0"
    and "\<forall>e \<in> set (take i (file_table fs)). live e"
    and "lookup child (of_nat i) fs = Some j" "j \<noteq> i" "of_nat i \<noteq> current_dir_inode fs"
    and "ok_name n" "lookup (n @ [0]) (current_dir_inode fs) fs = None"
  shows "\<exists>fs1 fs2. bdfs_delete_file d fs = Some (0, fs1) \<and> bdfs_mkdir (n @ [0]) fs1 = Some (0, fs2) \<and>
     lookup (n @ [0]) (current_dir_inode fs) fs2 = Some i \<and> lookup child (of_nat i) fs2 = Some j"
proof -
  note f = fs_invD [OF assms(1)] and c = ok_name_cstr [OF assms(9)]
  let ?p = "current_dir_inode fs" and ?d = "deleted (file_table fs ! i)" and ?nm = "n @ [0]"
  define fs1 where "fs1 = resync (put_entry i ?d fs)"
  note i = lookup_Some [OF f(1) assms(3)]
  have t1: "table_inv (file_table (put_entry i ?d fs))" by (rule deleted_inv [OF f(1) i(1)])
  have del: "bdfs_delete_file d fs = Some (0, fs1)" using delete_eq [OF assms(1,2)] assms(3) by (simp add: fs1_def)
  have inv1: "fs_inv fs1" using sync_put_entry(2) [OF assms(1) t1] by (simp add: fs1_def)
  note f1 = fs_invD [OF inv1]
  have e1: "file_table fs1 = (file_table fs)[i := ?d]" "current_dir_inode fs1 = ?p" by (simp_all add: fs1_def)
  have dead: "\<not> live ?d" using table_invD(4) [OF f(1) i(1)] by (simp add: live_def deleted_def)
  have look1: "lookup x p fs1 = (if lookup x p fs = Some i then None else lookup x p fs)" for x p
    using lookup_put_entry [OF f(1) t1 i(1), of x p] dead by (simp add: fs1_def matches_def)
  have slot: "free_slot fs1 = Some i"
    using assms(5) f(2) i(1) dead
    by (auto simp: free_slot_def first_idx_Some e1 set_conv_nth nth_list_update)
  let ?e = "fresh_entry ?nm BDFS_FILE_TYPE_DIRECTORY ?p (file_table fs1 ! i)"
  have none: "lookup ?nm ?p fs1 = None" using look1 assms(10) by simp
  have t2: "table_inv (file_table (put_entry i ?e fs1))"
    using fresh_entry_inv [OF f1(1) i(1) _ f(4) none] assms(9) c by (simp add: ok_name_def)
  have mk: "bdfs_mkdir ?nm fs1 = Some (0, resync (put_entry i ?e fs1))"
    using mkdir_eq [OF inv1 c(2)] none slot assms(9) c e1 by (simp add: ok_name_def)
  have "live ?e" using assms(9) by (cases n) (auto simp: live_def fresh_entry_def named_def ok_name_def c)
  then have m: "matches x p ?e \<longleftrightarrow> p = ?p \<and> cstr x = n" for x p
    using c by (auto simp: matches_def fresh_entry_def)
  have "lookup x p (resync (put_entry i ?e fs1)) = (if p = ?p \<and> cstr x = n then Some i
      else if lookup x p fs1 = Some i then None else lookup x p fs1)" for x p
    using lookup_put_entry [OF f1(1) t2 i(1), of x p] m by simp
  then show ?thesis using del mk look1 assms(6-8) c by auto
qed

theorem mkdir_inherits_children_witness:
  "\<exists>fs1 fs2. bdfs_delete_file (lit ''vault'') boot_fs = Some (0, fs1) \<and> bdfs_mkdir [120, 0] fs1 = Some (0, fs2) \<and>
     lookup [120, 0] 0 fs2 = Some 3 \<and> lookup (lit ''cypher'') 3 fs2 = Some 7"
proof -
  have "lookup (lit ''vault'') 0 boot_fs = Some 3" "lookup (lit ''cypher'') 3 boot_fs = Some 7"
    "lookup [120, 0] 0 boot_fs = None" "\<forall>e \<in> set (take 3 (file_table boot_fs)). live e"
    unfolding lookup_def boot_fs_fields by code_simp+
  then show ?thesis using mkdir_inherits_children [OF boot_fs_inv, of "lit ''vault''" 3 "lit ''cypher''" 7 "[120]"]
    by (simp add: ok_name_def)
qed

text \<open>
  (C37) The sector count of a write is computed with 32-bit wrap-around: for the 511 largest byte
  counts it is 0, the space check passes, and the copy leaves the RAM disk.
\<close>

theorem write_size_wraps:
  assumes "fs_inv fs" "terminated nm" "lookup nm (current_dir_inode fs) fs = Some i"
    and "ftype (file_table fs ! i) = BDFS_FILE_TYPE_FILE" "2 ^ 32 - 511 \<le> unat n"
  shows "bdfs_write_file nm buffer n fs = None"
proof -
  note f = fs_invD [OF assms(1)] and l = lookup_Some [OF fs_invD(1) [OF assms(1)] assms(3)]
  have "unat (n + 511) = unat n + 511 - 2 ^ 32"
    using assms(5) unsigned_less [of n, where 'a = nat] by (simp add: unat_word_ariths mod_if)
  then have "unat (n + 511) < 511" using unsigned_less [of n, where 'a = nat] by simp
  then have need: "(n + 511) div 512 = 0" by (simp add: unat_eq_zero [symmetric] unat_div)
  have none: "store_data i e buffer n fs = None" for e
    using assms(5) f(2,3) l(1) by (simp add: store_data_def memcpy_eq Let_def)
  have "\<not> 64 < free_sector fs" using free_sector(2) [OF f(1)] by (simp add: word_less_nat_alt)
  then show ?thesis
    using find_entry_eq [OF f(1) assms(2)] free_sector(1) [OF f(1)] assms(3,4) f(2) l(1) need none
    by (simp add: bdfs_write_file_def Let_def)
qed

theorem write_size_wraps_witness: "bdfs_write_file file_a (replicate (2 ^ 32) 0) (2 ^ 32 - 1) fs_a = None"
  using write_size_wraps [OF fs_a_inv file_a_terminated, of 8 "2 ^ 32 - 1"] fs_a_lookup
  by (simp add: fresh_entry_def)

end
