(* ===== verification/Bdx.thy ===== *)
theory Bdx
  imports Bdfs_Props
begin

text \<open>
  The bytecode interpreter of \<^verbatim>\<open>src/exec/exec.c\<close>.  The instruction pointer is the C \<^verbatim>\<open>int\<close>, kept as a
  32-bit word whose sums wrap; an access with a negative or too large index is \<^term>\<open>None\<close>, and so is a
  program that runs for ever.  The contents that the stack buffer has before the file is read are
  an argument.
\<close>

section \<open>Definitions\<close>

abbreviation (input) OPCODE_SYSCALL_PRINT :: byte where "OPCODE_SYSCALL_PRINT \<equiv> 0x01"
abbreviation (input) OPCODE_SYSCALL_WRITE :: byte where "OPCODE_SYSCALL_WRITE \<equiv> 0x03"
abbreviation (input) OPCODE_EXIT :: byte where "OPCODE_EXIT \<equiv> 0x04"

text \<open>The pointer \<^verbatim>\<open>&bytecode[ip]\<close> as the bytes from there on.\<close>

definition at_ip :: "buf \<Rightarrow> u32 \<Rightarrow> buf option" where
  "at_ip bytecode ip =
     (if 0 \<le> sint ip \<and> nat (sint ip) \<le> length bytecode then Some (drop (nat (sint ip)) bytecode) else None)"

text \<open>
  One pass of the loop: the instruction pointer of the next pass, or none when the pass returns.
  \<^term>\<open>None\<close> is a pass that leaves an object.
\<close>

definition interpret_step :: "buf \<Rightarrow> u32 \<Rightarrow> bdfs \<Rightarrow> console \<Rightarrow> (u32 option \<times> bdfs \<times> console) option" where
  "interpret_step bytecode ip fs k =
     do { code \<leftarrow> at_ip bytecode ip;
          opcode \<leftarrow> rd code 0;
          if opcode = OPCODE_SYSCALL_PRINT
          then do { str \<leftarrow> at_ip bytecode (ip + 1);
                    k' \<leftarrow> print str COLOR_INPUT k;
                    n \<leftarrow> strlen str;
                    Some (Some (ip + 1 + of_nat n + 1), fs, k') }
          else if opcode = OPCODE_SYSCALL_WRITE
          then do { path \<leftarrow> at_ip bytecode (ip + 1);
                    n \<leftarrow> strlen path;
                    let ip2 = ip + 1 + of_nat n + 1;
                    b \<leftarrow> at_ip bytecode ip2;
                    len \<leftarrow> (if 4 \<le> length b then Some (of_le32 (take 4 b)) else None);
                    data \<leftarrow> at_ip bytecode (ip2 + 4);
                    (_, fs') \<leftarrow> bdfs_write_file path data len fs;
                    Some (Some (ip2 + 4 + len), fs', k) }
          else Some (None, fs, k) }"

partial_function (option) interpret_loop :: "buf \<Rightarrow> u32 \<Rightarrow> bdfs \<Rightarrow> console \<Rightarrow> (bdfs \<times> console) option" where
  "interpret_loop bytecode ip fs k =
     do { (next, fs', k') \<leftarrow> interpret_step bytecode ip fs k;
          case next of Some ip' \<Rightarrow> interpret_loop bytecode ip' fs' k' | None \<Rightarrow> Some (fs', k') }"

definition interpret_bdx :: "buf \<Rightarrow> bdfs \<Rightarrow> console \<Rightarrow> (bdfs \<times> console) option" where
  "interpret_bdx bytecode fs k = interpret_loop bytecode 0 fs k"

definition execute_bdx :: "buf \<Rightarrow> buf \<Rightarrow> bdfs \<Rightarrow> console \<Rightarrow> (int \<times> bdfs \<times> console) option" where
  "execute_bdx path stack_bytes fs k =
     do { (r, bytes_read, bytecode) \<leftarrow> bdfs_read_file path (take 1024 stack_bytes) fs;
          if r \<noteq> 0 then Some (-1, fs, k)
          else do { (fs', k') \<leftarrow> interpret_bdx bytecode fs k; Some (0, fs', k') } }"

section \<open>Programs\<close>

datatype instr = PrintI buf | WriteI buf buf

fun assemble1 :: "instr \<Rightarrow> buf" where
  "assemble1 (PrintI s) = [0x01] @ s @ [0]"
| "assemble1 (WriteI path data) = [0x03] @ path @ [0] @ le32 (of_nat (length data)) @ data"

definition assemble :: "instr list \<Rightarrow> buf" where
  "assemble is = concat (map assemble1 is) @ [OPCODE_EXIT]"

text \<open>The meaning of an instruction, by the calls that it makes.\<close>

fun exec1 :: "instr \<Rightarrow> bdfs \<times> console \<Rightarrow> (bdfs \<times> console) option" where
  "exec1 (PrintI s) (fs, k) = do { k' \<leftarrow> print (s @ [0]) COLOR_INPUT k; Some (fs, k') }"
| "exec1 (WriteI path data) (fs, k) =
     do { (_, fs') \<leftarrow> bdfs_write_file (path @ [0]) data (of_nat (length data)) fs; Some (fs', k) }"

fun instr_ok :: "instr \<Rightarrow> bool" where
  "instr_ok (PrintI s) = (0 \<notin> set s)"
| "instr_ok (WriteI path data) = (0 \<notin> set path \<and> length data < 2 ^ 31)"

definition sys_inv :: "bdfs \<times> console \<Rightarrow> bool" where
  "sys_inv = (\<lambda>(fs, k). fs_inv fs \<and> con_inv k)"

lemma exec1_safe: "sys_inv s \<Longrightarrow> instr_ok i \<Longrightarrow> \<exists>s'. exec1 i s = Some s' \<and> sys_inv s'"
proof (cases s)
  case (Pair fs k)
  assume s: "sys_inv s" "instr_ok i"
  show ?thesis
  proof (cases i)
    case (PrintI t)
    then show ?thesis using print_inv [of k "t @ [0]" COLOR_INPUT] s Pair by (auto simp: sys_inv_def)
  next
    case (WriteI path data)
    have "unat (of_nat (length data) :: u32) = length data"
      using s(2) WriteI by (simp add: unat_of_nat take_bit_nat_eq_self)
    then have "op_ok (Write (path @ [0]) data (of_nat (length data)))" using s(2) WriteI by simp
    from fs_call_inv [OF _ this, of fs] show ?thesis using s Pair WriteI by (auto simp: sys_inv_def)
  qed
qed

interpretation program: safe_step exec1 sys_inv instr_ok
  by unfold_locales (rule exec1_safe)

section \<open>Correctness of the interpreter\<close>

lemma sint_of_nat_small: "n < 2 ^ 31 \<Longrightarrow> sint (of_nat n :: u32) = int n"
  using signed_take_bit_int_eq_self [of 31 "int n"] by (simp add: signed_of_nat)

lemma at_ip_eq:
  assumes "length (pre @ rest) < 2 ^ 31"
  shows "at_ip (pre @ rest) (of_nat (length pre)) = Some rest"
proof -
  have "length pre < 2 ^ 31" using assms by (rule le_less_trans [rotated]) simp
  note s = sint_of_nat_small [OF this]
  show ?thesis unfolding at_ip_def s nat_int by simp
qed

text \<open>The interpreter's strings run on into the rest of the program; only their C part matters.\<close>

lemma print_ext: "0 \<notin> set s \<Longrightarrow> print (s @ 0 # rest) color k = print (s @ [0]) color k"
  by (simp add: print_eq cstr_append_zero)

lemma write_ext:
  assumes "fs_inv fs" "0 \<notin> set path" "length data < 2 ^ 31"
  shows "bdfs_write_file (path @ 0 # rest) (data @ extra) (of_nat (length data)) fs =
    bdfs_write_file (path @ [0]) data (of_nat (length data)) fs"
proof -
  have n: "unat (of_nat (length data) :: u32) = length data"
    using assms(3) by (simp add: unat_of_nat take_bit_nat_eq_self)
  have "lookup (path @ 0 # rest) p fs = lookup (path @ [0]) p fs" for p
    using assms(2) unfolding lookup_def by (intro first_idx_cong matches_cstr) (simp add: cstr_append_zero)
  moreover have "written i e (data @ extra) (of_nat (length data)) fs = written i e data (of_nat (length data)) fs" for i e
    using n by (simp add: written_def)
  ultimately show ?thesis
    using write_eq [OF assms(1), of "path @ 0 # rest" "of_nat (length data)" "data @ extra"]
      write_eq [OF assms(1), of "path @ [0]" "of_nat (length data)" data] n assms(3)
    by (simp split: option.splits)
qed

lemma strlen_append_zero: "0 \<notin> set s \<Longrightarrow> strlen (s @ 0 # rest) = Some (length s)"
  by (simp add: strlen_eq cstr_append_zero)

lemma interpret_print:
  assumes "length (pre @ assemble1 (PrintI s) @ rest) < 2 ^ 31" "0 \<notin> set s"
  shows "interpret_loop (pre @ assemble1 (PrintI s) @ rest) (of_nat (length pre)) fs k =
    do { (fs', k') \<leftarrow> exec1 (PrintI s) (fs, k);
         interpret_loop (pre @ assemble1 (PrintI s) @ rest) (of_nat (length (pre @ assemble1 (PrintI s)))) fs' k' }"
proof -
  let ?b = "pre @ assemble1 (PrintI s) @ rest"
  have a0: "at_ip ?b (of_nat (length pre)) = Some (0x01 # s @ 0 # rest)"
    using at_ip_eq [of pre "assemble1 (PrintI s) @ rest"] assms(1) by simp
  have a1: "at_ip ?b (of_nat (length pre) + 1) = Some (s @ 0 # rest)"
    using at_ip_eq [of "pre @ [0x01]" "s @ 0 # rest"] assms(1) by (simp add: algebra_simps)
  have e: "of_nat (length pre) + 1 + of_nat (length s) + 1 = (of_nat (length (pre @ assemble1 (PrintI s))) :: u32)"
    by (simp add: algebra_simps)
  show ?thesis
    unfolding interpret_loop.simps [of ?b "of_nat (length pre)"] interpret_step_def a0 a1
    using print_ext [OF assms(2), of rest] strlen_append_zero [OF assms(2), of rest] e
    by (simp add: algebra_simps)
qed

lemma interpret_write:
  assumes "length (pre @ assemble1 (WriteI path data) @ rest) < 2 ^ 31" "instr_ok (WriteI path data)" "fs_inv fs"
  shows "interpret_loop (pre @ assemble1 (WriteI path data) @ rest) (of_nat (length pre)) fs k =
    do { (fs', k') \<leftarrow> exec1 (WriteI path data) (fs, k);
         interpret_loop (pre @ assemble1 (WriteI path data) @ rest) (of_nat (length (pre @ assemble1 (WriteI path data)))) fs' k' }"
proof -
  let ?b = "pre @ assemble1 (WriteI path data) @ rest" and ?n = "le32 (of_nat (length data)) @ data @ rest"
  have ok: "0 \<notin> set path" "length data < 2 ^ 31" using assms(2) by simp_all
  have a0: "at_ip ?b (of_nat (length pre)) = Some (0x03 # path @ 0 # ?n)"
    using at_ip_eq [of pre "assemble1 (WriteI path data) @ rest"] assms(1) by simp
  have a1: "at_ip ?b (of_nat (length pre) + 1) = Some (path @ 0 # ?n)"
    using at_ip_eq [of "pre @ [0x03]" "path @ 0 # ?n"] assms(1) by (simp add: algebra_simps)
  have a2: "at_ip ?b (of_nat (length pre) + 1 + of_nat (length path) + 1) = Some ?n"
    using at_ip_eq [of "pre @ [0x03] @ path @ [0]" ?n] assms(1) by (simp add: algebra_simps)
  have a3: "at_ip ?b (of_nat (length pre) + 1 + of_nat (length path) + 1 + 4) = Some (data @ rest)"
    using at_ip_eq [of "pre @ [0x03] @ path @ [0] @ le32 (of_nat (length data))" "data @ rest"] assms(1)
    by (simp add: algebra_simps)
  have e: "of_nat (length pre) + 1 + of_nat (length path) + 1 + 4 + of_nat (length data) =
      (of_nat (length (pre @ assemble1 (WriteI path data))) :: u32)" by (simp add: algebra_simps)
  have l: "take 4 ?n = le32 (of_nat (length data))" "4 \<le> length ?n" by simp_all
  show ?thesis
    unfolding interpret_loop.simps [of ?b "of_nat (length pre)"] interpret_step_def a0 a1
    using strlen_append_zero [OF ok(1), of ?n] write_ext [OF assms(3) ok, of ?n rest] a2 a3 e l
    by (cases "bdfs_write_file (path @ [0]) data (of_nat (length data)) fs") (auto simp: Let_def algebra_simps)
qed

lemma interpret_exit:
  "length (pre @ 0x04 # rest) < 2 ^ 31 \<Longrightarrow> interpret_loop (pre @ 0x04 # rest) (of_nat (length pre)) fs k = Some (fs, k)"
  using at_ip_eq [of pre "0x04 # rest"] by (subst interpret_loop.simps) (simp add: interpret_step_def)

lemma interpret_zero: "interpret_bdx (0 # rest) fs k = Some (fs, k)"
  unfolding interpret_bdx_def
  by (subst interpret_loop.simps) (simp add: interpret_step_def at_ip_def)

lemma interpret_program:
  assumes "length (pre @ concat (map assemble1 is) @ 0x04 # rest) < 2 ^ 31" "list_all instr_ok is" "sys_inv (fs, k)"
  shows "interpret_loop (pre @ concat (map assemble1 is) @ 0x04 # rest) (of_nat (length pre)) fs k = foldM exec1 is (fs, k)"
  using assms
proof (induction "is" arbitrary: pre fs k)
  case Nil
  then show ?case using interpret_exit [of pre rest fs k] by simp
next
  case (Cons i "is")
  let ?b = "pre @ concat (map assemble1 (i # is)) @ 0x04 # rest" and ?r = "concat (map assemble1 is) @ 0x04 # rest"
  have b: "?b = pre @ assemble1 i @ ?r" "?b = (pre @ assemble1 i) @ ?r" by simp_all
  have lt: "length (pre @ assemble1 i @ ?r) < 2 ^ 31" "length ((pre @ assemble1 i) @ ?r) < 2 ^ 31" using Cons.prems(1) by simp_all
  obtain fs1 k1 where s: "exec1 i (fs, k) = Some (fs1, k1)" "sys_inv (fs1, k1)"
    using program.step_safe [of "(fs, k)" i] Cons.prems by (metis list.pred_inject(2) surj_pair)
  have "interpret_loop ?b (of_nat (length pre)) fs k =
    do { (fs', k') \<leftarrow> exec1 i (fs, k); interpret_loop ?b (of_nat (length (pre @ assemble1 i))) fs' k' }"
    unfolding b(1) using lt(1) Cons.prems(2,3)
  proof (cases i)
    case (PrintI t)
    then show "interpret_loop (pre @ assemble1 i @ ?r) (of_nat (length pre)) fs k =
      do { (fs', k') \<leftarrow> exec1 i (fs, k); interpret_loop (pre @ assemble1 i @ ?r) (of_nat (length (pre @ assemble1 i))) fs' k' }"
      using interpret_print [of pre t ?r fs k] lt(1) Cons.prems(2) by simp
  next
    case (WriteI path data)
    then show "interpret_loop (pre @ assemble1 i @ ?r) (of_nat (length pre)) fs k =
      do { (fs', k') \<leftarrow> exec1 i (fs, k); interpret_loop (pre @ assemble1 i @ ?r) (of_nat (length (pre @ assemble1 i))) fs' k' }"
      using interpret_write [of pre path data ?r fs k] lt(1) Cons.prems(2,3) by (simp add: sys_inv_def)
  qed
  also have "\<dots> = foldM exec1 is (fs1, k1)"
    using s(1) Cons.IH [OF lt(2) _ s(2)] Cons.prems(2) unfolding b(2) by simp
  finally show ?case using s(1) by simp
qed

lemma interpret_assembled:
  assumes "list_all instr_ok is" "length (assemble is @ junk) < 2 ^ 31" "fs_inv fs" "con_inv k"
  obtains fs' k' where "interpret_bdx (assemble is @ junk) fs k = Some (fs', k')"
    "foldM exec1 is (fs, k) = Some (fs', k')" "fs_inv fs'" "con_inv k'"
proof -
  have inv: "sys_inv (fs, k)" using assms(3,4) by (simp add: sys_inv_def)
  obtain fs' k' where r: "foldM exec1 is (fs, k) = Some (fs', k')" "sys_inv (fs', k')"
    using program.run_safe [OF inv assms(1)] by auto
  moreover have "interpret_bdx (assemble is @ junk) fs k = foldM exec1 is (fs, k)"
    using interpret_program [of "[]" "is" junk fs k] assms(1,2) inv by (simp add: interpret_bdx_def assemble_def)
  ultimately show ?thesis using that by (simp add: sys_inv_def)
qed

section \<open>Properties\<close>

text \<open>
  (C13) The interpreter runs every assembled program to its end, whatever bytes follow it in memory:
  it makes exactly the print and write calls of the instructions, in order, and keeps the invariants
  of the file system and the console.
\<close>

theorem interpreter_correct:
  assumes "list_all instr_ok is" "length (assemble is @ junk) < 2 ^ 31" "fs_inv fs" "con_inv k"
  shows "\<exists>fs' k'. interpret_bdx (assemble is @ junk) fs k = Some (fs', k') \<and>
     foldM exec1 is (fs, k) = Some (fs', k') \<and> fs_inv fs' \<and> con_inv k'"
  by (rule interpret_assembled [OF assms]) blast

theorem interpreter_correct_witness:
  "\<exists>fs' k'. interpret_bdx (assemble [PrintI [104, 105], WriteI [97] [1, 2, 3]] @ replicate 9 0xFF) fs_a boot_console =
      Some (fs', k') \<and> fs_inv fs' \<and> con_inv k'"
  using interpreter_correct [OF _ _ fs_a_inv boot_console_inv, of "[PrintI [104, 105], WriteI [97] [1, 2, 3]]" "replicate 9 0xFF"]
  by (auto simp: assemble_def)

definition spin_program :: buf where
  "spin_program = [3, 0, 0xFA, 0xFF, 0xFF, 0xFF]"

text \<open>An empty name is never found.\<close>

lemma lookup_empty_name: "table_inv (file_table fs) \<Longrightarrow> cstr nm = [] \<Longrightarrow> lookup nm p fs = None"
  unfolding lookup_None by (auto simp: matches_def live_def table_inv_def entry_wf_def cstr_hd)

lemma write_missing:
  assumes "fs_inv fs" "terminated nm" "cstr nm = []"
  shows "bdfs_write_file nm b n fs = Some (-1, fs)"
  using find_entry_eq [OF fs_invD(1) [OF assms(1)] assms(2)] lookup_empty_name [OF fs_invD(1) [OF assms(1)] assms(3)]
  by (simp add: bdfs_write_file_def)

text \<open>A number of passes that are all made: none faults and none returns.\<close>

fun passes :: "nat \<Rightarrow> buf \<Rightarrow> u32 \<times> bdfs \<times> console \<Rightarrow> (u32 \<times> bdfs \<times> console) option" where
  "passes 0 bytecode s = Some s"
| "passes (Suc n) bytecode (ip, fs, k) =
     do { (next, fs', k') \<leftarrow> interpret_step bytecode ip fs k;
          case next of Some ip' \<Rightarrow> passes n bytecode (ip', fs', k') | None \<Rightarrow> None }"

lemma spin_step:
  assumes "fs_inv fs"
  shows "interpret_step spin_program 0 fs k = Some (Some 0, fs, k)"
proof -
  have a: "at_ip spin_program 0 = Some spin_program" "at_ip spin_program 1 = Some [0, 0xFA, 0xFF, 0xFF, 0xFF]"
    "at_ip spin_program 2 = Some [0xFA, 0xFF, 0xFF, 0xFF]" "at_ip spin_program 6 = Some []"
    by (simp_all add: at_ip_def spin_program_def)
  have l: "of_le32 [0xFA, 0xFF, 0xFF, 0xFF] = 0xFFFFFFFA" by code_simp
  have "(0x100000000 :: u32) = 0" by code_simp
  then show ?thesis
    using a l write_missing [OF assms, of "[0, 0xFA, 0xFF, 0xFF, 0xFF]"]
    by (simp add: interpret_step_def Let_def) (simp add: spin_program_def)
qed

lemma spin_never:
  assumes "interpret_loop b ip f q = Some r"
  shows "b = spin_program \<longrightarrow> ip = 0 \<longrightarrow> fs_inv f \<longrightarrow> False"
proof (rule interpret_loop.raw_induct [OF _ assms, of "\<lambda>b ip f q r. b = spin_program \<longrightarrow> ip = 0 \<longrightarrow> fs_inv f \<longrightarrow> False"],
    goal_cases)
  case (1 loop b ip f q r)
  then show ?case using spin_step [of f q] by (metis (no_types, lifting) bind.bind_lunit old.prod.case option.simps(5))
qed

text \<open>
  (C39) A six-byte file can hang the kernel: the length of a write instruction is added to the signed
  instruction pointer with wrap-around, so a program can jump back to its own start.  The interpreter
  loops for ever: it makes any number of passes without fault or return, and after each of them it is
  at the first instruction again with file system and screen as before; so it has no result.
\<close>

theorem interpreter_spins:
  assumes "fs_inv fs"
  shows "(\<forall>n. passes n spin_program (0, fs, k) = Some (0, fs, k)) \<and> interpret_bdx spin_program fs k = None"
proof
  show "\<forall>n. passes n spin_program (0, fs, k) = Some (0, fs, k)"
  proof
    fix n show "passes n spin_program (0, fs, k) = Some (0, fs, k)"
      by (induction n) (simp_all add: spin_step [OF assms])
  qed
  show "interpret_bdx spin_program fs k = None"
    using assms spin_never by (metis interpret_bdx_def option.exhaust)
qed

theorem interpreter_spins_witness:
  "passes 1000 spin_program (0, fs_a, boot_console) = Some (0, fs_a, boot_console) \<and> interpret_bdx spin_program fs_a boot_console = None"
  using interpreter_spins [OF fs_a_inv] by blast

end
