(* ===== verification/Calculator.thy ===== *)
theory Calculator
  imports Console_Props "HOL-Library.Signed_Division"
begin

text \<open>
  The calculator of \<^verbatim>\<open>src/app/utils/calculator.c\<close>: the shunting-yard translation to postfix and
  the evaluation on a stack.  The two stacks are their live parts \<^verbatim>\<open>stack[top], ..., stack[0]\<close>, top
  first, and the output is \<^verbatim>\<open>postfix[0], ..., postfix[j-1]\<close>; a push on a full stack of 32 and a
  store behind the 256 bytes of \<^verbatim>\<open>postfix\<close> are \<^term>\<open>None\<close>.  Integers are 32-bit words whose sums and
  products wrap; the division instruction traps on zero and on \<^verbatim>\<open>INT_MIN / -1\<close>.

  The main result is that every well-formed expression, given by an inductive grammar with
  precedence, associativity, redundant parentheses and spaces, evaluates to its value.
\<close>

section \<open>Definitions\<close>

definition precedence :: "byte \<Rightarrow> int" where
  "precedence op = (if op = 43 \<or> op = 45 then 1 else if op = 42 \<or> op = 47 then 2 else 0)"

definition idiv :: "u32 \<Rightarrow> u32 \<Rightarrow> u32 option" where
  "idiv a b = (if b = 0 \<or> (a = 0x80000000 \<and> b = -1) then None else Some (word_of_int (sint a sdiv sint b)))"

definition apply_op :: "u32 \<Rightarrow> u32 \<Rightarrow> byte \<Rightarrow> u32 option" where
  "apply_op a b op =
     (if op = 43 then Some (a + b)
      else if op = 45 then Some (a - b)
      else if op = 42 then Some (a * b)
      else if op = 47 then idiv a b
      else Some 0)"

definition is_digit :: "byte \<Rightarrow> bool" where
  "is_digit c = (48 \<le> c \<and> c \<le> 57)"

definition push :: "'a \<Rightarrow> 'a list \<Rightarrow> 'a list option" where
  "push x st = (if length st < 32 then Some (x # st) else None)"

definition put :: "byte \<Rightarrow> buf \<Rightarrow> buf option" where
  "put c out = (if length out < 256 then Some (out @ [c]) else None)"

subsection \<open>Evaluation of postfix text\<close>

text \<open>The inner loop of \<^verbatim>\<open>evaluate_postfix\<close>: the number read and the text behind it.\<close>

fun parse_num :: "buf \<Rightarrow> u32 \<Rightarrow> (u32 \<times> buf) option" where
  "parse_num [] num = None"
| "parse_num (c # s) num =
     (if is_digit c then parse_num s (num * 10 + (ucast c - 48)) else Some (num, c # s))"

lemma parse_num_shorter: "parse_num s n = Some (m, r) \<Longrightarrow> length r \<le> length s"
  by (induction s arbitrary: n) (fastforce split: if_splits)+

function evaluate_loop :: "buf \<Rightarrow> u32 list \<Rightarrow> u32 option" where
  "evaluate_loop [] stack = None"
| "evaluate_loop (c # s) stack =
     (if c = 0 then (case stack of [v] \<Rightarrow> Some v | _ \<Rightarrow> Some 0)
      else if c = 32 then evaluate_loop s stack
      else if is_digit c
      then do { (num, rest) \<leftarrow> parse_num (c # s) 0;
                stack' \<leftarrow> push num stack;
                evaluate_loop rest stack' }
      else (case stack of
              val2 # val1 # st \<Rightarrow>
                do { v \<leftarrow> apply_op val1 val2 c; stack' \<leftarrow> push v st; evaluate_loop s stack' }
            | _ \<Rightarrow> Some 0))"
  by pat_completeness auto
termination
  by (relation "measure (\<lambda>(s, stack). length s)") (auto dest: parse_num_shorter simp: less_Suc_eq_le)

definition evaluate_postfix :: "buf \<Rightarrow> u32 option" where
  "evaluate_postfix postfix = evaluate_loop postfix []"

subsection \<open>Translation to postfix\<close>

fun copy_num :: "buf \<Rightarrow> buf \<Rightarrow> (buf \<times> buf) option" where
  "copy_num [] out = None"
| "copy_num (c # s) out =
     (if is_digit c then do { out' \<leftarrow> put c out; copy_num s out' } else Some (c # s, out))"

lemma copy_num_shorter: "copy_num s out = Some (r, out') \<Longrightarrow> length r \<le> length s"
  by (induction s arbitrary: out) (fastforce split: if_splits bind_splits)+

fun pop_paren :: "buf \<Rightarrow> buf \<Rightarrow> (buf \<times> buf) option" where
  "pop_paren [] out = Some ([], out)"
| "pop_paren (t # stack) out =
     (if t \<noteq> 40
      then do { out1 \<leftarrow> put t out; out2 \<leftarrow> put 32 out1; pop_paren stack out2 }
      else Some (t # stack, out))"

fun pop_ops :: "byte \<Rightarrow> buf \<Rightarrow> buf \<Rightarrow> (buf \<times> buf) option" where
  "pop_ops c [] out = Some ([], out)"
| "pop_ops c (t # stack) out =
     (if t \<noteq> 40 \<and> precedence t \<ge> precedence c
      then do { out1 \<leftarrow> put t out; out2 \<leftarrow> put 32 out1; pop_ops c stack out2 }
      else Some (t # stack, out))"

fun pop_all :: "buf \<Rightarrow> buf \<Rightarrow> buf option" where
  "pop_all [] out = Some out"
| "pop_all (t # stack) out =
     (if t = 40 then pop_all stack out
      else do { out1 \<leftarrow> put t out; out2 \<leftarrow> put 32 out1; pop_all stack out2 })"

function infix_loop :: "buf \<Rightarrow> buf \<Rightarrow> buf \<Rightarrow> (buf \<times> buf) option" where
  "infix_loop [] stack out = None"
| "infix_loop (c # s) stack out =
     (if c = 0 then Some (stack, out)
      else if c = 32 then infix_loop s stack out
      else if is_digit c
      then do { (rest, out1) \<leftarrow> copy_num (c # s) out; out2 \<leftarrow> put 32 out1; infix_loop rest stack out2 }
      else if c = 40 then do { stack' \<leftarrow> push c stack; infix_loop s stack' out }
      else if c = 41
      then do { (stack', out') \<leftarrow> pop_paren stack out; infix_loop s (drop 1 stack') out' }
      else do { (st, out') \<leftarrow> pop_ops c stack out; stack' \<leftarrow> push c st; infix_loop s stack' out' })"
  by pat_completeness auto
termination
  by (relation "measure (\<lambda>(s, stack, out). length s)") (auto dest: copy_num_shorter simp: less_Suc_eq_le split: bind_splits)

declare evaluate_loop.simps(2) [simp del] infix_loop.simps(2) [simp del]

definition infix_to_postfix :: "buf \<Rightarrow> buf option" where
  "infix_to_postfix s =
     do { (stack, out) \<leftarrow> infix_loop s [] [];
          out' \<leftarrow> pop_all stack out;
          Some (if out' \<noteq> [] then butlast out' @ [0] else [0]) }"

definition calculator_main :: "buf \<Rightarrow> console \<Rightarrow> console option" where
  "calculator_main expression k =
     do { postfix \<leftarrow> infix_to_postfix expression;
          result \<leftarrow> evaluate_postfix postfix;
          kprintf (line ''Result: %d'') [KInt result] k }"

section \<open>Expressions\<close>

datatype expr = Num buf | Bin byte expr expr

definition digits_value :: "buf \<Rightarrow> u32" where
  "digits_value ds = foldl (\<lambda>n c. n * 10 + (ucast c - 48)) 0 ds"

fun eval_expr :: "expr \<Rightarrow> u32 option" where
  "eval_expr (Num ds) = Some (digits_value ds)"
| "eval_expr (Bin op l r) = do { a \<leftarrow> eval_expr l; b \<leftarrow> eval_expr r; apply_op a b op }"

text \<open>
  The text of an expression at a precedence level: operators associate to the left, parentheses
  lower the level, spaces may stand around every subexpression.  The number is the depth of the
  operator stack while the text is read: the operators of a left operand are gone when its right
  neighbour is pushed, an opening parenthesis stays below everything inside of it.
\<close>

inductive shows_expr :: "int \<Rightarrow> nat \<Rightarrow> expr \<Rightarrow> buf \<Rightarrow> bool" where
  number: "ds \<noteq> [] \<Longrightarrow> list_all is_digit ds \<Longrightarrow> shows_expr p 0 (Num ds) ds"
| binary: "op \<in> {43, 45, 42, 47} \<Longrightarrow> p \<le> precedence op \<Longrightarrow> shows_expr (precedence op) dl l sl \<Longrightarrow>
    shows_expr (precedence op + 1) dr r sr \<Longrightarrow> shows_expr p (max dl (Suc dr)) (Bin op l r) (sl @ op # sr)"
| parens: "shows_expr 1 d e s \<Longrightarrow> shows_expr p (Suc d) e (40 # s @ [41])"
| space_before: "shows_expr p d e s \<Longrightarrow> shows_expr p d e (32 # s)"
| space_after: "shows_expr p d e s \<Longrightarrow> shows_expr p d e (s @ [32])"

fun postfix_text :: "expr \<Rightarrow> buf" where
  "postfix_text (Num ds) = ds"
| "postfix_text (Bin op l r) = postfix_text l @ 32 # postfix_text r @ [32, op]"

text \<open>The depth of the value stack during the evaluation.\<close>

fun value_depth :: "expr \<Rightarrow> nat" where
  "value_depth (Num ds) = 1"
| "value_depth (Bin op l r) = max (value_depth l) (Suc (value_depth r))"

lemma not_digit [simp]:
  "\<not> is_digit 0" "\<not> is_digit 32" "\<not> is_digit 40" "\<not> is_digit 41"
  "\<not> is_digit 42" "\<not> is_digit 43" "\<not> is_digit 45" "\<not> is_digit 47"
  by (simp_all add: is_digit_def)

lemma digit_neq: "is_digit c \<Longrightarrow> c \<notin> {0, 32, 40, 41, 42, 43, 45, 47}"
  by auto

section \<open>The translation produces the postfix text\<close>

text \<open>What is still to be written for the operators on the stack.\<close>

definition pending :: "buf \<Rightarrow> buf" where
  "pending ops = concat (map (\<lambda>t. [t, 32]) ops)"

lemma pending_simps [simp]: "pending [] = []" "pending (t # ops) = [t, 32] @ pending ops"
  by (simp_all add: pending_def)

lemma copy_num_eq:
  "list_all is_digit ds \<Longrightarrow> \<not> is_digit c \<Longrightarrow> length out + length ds \<le> 256 \<Longrightarrow>
   copy_num (ds @ c # t) out = Some (c # t, out @ ds)"
  by (induction ds arbitrary: out) (auto simp: put_def)

lemma pop_paren_eq:
  "40 \<notin> set ops \<Longrightarrow> length out + length (pending ops) \<le> 256 \<Longrightarrow>
   pop_paren (ops @ 40 # st) out = Some (40 # st, out @ pending ops)"
  by (induction ops arbitrary: out) (auto simp: put_def)

lemma pop_ops_eq:
  "40 \<notin> set ops \<Longrightarrow> \<forall>t \<in> set ops. precedence c \<le> precedence t \<Longrightarrow> length out + length (pending ops) \<le> 256 \<Longrightarrow>
   st = [] \<or> precedence (hd st) < precedence c \<Longrightarrow>
   pop_ops c (ops @ st) out = Some (st, out @ pending ops)"
proof (induction ops arbitrary: out)
  case Nil
  then show ?case by (cases st) auto
qed (auto simp: put_def)

lemma pop_all_eq:
  "40 \<notin> set ops \<Longrightarrow> length out + length (pending ops) \<le> 256 \<Longrightarrow> pop_all ops out = Some (out @ pending ops)"
  by (induction ops arbitrary: out) (auto simp: put_def)

text \<open>
  Reading the text of an expression leaves some of its operators on the stack; the text written and
  the text pending for them make up the postfix text.
\<close>

definition reads :: "int \<Rightarrow> expr \<Rightarrow> buf \<Rightarrow> buf \<Rightarrow> buf \<Rightarrow> buf \<Rightarrow> bool" where
  "reads p e s rest st out \<longleftrightarrow>
     (\<exists>ops w. infix_loop (s @ rest) st out = infix_loop rest (ops @ st) (out @ w) \<and>
        w @ pending ops = postfix_text e @ [32] \<and> 40 \<notin> set ops \<and> (\<forall>t \<in> set ops. p \<le> precedence t))"

lemma readsE:
  assumes "reads p e s rest st out"
  obtains ops w where "infix_loop (s @ rest) st out = infix_loop rest (ops @ st) (out @ w)"
    "w @ pending ops = postfix_text e @ [32]" "40 \<notin> set ops" "\<forall>t \<in> set ops. p \<le> precedence t"
  using assms unfolding reads_def by blast

lemma reads_number:
  assumes "ds \<noteq> []" "list_all is_digit ds" "\<not> is_digit c" "length out + length ds < 256"
  shows "reads p (Num ds) ds (c # t) st out"
proof -
  obtain d ds' where d: "ds = d # ds'" "is_digit d" using assms(1,2) by (cases ds) auto
  have "infix_loop (ds @ c # t) st out = infix_loop (c # t) st (out @ ds @ [32])"
    using copy_num_eq [OF assms(2,3), of out t] d digit_neq [OF d(2)] assms(4)
    by (simp add: infix_loop.simps(2) put_def)
  then show ?thesis unfolding reads_def by (intro exI [of _ "[]"] exI [of _ "ds @ [32]"]) simp
qed

lemma reads_binary:
  assumes "op \<in> {43, 45, 42, 47}" "p \<le> precedence op"
    and l: "reads (precedence op) l sl (op # sr @ rest) st out"
    and r: "\<And>out'. length out' = length out + length (postfix_text l) + 1 \<Longrightarrow>
      reads (precedence op + 1) r sr rest (op # st) out'"
    and st: "st = [] \<or> precedence (hd st) < precedence op" "length st < 32"
    and len: "length out + length (postfix_text l) < 256"
  shows "reads p (Bin op l r) (sl @ op # sr) rest st out"
proof -
  obtain ops w where 1: "infix_loop (sl @ op # sr @ rest) st out = infix_loop (op # sr @ rest) (ops @ st) (out @ w)"
    "w @ pending ops = postfix_text l @ [32]" "40 \<notin> set ops" "\<forall>t \<in> set ops. precedence op \<le> precedence t"
    using l by (rule readsE)
  have lw: "length w + length (pending ops) = length (postfix_text l) + 1"
    using arg_cong [OF 1(2), of length] by simp
  let ?o = "out @ postfix_text l @ [32]"
  have "pop_ops op (ops @ st) (out @ w) = Some (st, ?o)"
    using pop_ops_eq [OF 1(3,4) _ st(1), of "out @ w"] lw len 1(2) by simp
  then have 2: "infix_loop (op # sr @ rest) (ops @ st) (out @ w) = infix_loop (sr @ rest) (op # st) ?o"
    using assms(1) st(2) by (auto simp: infix_loop.simps(2) push_def)
  have "reads (precedence op + 1) r sr rest (op # st) ?o" by (rule r) simp
  then obtain ops' w' where 3: "infix_loop (sr @ rest) (op # st) ?o = infix_loop rest (ops' @ op # st) (?o @ w')"
    "w' @ pending ops' = postfix_text r @ [32]" "40 \<notin> set ops'" "\<forall>t \<in> set ops'. precedence op + 1 \<le> precedence t"
    by (rule readsE)
  show ?thesis unfolding reads_def
  proof (intro exI conjI)
    show "infix_loop ((sl @ op # sr) @ rest) st out =
        infix_loop rest ((ops' @ [op]) @ st) (out @ postfix_text l @ [32] @ w')"
      using 1(1) 2 3(1) by simp
    show "(postfix_text l @ [32] @ w') @ pending (ops' @ [op]) = postfix_text (Bin op l r) @ [32]"
      using 3(2) by (simp add: pending_def)
    show "40 \<notin> set (ops' @ [op])" using 3(3) assms(1) by auto
    show "\<forall>t \<in> set (ops' @ [op]). p \<le> precedence t" using 3(4) assms(2) by auto
  qed
qed

lemma reads_parens:
  assumes "reads 1 e s (41 # rest) (40 # st) out" "length st < 32" "length out + length (postfix_text e) < 256"
  shows "reads p e (40 # s @ [41]) rest st out"
proof -
  obtain ops w where 1: "infix_loop (s @ 41 # rest) (40 # st) out = infix_loop (41 # rest) (ops @ 40 # st) (out @ w)"
    "w @ pending ops = postfix_text e @ [32]" "40 \<notin> set ops"
    using assms(1) by (rule readsE)
  have "length w + length (pending ops) = length (postfix_text e) + 1"
    using arg_cong [OF 1(2), of length] by simp
  then have "pop_paren (ops @ 40 # st) (out @ w) = Some (40 # st, out @ postfix_text e @ [32])"
    using pop_paren_eq [OF 1(3), of "out @ w"] assms(3) 1(2) by simp
  then have "infix_loop ((40 # s @ [41]) @ rest) st out = infix_loop rest st (out @ postfix_text e @ [32])"
    using 1(1) assms(2) by (simp add: infix_loop.simps(2) push_def)
  then show ?thesis unfolding reads_def by (intro exI [of _ "[]"] exI [of _ "postfix_text e @ [32]"]) simp
qed

lemma infix_loop_reads:
  "shows_expr p d e s \<Longrightarrow> \<not> is_digit c \<Longrightarrow> 1 \<le> p \<Longrightarrow> st = [] \<or> precedence (hd st) < p \<Longrightarrow>
   length st + d \<le> 32 \<Longrightarrow> length out + length (postfix_text e) < 256 \<Longrightarrow> reads p e s (c # t) st out"
proof (induction arbitrary: c t st out rule: shows_expr.induct)
  case (number ds p)
  then show ?case by (intro reads_number) simp_all
next
  case (binary op p dl l sl dr r sr)
  have op: "\<not> is_digit op" "1 \<le> precedence op" using binary.hyps(1) by (auto simp: precedence_def)
  have m: "length st + dl \<le> 32" "length (op # st) + dr \<le> 32" using binary.prems(4) by auto
  have st: "st = [] \<or> precedence (hd st) < precedence op" using binary.prems(3) binary.hyps(2) by auto
  have len: "length out + length (postfix_text l) < 256" using binary.prems(5) by simp
  show ?case
  proof (rule reads_binary [OF binary.hyps(1,2) _ _ st _ len])
    show "reads (precedence op) l sl (op # sr @ c # t) st out"
      by (rule binary.IH(1) [OF op st m(1) len])
    show "reads (precedence op + 1) r sr (c # t) (op # st) out'"
      if "length out' = length out + length (postfix_text l) + 1" for out'
      using binary.IH(2) [OF binary.prems(1), of "op # st" out'] op(2) m(2) that binary.prems(5) by simp
    show "length st < 32" using m(2) by simp
  qed
next
  case (parens d e s p)
  have "reads 1 e s (41 # c # t) (40 # st) out"
    by (rule parens.IH) (use parens.prems in \<open>auto simp: precedence_def\<close>)
  then show ?case using parens.prems by (intro reads_parens) simp_all
next
  case (space_before p d e s)
  then have "reads p e s (c # t) st out" by simp
  then show ?case by (simp add: reads_def infix_loop.simps(2))
next
  case (space_after p d e s)
  then have "reads p e s (32 # c # t) st out" by simp
  then show ?case by (simp add: reads_def infix_loop.simps(2))
qed

lemma infix_to_postfix_eq:
  assumes "shows_expr 1 d e s" "d \<le> 32" "length (postfix_text e) < 256"
  shows "infix_to_postfix (s @ [0]) = Some (postfix_text e @ [0])"
proof -
  obtain ops w where 1: "infix_loop (s @ [0]) [] [] = infix_loop [0] ops w"
    "w @ pending ops = postfix_text e @ [32]" "40 \<notin> set ops"
    using infix_loop_reads [OF assms(1), of 0 "[]" "[]" "[]"] assms(2,3) by (auto elim!: readsE)
  have "length w + length (pending ops) \<le> 256" using arg_cong [OF 1(2), of length] assms(3) by simp
  then have "pop_all ops w = Some (postfix_text e @ [32])" using pop_all_eq [OF 1(3), of w] 1(2) by simp
  then show ?thesis using 1(1) by (simp add: infix_to_postfix_def infix_loop.simps(2))
qed

section \<open>The evaluation of the postfix text\<close>

lemma parse_num_eq:
  "list_all is_digit ds \<Longrightarrow> \<not> is_digit c \<Longrightarrow>
   parse_num (ds @ c # t) n = Some (foldl (\<lambda>n c. n * 10 + (ucast c - 48)) n ds, c # t)"
  by (induction ds arbitrary: n) auto

lemma evaluate_loop_eq:
  "shows_expr p d e s \<Longrightarrow> \<not> is_digit c \<Longrightarrow> length st + value_depth e \<le> 32 \<Longrightarrow>
   evaluate_loop (postfix_text e @ c # t) st = do { v \<leftarrow> eval_expr e; evaluate_loop (c # t) (v # st) }"
proof (induction arbitrary: c t st rule: shows_expr.induct)
  case (number ds p)
  then obtain d ds' where d: "ds = d # ds'" "is_digit d" by (cases ds) auto
  then show ?case
    using parse_num_eq [OF number.hyps(2) number.prems(1), of t 0] digit_neq [OF d(2)] number.prems(2)
    by (simp add: evaluate_loop.simps(2) push_def digits_value_def)
next
  case (binary op p dl l sl dr r sr)
  have n: "1 \<le> value_depth e" for e by (induction e) auto
  have less: "length st < 32" using binary.prems(2) n [of l] by simp
  have L: "evaluate_loop (postfix_text l @ 32 # t') st = do { v \<leftarrow> eval_expr l; evaluate_loop t' (v # st) }" for t'
    using binary.IH(1) [of 32 st t'] binary.prems(2) by (simp add: evaluate_loop.simps(2))
  have R: "evaluate_loop (postfix_text r @ 32 # op # t') (v # st) =
      do { u \<leftarrow> eval_expr r; evaluate_loop (op # t') (u # v # st) }" for v t'
    using binary.IH(2) [of 32 "v # st" "op # t'"] binary.prems(2) n [of l] by (simp add: evaluate_loop.simps(2))
  have O: "evaluate_loop (op # c # t) (u # v # st) = do { x \<leftarrow> apply_op v u op; evaluate_loop (c # t) (x # st) }" for u v
    using binary.hyps(1) less by (auto simp: evaluate_loop.simps(2) [of op] push_def)
  show ?case by (simp add: L R O)
qed auto

text \<open>The three buffers of the calculator: the operator stack, the value stack and the postfix text.\<close>

definition fits_buffers :: "nat \<Rightarrow> expr \<Rightarrow> bool" where
  "fits_buffers d e \<longleftrightarrow> d \<le> 32 \<and> value_depth e \<le> 32 \<and> length (postfix_text e) < 256"

lemma calculator_value:
  assumes "shows_expr 1 d e s" "fits_buffers d e"
  shows "infix_to_postfix (s @ [0]) \<bind> evaluate_postfix = eval_expr e"
  using infix_to_postfix_eq [OF assms(1)] evaluate_loop_eq [OF assms(1), of 0 "[]" "[]"] assms(2)
  by (simp add: evaluate_postfix_def evaluate_loop.simps(2) fits_buffers_def)

lemma infix_evaluates:
  "infix_to_postfix s \<bind> evaluate_postfix = Some v \<Longrightarrow>
   calculator_main s k = kprintf (line ''Result: %d'') [KInt v] k"
  by (auto simp: calculator_main_def split: bind_splits)

lemma infix_traps: "infix_to_postfix s \<bind> evaluate_postfix = None \<Longrightarrow> calculator_main s k = None"
  by (auto simp: calculator_main_def split: bind_splits)

lemma result_text:
  assumes "v \<noteq> 0x80000000"
  shows "kprintf (line ''Result: %d'') [KInt v] k = foldM (\<lambda>c. print_char c 0x07) (bytes ''Result: '' @ int_text v @ [10]) k"
proof -
  have "fmt_ok (line ''Result: %d'') [KInt v]"
    "kformat printed_int (line ''Result: %d'') [KInt v] = bytes ''Result: '' @ int_text v @ [10]"
    using assms by (simp_all add: line_def bytes_def printed_int_def)
  then show ?thesis by (simp add: kprintf_eq)
qed

section \<open>Properties\<close>

text \<open>
  (C23) The calculator is correct: for every well-formed expression (precedence, left associativity,
  any redundant parentheses and spaces) that fits the buffers - at most 32 entries on the operator
  stack, at most 32 values, a postfix text of at most 255 characters - it prints the value of the
  expression in 32-bit arithmetic, and traps exactly when the expression divides by zero or divides
  the smallest integer by -1.  The one value excluded is the smallest integer itself, whose digits
  \<^verbatim>\<open>print_int\<close> gets wrong.
\<close>

theorem calculator_correct:
  assumes "shows_expr 1 d e s" "fits_buffers d e" "eval_expr e \<noteq> Some 0x80000000"
  shows "calculator_main (s @ [0]) k =
    (case eval_expr e of
       Some v \<Rightarrow> foldM (\<lambda>c. print_char c 0x07) (bytes ''Result: '' @ int_text v @ [10]) k
     | None \<Rightarrow> None)"
  using infix_evaluates [of "s @ [0]"] infix_traps [of "s @ [0]"] calculator_value [OF assms(1,2)] assms(3)
  by (auto simp: result_text split: option.splits)

theorem calculator_correct_witness:
  "calculator_main (lit ''2*(3 + 4)'') boot_console = foldM (\<lambda>c. print_char c 0x07) (bytes ''Result: 14'' @ [10]) boot_console"
proof -
  let ?e = "Bin 42 (Num [50]) (Bin 43 (Num [51]) (Num [52]))"
  have n: "shows_expr p 0 (Num [c]) [c]" if "is_digit c" for p c using that by (intro number) simp_all
  have "shows_expr 1 (max 0 (Suc 0)) (Bin 43 (Num [51]) (Num [52])) ([51, 32] @ 43 # [32, 52])"
    using space_after [OF n [of 51 1]] space_before [OF n [of 52 2]]
    by (intro binary) (simp_all add: precedence_def is_digit_def)
  then have "shows_expr 1 (max 0 (Suc (Suc (max 0 (Suc 0))))) ?e ([50] @ 42 # 40 # ([51, 32] @ 43 # [32, 52]) @ [41])"
    using n [of 50 2] by (intro binary [OF _ _ _ parens]) (simp_all add: precedence_def is_digit_def)
  moreover have "fits_buffers (max 0 (Suc (Suc (max 0 (Suc 0))))) ?e" by (simp add: fits_buffers_def)
  moreover have "eval_expr ?e = Some 14" "int_text 14 = bytes ''14''" by code_simp+
  moreover have "lit ''2*(3 + 4)'' = ([50] @ 42 # 40 # ([51, 32] @ 43 # [32, 52]) @ [41]) @ [0]" by code_simp
  moreover have "bytes ''Result: 14'' @ [10] = bytes ''Result: '' @ bytes ''14'' @ [10]" by code_simp
  ultimately show ?thesis
    using calculator_correct [of _ ?e "[50] @ 42 # 40 # ([51, 32] @ 43 # [32, 52]) @ [41]" boot_console] by simp
qed

text \<open>The digits of the smallest integer come out wrong.\<close>

theorem calculator_smallest:
  assumes "shows_expr 1 d e s" "fits_buffers d e" "eval_expr e = Some 0x80000000"
  shows "calculator_main (s @ [0]) k = foldM (\<lambda>c. print_char c 0x07) (bytes ''Result: -./,),(-*,('' @ [10]) k"
proof -
  have "fmt_ok (line ''Result: %d'') [KInt 0x80000000]"
    "kformat printed_int (line ''Result: %d'') [KInt 0x80000000] = bytes ''Result: -./,),(-*,('' @ [10]"
    by (simp_all add: line_def bytes_def printed_int_def)
  then show ?thesis
    using infix_evaluates [of "s @ [0]" "0x80000000"] calculator_value [OF assms(1,2)] assms(3)
    by (simp add: kprintf_eq)
qed

text \<open>A sum of 65 digits has a postfix text of more than 256 characters and leaves the buffer.\<close>

theorem calculator_overflow: "calculator_main (concat (replicate 64 [49, 43]) @ [49, 0]) k = None"
proof -
  have "infix_to_postfix (concat (replicate 64 [49, 43]) @ [49, 0]) = None" by code_simp
  then show ?thesis by (simp add: calculator_main_def)
qed

end
