(* ===== verification/Ata.thy ===== *)
theory Ata
  imports Console_Props
begin

text \<open>
  The disk driver of \<^verbatim>\<open>src/drivers/ata/ata.c\<close>: polling, detection, and the transfer of one sector
  with programmed input and output.  The drive answers through the \<open>device\<close> parameter, which sees the
  whole history of port events; the polling loop is a partial function, so a drive that stays busy
  for ever makes the driver's result \<^term>\<open>None\<close>.  The theorems show that the driver returns on every drive
  that is not busy for ever, that it sends exactly the documented command sequence, and what it does
  with the data.
\<close>

section \<open>Definitions\<close>

definition con_inb :: "device \<Rightarrow> u16 \<Rightarrow> console \<Rightarrow> byte \<times> console" where
  "con_inb dev port k = (let (v, h) = inb dev port (ports k) in (v, k\<lparr>ports := h\<rparr>))"

definition con_outb :: "u16 \<Rightarrow> byte \<Rightarrow> console \<Rightarrow> console" where
  "con_outb port v k = k\<lparr>ports := outb port v (ports k)\<rparr>"

abbreviation (input) ATA_DATA_PORT :: u16 where "ATA_DATA_PORT \<equiv> 0x1F0"
abbreviation (input) ATA_ERROR_PORT :: u16 where "ATA_ERROR_PORT \<equiv> 0x1F1"
abbreviation (input) ATA_SECTOR_COUNT_PORT :: u16 where "ATA_SECTOR_COUNT_PORT \<equiv> 0x1F2"
abbreviation (input) ATA_LBA_LOW_PORT :: u16 where "ATA_LBA_LOW_PORT \<equiv> 0x1F3"
abbreviation (input) ATA_LBA_MID_PORT :: u16 where "ATA_LBA_MID_PORT \<equiv> 0x1F4"
abbreviation (input) ATA_LBA_HIGH_PORT :: u16 where "ATA_LBA_HIGH_PORT \<equiv> 0x1F5"
abbreviation (input) ATA_DRIVE_HEAD_PORT :: u16 where "ATA_DRIVE_HEAD_PORT \<equiv> 0x1F6"
abbreviation (input) ATA_STATUS_CMD_PORT :: u16 where "ATA_STATUS_CMD_PORT \<equiv> 0x1F7"
abbreviation (input) ATA_CMD_READ_SECTORS :: byte where "ATA_CMD_READ_SECTORS \<equiv> 0x20"
abbreviation (input) ATA_CMD_WRITE_SECTORS :: byte where "ATA_CMD_WRITE_SECTORS \<equiv> 0x30"
abbreviation (input) ATA_SR_BSY :: byte where "ATA_SR_BSY \<equiv> 0x80"
abbreviation (input) ATA_SR_DRDY :: byte where "ATA_SR_DRDY \<equiv> 0x40"
abbreviation (input) ATA_SR_DRQ :: byte where "ATA_SR_DRQ \<equiv> 0x08"
abbreviation (input) ATA_SR_ERR :: byte where "ATA_SR_ERR \<equiv> 0x01"

definition ata_status :: "device \<Rightarrow> console \<Rightarrow> byte \<times> console" where
  "ata_status dev k = con_inb dev ATA_STATUS_CMD_PORT k"

definition ata_delay :: "device \<Rightarrow> console \<Rightarrow> console" where
  "ata_delay dev k =
     (let k1 = snd (con_inb dev ATA_STATUS_CMD_PORT k);
          k2 = snd (con_inb dev ATA_STATUS_CMD_PORT k1);
          k3 = snd (con_inb dev ATA_STATUS_CMD_PORT k2)
      in snd (con_inb dev ATA_STATUS_CMD_PORT k3))"

partial_function (option) ata_wait :: "device \<Rightarrow> console \<Rightarrow> console option" where
  "ata_wait dev k =
     (let (v, k') = con_inb dev ATA_STATUS_CMD_PORT k
      in if v AND ATA_SR_BSY \<noteq> 0 then ata_wait dev k' else Some k')"

definition ata_poll :: "device \<Rightarrow> console \<Rightarrow> (byte \<times> console) option" where
  "ata_poll dev k = do { k' \<leftarrow> ata_wait dev k; Some (con_inb dev ATA_STATUS_CMD_PORT k') }"

definition ata_init :: "device \<Rightarrow> console \<Rightarrow> console option" where
  "ata_init dev k =
     (let (s, k1) = ata_status dev (ata_delay dev (con_outb ATA_DRIVE_HEAD_PORT 0xE0 k)) in
      if s = 0xFF then kprintf (line ''ATA: No drive found'') [] k1
      else do { k2 \<leftarrow> kprintf (line ''ATA: Drive found, waiting for ready...'') [] k1;
                (_, k3) \<leftarrow> ata_poll dev k2;
                kprintf (line ''ATA: Drive ready'') [] k3 })"

definition ata_command :: "u32 \<Rightarrow> byte \<Rightarrow> console \<Rightarrow> console" where
  "ata_command lba cmd k =
     con_outb ATA_STATUS_CMD_PORT cmd
      (con_outb ATA_LBA_HIGH_PORT (ucast (drop_bit 16 lba))
       (con_outb ATA_LBA_MID_PORT (ucast (drop_bit 8 lba))
        (con_outb ATA_LBA_LOW_PORT (ucast lba)
         (con_outb ATA_SECTOR_COUNT_PORT 1
          (con_outb ATA_ERROR_PORT 0x00
           (con_outb ATA_DRIVE_HEAD_PORT (ucast (0xE0 OR (drop_bit 24 lba AND 0x0F))) k))))))"

text \<open>One step of the data loops: \<^verbatim>\<open>ptr[i]\<close> is the pair of bytes at \<open>2 * i\<close>, low byte first.\<close>

definition read_word :: "device \<Rightarrow> nat \<Rightarrow> buf \<times> console \<Rightarrow> (buf \<times> console) option" where
  "read_word dev i = (\<lambda>(buffer, k).
     let (v, h) = inw dev ATA_DATA_PORT (ports k) in
     do { b1 \<leftarrow> wr buffer (2 * i) (ucast v);
          b2 \<leftarrow> wr b1 (2 * i + 1) (ucast (drop_bit 8 v));
          Some (b2, k\<lparr>ports := h\<rparr>) })"

definition word_at :: "buf \<Rightarrow> nat \<Rightarrow> u16 option" where
  "word_at buffer i =
     do { lo \<leftarrow> rd buffer (2 * i); hi \<leftarrow> rd buffer (2 * i + 1);
          Some (ucast lo OR push_bit 8 (ucast hi)) }"

definition write_word :: "buf \<Rightarrow> nat \<Rightarrow> console \<Rightarrow> console option" where
  "write_word buffer i k =
     do { v \<leftarrow> word_at buffer i; Some (k\<lparr>ports := outw ATA_DATA_PORT v (ports k)\<rparr>) }"

definition ata_read_sector :: "device \<Rightarrow> u32 \<Rightarrow> buf \<Rightarrow> console \<Rightarrow> (int \<times> buf \<times> console) option" where
  "ata_read_sector dev lba buffer k =
     do { (status, k1) \<leftarrow> ata_poll dev k;
          if status AND ATA_SR_DRDY = 0
          then do { k2 \<leftarrow> kprintf (line ''ATA: Drive not ready for read command'') [] k1; Some (-1, buffer, k2) }
          else do { (status, k2) \<leftarrow> ata_poll dev (ata_command lba ATA_CMD_READ_SECTORS k1);
            if status AND ATA_SR_ERR \<noteq> 0
            then do { k3 \<leftarrow> kprintf (line ''ATA: Read error'') [] k2; Some (-1, buffer, k3) }
            else if status AND ATA_SR_DRQ = 0
            then do { k3 \<leftarrow> kprintf (line ''ATA: DRQ not set after read'') [] k2; Some (-1, buffer, k3) }
            else do { (buffer', k3) \<leftarrow> foldM (read_word dev) [0..<256] (buffer, k2);
                      k4 \<leftarrow> kprintf (line ''ATA: Read sector OK'') [] k3;
                      Some (0, buffer', k4) } } }"

definition ata_write_sector :: "device \<Rightarrow> u32 \<Rightarrow> buf \<Rightarrow> console \<Rightarrow> (int \<times> console) option" where
  "ata_write_sector dev lba buffer k =
     do { (status, k1) \<leftarrow> ata_poll dev k;
          if status AND ATA_SR_DRDY = 0
          then do { k2 \<leftarrow> kprintf (line ''ATA: Drive not ready for write command'') [] k1; Some (-1, k2) }
          else do { (status, k2) \<leftarrow> ata_poll dev (ata_command lba ATA_CMD_WRITE_SECTORS k1);
            if status AND ATA_SR_ERR \<noteq> 0
            then do { k3 \<leftarrow> kprintf (line ''ATA: Write error'') [] k2; Some (-1, k3) }
            else if status AND ATA_SR_DRQ = 0
            then do { k3 \<leftarrow> kprintf (line ''ATA: DRQ not set after write'') [] k2; Some (-1, k3) }
            else do { k3 \<leftarrow> foldM (write_word buffer) [0..<256] k2;
                      (_, k4) \<leftarrow> ata_poll dev (con_outb ATA_STATUS_CMD_PORT 0xE7 k3);
                      k5 \<leftarrow> kprintf (line ''ATA: Write sector OK'') [] k4;
                      Some (0, k5) } } }"

section \<open>The drive's view\<close>

text \<open>What the kernel sent to the drive, newest first; the console's cursor commands go elsewhere.\<close>

definition ata_sent :: "io \<Rightarrow> io" where
  "ata_sent h = filter (\<lambda>e. case e of OutB p v \<Rightarrow> 0x1F0 \<le> p \<and> p \<le> 0x1F7 | OutW p v \<Rightarrow> 0x1F0 \<le> p \<and> p \<le> 0x1F7 | _ \<Rightarrow> False) h"

text \<open>A drive that does not stay busy for ever, however often its status is read.\<close>

definition status_reads :: "device \<Rightarrow> nat \<Rightarrow> io \<Rightarrow> io" where
  "status_reads dev n h = ((\<lambda>h. snd (inb dev 0x1F7 h)) ^^ n) h"

definition gets_ready :: "device \<Rightarrow> bool" where
  "gets_ready dev \<longleftrightarrow> (\<forall>h. \<exists>n. fst (inb dev 0x1F7 (status_reads dev n h)) AND 0x80 = 0)"

definition drive_inv :: "io \<Rightarrow> console \<Rightarrow> bool" where
  "drive_inv E k \<longleftrightarrow> con_inv k \<and> ata_sent (ports k) = E"

lemma con_inv_ports [simp]: "con_inv (k\<lparr>ports := h\<rparr>) = con_inv k"
  by (simp add: con_inv_def)

lemma con_inb_inv: "drive_inv E k \<Longrightarrow> drive_inv E (snd (con_inb dev p k))"
  by (simp add: con_inb_def inb_def Let_def drive_inv_def ata_sent_def)

lemma con_outb_inv:
  "drive_inv E k \<Longrightarrow> 0x1F0 \<le> p \<Longrightarrow> p \<le> 0x1F7 \<Longrightarrow> drive_inv (OutB p v # E) (con_outb p v k)"
  by (simp add: con_outb_def outb_def drive_inv_def ata_sent_def)

lemma sent_update_cursor [simp]: "ata_sent (ports (update_cursor k)) = ata_sent (ports k)"
  by (simp add: update_cursor_def Let_def ata_sent_def outb_def)

lemma sent_show_window: "ata_sent (ports (show_window (advance c color k))) = ata_sent (ports k)"
  by (simp add: show_window_def Let_def, simp add: advance_def Let_def)

lemma print_char_drive: "drive_inv E k \<Longrightarrow> \<exists>k'. print_char c color k = Some k' \<and> drive_inv E k'"
  using print_char_inv [of k c color] by (simp add: drive_inv_def print_char_eq sent_show_window)

lemma plain_format: "37 \<notin> set xs \<Longrightarrow> fmt_ok (xs @ [10, 0]) args"
proof (induction xs)
  case (Cons c xs)
  then show ?case by (cases xs) auto
qed simp

interpretation drive_text: safe_step "\<lambda>c. print_char c 0x07" "drive_inv E" "\<lambda>_. True" for E
  by unfold_locales (rule print_char_drive)

lemma message_drive:
  assumes "drive_inv E k" "37 \<notin> set (bytes s)"
  shows "\<exists>k'. kprintf (line s) [] k = Some k' \<and> drive_inv E k'"
  using drive_text.run_safe [OF assms(1), of "kformat printed_int (line s) []"] plain_format [OF assms(2)]
  by (simp add: line_def kprintf_eq list_all_iff)

text \<open>
  The number of status reads that find the drive busy before the first that does not.  Polling reads
  the status once more after that read; the value of this last read is its result.
\<close>

definition first_ready :: "device \<Rightarrow> nat \<Rightarrow> io \<Rightarrow> bool" where
  "first_ready dev n h \<longleftrightarrow>
     (\<forall>i < n. fst (inb dev 0x1F7 (status_reads dev i h)) AND 0x80 \<noteq> 0) \<and> fst (inb dev 0x1F7 (status_reads dev n h)) AND 0x80 = 0"

definition poll_status :: "device \<Rightarrow> nat \<Rightarrow> io \<Rightarrow> byte" where
  "poll_status dev n h = fst (inb dev 0x1F7 (status_reads dev (n + 1) h))"

definition after_poll :: "device \<Rightarrow> nat \<Rightarrow> io \<Rightarrow> io" where
  "after_poll dev n h = status_reads dev (n + 2) h"

lemma first_readyE:
  assumes "gets_ready dev"
  obtains n where "first_ready dev n h"
proof -
  let ?P = "\<lambda>n. fst (inb dev 0x1F7 (status_reads dev n h)) AND 0x80 = 0"
  obtain n where "?P n" using assms unfolding gets_ready_def by blast
  then obtain m where "?P m" "\<forall>i < m. \<not> ?P i" by (rule exists_least_iff [THEN iffD1, THEN exE, OF exI]) blast
  then show ?thesis using that [of m] by (simp add: first_ready_def)
qed

lemma status_reads_Suc: "status_reads dev (Suc n) h = status_reads dev n (snd (inb dev 0x1F7 h))"
  "status_reads dev (Suc n) h = snd (inb dev 0x1F7 (status_reads dev n h))" "status_reads dev 0 h = h"
  using funpow_swap1 [of "\<lambda>h. snd (inb dev 0x1F7 h)" n h] by (simp_all add: status_reads_def)

lemma con_inb_eq: "con_inb dev p k = (fst (inb dev p (ports k)), k\<lparr>ports := snd (inb dev p (ports k))\<rparr>)"
  by (simp add: con_inb_def split: prod.splits)

lemma wait_eq:
  "first_ready dev n (ports k) \<Longrightarrow> ata_wait dev k = Some (k\<lparr>ports := status_reads dev (Suc n) (ports k)\<rparr>)"
proof (induction n arbitrary: k)
  case 0
  then show ?case by (subst ata_wait.simps) (simp add: first_ready_def con_inb_eq status_reads_Suc)
next
  case (Suc n)
  let ?k = "k\<lparr>ports := snd (inb dev 0x1F7 (ports k))\<rparr>"
  have "fst (inb dev 0x1F7 (status_reads dev 0 (ports k))) AND 0x80 \<noteq> 0" using Suc.prems unfolding first_ready_def by blast
  then have "ata_wait dev k = ata_wait dev ?k" by (subst ata_wait.simps) (simp add: con_inb_eq status_reads_Suc(3))
  moreover have "first_ready dev n (ports ?k)"
    unfolding first_ready_def
  proof (intro conjI allI impI)
    fix i assume "i < n"
    then have "fst (inb dev 0x1F7 (status_reads dev (Suc i) (ports k))) AND 0x80 \<noteq> 0"
      using Suc.prems unfolding first_ready_def by blast
    then show "fst (inb dev 0x1F7 (status_reads dev i (ports ?k))) AND 0x80 \<noteq> 0"
      by (simp add: status_reads_Suc(1))
  qed (use Suc.prems status_reads_Suc(1) [of dev n "ports k"] in \<open>simp add: first_ready_def\<close>)
  ultimately show ?case using Suc.IH [of ?k] status_reads_Suc(1) [of dev "Suc n" "ports k"] by simp
qed

lemma poll_eq:
  assumes "first_ready dev n (ports k)"
  shows "ata_poll dev k = Some (poll_status dev n (ports k), k\<lparr>ports := after_poll dev n (ports k)\<rparr>)"
  using wait_eq [OF assms] by (simp add: ata_poll_def con_inb_eq poll_status_def after_poll_def status_reads_Suc(2))

lemma status_reads_drive: "drive_inv E k \<Longrightarrow> drive_inv E (k\<lparr>ports := status_reads dev n (ports k)\<rparr>)"
  by (induction n) (simp_all add: status_reads_Suc(2,3) drive_inv_def ata_sent_def inb_def Let_def)

lemma after_poll_drive: "drive_inv E k \<Longrightarrow> drive_inv E (k\<lparr>ports := after_poll dev n (ports k)\<rparr>)"
  unfolding after_poll_def by (rule status_reads_drive)

lemma poll_returns:
  assumes "gets_ready dev" "drive_inv E k"
  shows "\<exists>r. ata_poll dev k = Some r \<and> drive_inv E (snd r)"
proof -
  obtain n where "first_ready dev n (ports k)" using first_readyE [OF assms(1)] .
  from poll_eq [OF this] show ?thesis using after_poll_drive [OF assms(2)] by simp
qed

section \<open>The transfers\<close>

text \<open>The task file that a command leaves, newest register first.\<close>

definition task_file :: "u32 \<Rightarrow> byte \<Rightarrow> io" where
  "task_file lba cmd =
     [OutB 0x1F7 cmd, OutB 0x1F5 (ucast (drop_bit 16 lba)), OutB 0x1F4 (ucast (drop_bit 8 lba)), OutB 0x1F3 (ucast lba),
      OutB 0x1F2 1, OutB 0x1F1 0, OutB 0x1F6 (ucast (0xE0 OR (drop_bit 24 lba AND 0x0F)))]"

lemma command_inv: "drive_inv E k \<Longrightarrow> drive_inv (task_file lba cmd @ E) (ata_command lba cmd k)"
  unfolding ata_command_def task_file_def by (simp add: con_outb_inv)

lemma command_eq: "ata_command lba cmd k = k\<lparr>ports := task_file lba cmd @ ports k\<rparr>"
  by (simp add: ata_command_def task_file_def con_outb_def outb_def)

text \<open>The words that the drive delivers, and the words of a buffer.\<close>

definition data_reads :: "device \<Rightarrow> nat \<Rightarrow> io \<Rightarrow> io" where
  "data_reads dev n h = ((\<lambda>h. snd (inw dev 0x1F0 h)) ^^ n) h"

definition delivered :: "device \<Rightarrow> io \<Rightarrow> nat \<Rightarrow> u16" where
  "delivered dev h i = fst (inw dev 0x1F0 (data_reads dev i h))"

definition sector_word :: "buf \<Rightarrow> nat \<Rightarrow> u16" where
  "sector_word b i = ucast (b ! (2 * i)) OR push_bit 8 (ucast (b ! (2 * i + 1)))"

lemma join_bytes: "(ucast (ucast v :: byte) OR push_bit 8 (ucast (ucast (drop_bit 8 v) :: byte))) = (v :: u16)"
proof (rule bit_word_eqI)
  fix n :: nat
  assume "n < LENGTH(16)"
  then show "bit (ucast (ucast v :: byte) OR push_bit 8 (ucast (ucast (drop_bit 8 v) :: byte)) :: u16) n = bit v n"
    by (auto simp: bit_simps not_less)
qed

definition received :: "device \<Rightarrow> io \<Rightarrow> nat \<Rightarrow> buf \<Rightarrow> buf \<Rightarrow> bool" where
  "received dev h n b b' \<longleftrightarrow> length b' = length b \<and> (\<forall>i < n. sector_word b' i = delivered dev h i) \<and>
     drop (2 * n) b' = drop (2 * n) b"

lemma read_words:
  "2 * n \<le> length b \<Longrightarrow> drive_inv E k \<Longrightarrow>
   \<exists>b' k'. foldM (read_word dev) [0..<n] (b, k) = Some (b', k') \<and> drive_inv E k' \<and>
     ports k' = data_reads dev n (ports k) \<and> received dev (ports k) n b b'"
proof (induction n)
  case 0
  then show ?case by (simp add: received_def data_reads_def)
next
  case (Suc n)
  then obtain b1 k1 where 1: "foldM (read_word dev) [0..<n] (b, k) = Some (b1, k1)" "drive_inv E k1"
    "ports k1 = data_reads dev n (ports k)" "length b1 = length b" "\<forall>i < n. sector_word b1 i = delivered dev (ports k) i"
    "drop (2 * n) b1 = drop (2 * n) b" by (auto simp: received_def)
  let ?v = "delivered dev (ports k) n" and ?h = "snd (inw dev 0x1F0 (ports k1))"
  let ?b = "b1[2 * n := ucast ?v, 2 * n + 1 := ucast (drop_bit 8 ?v)]"
  have "read_word dev n (b1, k1) = Some (?b, k1\<lparr>ports := ?h\<rparr>)"
    using Suc.prems(1) 1(3,4) by (simp add: read_word_def delivered_def split: prod.splits)
  moreover have "drive_inv E (k1\<lparr>ports := ?h\<rparr>)"
    using 1(2) by (simp add: drive_inv_def ata_sent_def inw_def Let_def)
  moreover have "?h = data_reads dev (Suc n) (ports k)" by (simp add: data_reads_def 1(3))
  moreover have "sector_word ?b i = delivered dev (ports k) i" if "i < Suc n" for i
    using that 1(4,5) Suc.prems(1) join_bytes [of ?v] by (cases "i = n") (auto simp: sector_word_def)
  moreover have "drop (2 * Suc n) ?b = drop (2 * Suc n) b"
    using arg_cong [OF 1(6), of "drop 2"] by simp
  ultimately show ?case using 1(1,4) by (simp add: received_def)
qed

lemma write_words:
  "2 * n \<le> length b \<Longrightarrow> drive_inv E k \<Longrightarrow>
   \<exists>k'. foldM (write_word b) [0..<n] k = Some k' \<and> drive_inv (rev (map (\<lambda>i. OutW 0x1F0 (sector_word b i)) [0..<n]) @ E) k'"
proof (induction n)
  case (Suc n)
  then obtain k1 where 1: "foldM (write_word b) [0..<n] k = Some k1"
    "drive_inv (rev (map (\<lambda>i. OutW 0x1F0 (sector_word b i)) [0..<n]) @ E) k1" by auto
  have "word_at b n = Some (sector_word b n)" using Suc.prems(1) by (simp add: word_at_def sector_word_def)
  then have "write_word b n k1 = Some (k1\<lparr>ports := OutW 0x1F0 (sector_word b n) # ports k1\<rparr>)"
    by (simp add: write_word_def outw_def)
  then show ?case using 1 by (simp add: drive_inv_def ata_sent_def)
qed simp

lemma report:
  assumes "drive_inv F k1" "37 \<notin> set (bytes s)"
  obtains k2 where "kprintf (line s) [] k1 = Some k2" "drive_inv F k2"
  using message_drive [OF assms] by blast

lemma read_sector_eq:
  fixes dev lba n1 n2 k
  defines "s1 \<equiv> poll_status dev n1 (ports k)" and "h1 \<equiv> task_file lba 0x20 @ after_poll dev n1 (ports k)"
  defines "s2 \<equiv> poll_status dev n2 h1" and "h2 \<equiv> after_poll dev n2 h1"
  assumes "first_ready dev n1 (ports k)" "first_ready dev n2 h1" "drive_inv E k" "512 \<le> length b"
  shows "s1 AND 0x40 = 0 \<Longrightarrow> \<exists>k'. ata_read_sector dev lba b k = Some (-1, b, k') \<and> drive_inv E k'"
    "s1 AND 0x40 \<noteq> 0 \<Longrightarrow> s2 AND 0x01 \<noteq> 0 \<or> s2 AND 0x08 = 0 \<Longrightarrow>
      \<exists>k'. ata_read_sector dev lba b k = Some (-1, b, k') \<and> drive_inv (task_file lba 0x20 @ E) k'"
    "s1 AND 0x40 \<noteq> 0 \<Longrightarrow> s2 AND 0x01 = 0 \<Longrightarrow> s2 AND 0x08 \<noteq> 0 \<Longrightarrow>
      \<exists>b' k'. ata_read_sector dev lba b k = Some (0, b', k') \<and> drive_inv (task_file lba 0x20 @ E) k' \<and> received dev h2 256 b b'"
proof -
  let ?E = "task_file lba 0x20 @ E" and ?k1 = "k\<lparr>ports := after_poll dev n1 (ports k)\<rparr>" and ?k2 = "k\<lparr>ports := h2\<rparr>"
  have 1: "ata_poll dev k = Some (s1, ?k1)" "drive_inv E ?k1"
    using poll_eq [OF assms(5)] after_poll_drive [OF assms(7)] by (simp_all add: s1_def)
  have c: "ata_command lba 0x20 ?k1 = k\<lparr>ports := h1\<rparr>" by (simp add: command_eq h1_def)
  have 2: "ata_poll dev (ata_command lba 0x20 ?k1) = Some (s2, ?k2)" "drive_inv ?E ?k2"
    using poll_eq [of dev n2 "k\<lparr>ports := h1\<rparr>"] assms(6) after_poll_drive [OF command_inv [OF 1(2), of lba "0x20"], of dev n2]
    by (simp_all add: c s2_def h2_def)
  show "\<exists>k'. ata_read_sector dev lba b k = Some (-1, b, k') \<and> drive_inv E k'" if "s1 AND 0x40 = 0"
    by (rule report [OF 1(2), of "''ATA: Drive not ready for read command''"])
      (use 1(1) that in \<open>auto simp: ata_read_sector_def bytes_def\<close>)
  show "\<exists>k'. ata_read_sector dev lba b k = Some (-1, b, k') \<and> drive_inv ?E k'"
    if a: "s1 AND 0x40 \<noteq> 0" "s2 AND 0x01 \<noteq> 0 \<or> s2 AND 0x08 = 0"
  proof (cases "s2 AND 0x01 = 0")
    case False
    show ?thesis by (rule report [OF 2(2), of "''ATA: Read error''"])
      (use 1(1) 2(1) a(1) False in \<open>auto simp: ata_read_sector_def bytes_def\<close>)
  next
    case True
    show ?thesis by (rule report [OF 2(2), of "''ATA: DRQ not set after read''"])
      (use 1(1) 2(1) a True in \<open>auto simp: ata_read_sector_def bytes_def\<close>)
  qed
  show "\<exists>b' k'. ata_read_sector dev lba b k = Some (0, b', k') \<and> drive_inv ?E k' \<and> received dev h2 256 b b'"
    if a: "s1 AND 0x40 \<noteq> 0" "s2 AND 0x01 = 0" "s2 AND 0x08 \<noteq> 0"
  proof -
    obtain b3 k3 where 3: "foldM (read_word dev) [0..<256] (b, ?k2) = Some (b3, k3)" "drive_inv ?E k3" "received dev h2 256 b b3"
      using read_words [of 256 b, OF _ 2(2), of dev] assms(8) by auto
    show ?thesis by (rule report [OF 3(2), of "''ATA: Read sector OK''"])
      (use 1(1) 2(1) 3 a in \<open>auto simp: ata_read_sector_def bytes_def simp del: upt_rec_numeral\<close>)
  qed
qed

text \<open>What a write sends after the task file, newest first.\<close>

definition sector_data :: "buf \<Rightarrow> io" where
  "sector_data b = OutB 0x1F7 0xE7 # rev (map (\<lambda>i. OutW 0x1F0 (sector_word b i)) [0..<256])"

lemma write_sector_eq:
  fixes dev lba n1 n2 k
  defines "s1 \<equiv> poll_status dev n1 (ports k)" and "h1 \<equiv> task_file lba 0x30 @ after_poll dev n1 (ports k)"
  defines "s2 \<equiv> poll_status dev n2 h1"
  assumes "first_ready dev n1 (ports k)" "first_ready dev n2 h1" "drive_inv E k" "512 \<le> length b" "gets_ready dev"
  shows "s1 AND 0x40 = 0 \<Longrightarrow> \<exists>k'. ata_write_sector dev lba b k = Some (-1, k') \<and> drive_inv E k'"
    "s1 AND 0x40 \<noteq> 0 \<Longrightarrow> s2 AND 0x01 \<noteq> 0 \<or> s2 AND 0x08 = 0 \<Longrightarrow>
      \<exists>k'. ata_write_sector dev lba b k = Some (-1, k') \<and> drive_inv (task_file lba 0x30 @ E) k'"
    "s1 AND 0x40 \<noteq> 0 \<Longrightarrow> s2 AND 0x01 = 0 \<Longrightarrow> s2 AND 0x08 \<noteq> 0 \<Longrightarrow>
      \<exists>k'. ata_write_sector dev lba b k = Some (0, k') \<and> drive_inv (sector_data b @ task_file lba 0x30 @ E) k'"
proof -
  let ?E = "task_file lba 0x30 @ E" and ?k1 = "k\<lparr>ports := after_poll dev n1 (ports k)\<rparr>" and ?k2 = "k\<lparr>ports := after_poll dev n2 h1\<rparr>"
  let ?W = "rev (map (\<lambda>i. OutW 0x1F0 (sector_word b i)) [0..<256])"
  have 1: "ata_poll dev k = Some (s1, ?k1)" "drive_inv E ?k1"
    using poll_eq [OF assms(4)] after_poll_drive [OF assms(6)] by (simp_all add: s1_def)
  have c: "ata_command lba 0x30 ?k1 = k\<lparr>ports := h1\<rparr>" by (simp add: command_eq h1_def)
  have 2: "ata_poll dev (ata_command lba 0x30 ?k1) = Some (s2, ?k2)" "drive_inv ?E ?k2"
    using poll_eq [of dev n2 "k\<lparr>ports := h1\<rparr>"] assms(5) after_poll_drive [OF command_inv [OF 1(2), of lba "0x30"], of dev n2]
    by (simp_all add: c s2_def)
  show "\<exists>k'. ata_write_sector dev lba b k = Some (-1, k') \<and> drive_inv E k'" if "s1 AND 0x40 = 0"
    by (rule report [OF 1(2), of "''ATA: Drive not ready for write command''"])
      (use 1(1) that in \<open>auto simp: ata_write_sector_def bytes_def\<close>)
  show "\<exists>k'. ata_write_sector dev lba b k = Some (-1, k') \<and> drive_inv ?E k'"
    if a: "s1 AND 0x40 \<noteq> 0" "s2 AND 0x01 \<noteq> 0 \<or> s2 AND 0x08 = 0"
  proof (cases "s2 AND 0x01 = 0")
    case False
    show ?thesis by (rule report [OF 2(2), of "''ATA: Write error''"])
      (use 1(1) 2(1) a(1) False in \<open>auto simp: ata_write_sector_def bytes_def\<close>)
  next
    case True
    show ?thesis by (rule report [OF 2(2), of "''ATA: DRQ not set after write''"])
      (use 1(1) 2(1) a True in \<open>auto simp: ata_write_sector_def bytes_def\<close>)
  qed
  show "\<exists>k'. ata_write_sector dev lba b k = Some (0, k') \<and> drive_inv (sector_data b @ ?E) k'"
    if a: "s1 AND 0x40 \<noteq> 0" "s2 AND 0x01 = 0" "s2 AND 0x08 \<noteq> 0"
  proof -
    obtain k3 where 3: "foldM (write_word b) [0..<256] ?k2 = Some k3" "drive_inv (?W @ ?E) k3"
      using write_words [of 256 b, OF _ 2(2)] assms(7) by (auto simp del: upt_rec_numeral)
    obtain s4 k4 where 4: "ata_poll dev (con_outb 0x1F7 0xE7 k3) = Some (s4, k4)" "drive_inv (sector_data b @ ?E) k4"
      using poll_returns [OF assms(8) con_outb_inv [OF 3(2), of "0x1F7" "0xE7"]]
      by (auto simp: sector_data_def simp del: upt_rec_numeral)
    show ?thesis by (rule report [OF 4(2), of "''ATA: Write sector OK''"])
      (use 1(1) 2(1) 3(1) 4(1) a in \<open>auto simp: ata_write_sector_def bytes_def simp del: upt_rec_numeral\<close>)
  qed
qed

lemma init_returns:
  assumes "gets_ready dev" "con_inv k"
  shows "\<exists>k'. ata_init dev k = Some k' \<and> con_inv k'"
proof -
  let ?k = "con_outb 0x1F6 0xE0 k"
  have "drive_inv (OutB 0x1F6 0xE0 # ata_sent (ports k)) ?k"
    by (rule con_outb_inv) (use assms(2) in \<open>simp_all add: drive_inv_def\<close>)
  then have "drive_inv (OutB 0x1F6 0xE0 # ata_sent (ports k)) (snd (ata_status dev (ata_delay dev ?k)))"
    by (simp add: ata_status_def ata_delay_def Let_def con_inb_inv)
  then obtain s1 k1 E where 1: "ata_status dev (ata_delay dev ?k) = (s1, k1)" "drive_inv E k1"
    by (metis prod.collapse)
  obtain k2 where 2: "kprintf (line ''ATA: Drive found, waiting for ready...'') [] k1 = Some k2" "drive_inv E k2"
    using message_drive [OF 1(2), of "''ATA: Drive found, waiting for ready...''"] by (auto simp: bytes_def)
  obtain s3 k3 where 3: "ata_poll dev k2 = Some (s3, k3)" "drive_inv E k3" using poll_returns [OF assms(1) 2(2)] by auto
  show ?thesis
    using 1(1) 2(1) 3(1) message_drive [OF 3(2), of "''ATA: Drive ready''"] message_drive [OF 1(2), of "''ATA: No drive found''"]
    by (auto simp: ata_init_def bytes_def drive_inv_def)
qed

text \<open>The task file carries the low 28 bits of the sector number.\<close>

lemma task_file_lba:
  "(ucast (ucast lba :: byte) OR push_bit 8 (ucast (ucast (drop_bit 8 lba) :: byte)) OR
    push_bit 16 (ucast (ucast (drop_bit 16 lba) :: byte)) OR
    push_bit 24 (ucast (ucast (0xE0 OR (drop_bit 24 lba AND 0x0F)) :: byte) AND 0x0F)) = take_bit 28 (lba :: u32)"
proof (rule bit_word_eqI)
  fix n :: nat
  have f: "(0x0F :: u32) = mask 4" "(0xE0 :: u32) = push_bit 5 (mask 3)" by (simp_all add: mask_eq_exp_minus_1)
  assume "n < LENGTH(32)"
  then consider "n < 8" | "8 \<le> n" "n < 16" | "16 \<le> n" "n < 24" | "24 \<le> n" "n < 28" | "28 \<le> n" "n < 32" by fastforce
  then show "bit (ucast (ucast lba :: byte) OR push_bit 8 (ucast (ucast (drop_bit 8 lba) :: byte)) OR
    push_bit 16 (ucast (ucast (drop_bit 16 lba) :: byte)) OR
    push_bit 24 (ucast (ucast (0xE0 OR (drop_bit 24 lba AND 0x0F)) :: byte) AND 0x0F) :: u32) n = bit (take_bit 28 lba) n"
    unfolding f by cases (auto simp: bit_simps)
qed

section \<open>Properties\<close>

text \<open>
  (C24) Reading a sector on a drive that does not stay busy for ever returns, and its result is
  decided by the two statuses that the drive gives after its busy phases.  Not ready (bit 6 clear):
  -1, and no command is sent.  Ready, and after the read command an error (bit 0) or no data request
  (bit 3 clear): -1, the buffer untouched.  Otherwise 0, and the first 512 bytes of the buffer are the
  first 256 words that the drive delivers after its status, in order, the rest as before; exactly the
  read command for the sector was sent.
\<close>

theorem ata_read_delivers:
  assumes "gets_ready dev" "con_inv k" "512 \<le> length buffer"
  shows "\<exists>n1 n2 k'. let s1 = poll_status dev n1 (ports k); h1 = task_file lba 0x20 @ after_poll dev n1 (ports k);
       s2 = poll_status dev n2 h1; h2 = after_poll dev n2 h1 in
     first_ready dev n1 (ports k) \<and> first_ready dev n2 h1 \<and> con_inv k' \<and>
     (if s1 AND 0x40 = 0
      then ata_read_sector dev lba buffer k = Some (-1, buffer, k') \<and> ata_sent (ports k') = ata_sent (ports k)
      else ata_sent (ports k') = task_file lba 0x20 @ ata_sent (ports k) \<and>
        (if s2 AND 0x01 \<noteq> 0 \<or> s2 AND 0x08 = 0 then ata_read_sector dev lba buffer k = Some (-1, buffer, k')
         else \<exists>b'. ata_read_sector dev lba buffer k = Some (0, b', k') \<and> length b' = length buffer \<and>
           (\<forall>i < 256. sector_word b' i = delivered dev h2 i) \<and> drop 512 b' = drop 512 buffer))"
proof -
  obtain n1 where n1: "first_ready dev n1 (ports k)" using first_readyE [OF assms(1)] .
  obtain n2 where n2: "first_ready dev n2 (task_file lba 0x20 @ after_poll dev n1 (ports k))" using first_readyE [OF assms(1)] .
  have "drive_inv (ata_sent (ports k)) k" using assms(2) by (simp add: drive_inv_def)
  note r = read_sector_eq [OF n1 n2 this assms(3)]
  show ?thesis
    using n1 n2 r by (intro exI [of _ n1] exI [of _ n2]) (fastforce simp: Let_def drive_inv_def received_def)
qed

lemma ready_drive: "gets_ready (\<lambda>h p. 0x48)" "poll_status (\<lambda>h p. 0x48) n h = 0x48" "delivered (\<lambda>h p. 0x48) h i = 0x48"
  by (simp_all add: gets_ready_def poll_status_def delivered_def inb_def inw_def)

theorem ata_read_delivers_witness:
  "\<exists>b' k'. ata_read_sector (\<lambda>h p. 0x48) 7 (replicate 512 0) boot_console = Some (0, b', k') \<and> con_inv k' \<and>
     sector_word b' 255 = 0x48"
  using ata_read_delivers [OF ready_drive(1) boot_console_inv, of "replicate 512 0" 7]
  by (auto simp: Let_def ready_drive)

text \<open>
  (C25) Writing a sector on a drive that does not stay busy for ever returns, and its result is
  decided by the two statuses that the drive gives after its busy phases.  Not ready (bit 6 clear):
  -1, and nothing is sent.  Ready, and after the write command an error (bit 0) or no data request
  (bit 3 clear): -1, and only the command was sent.  Otherwise 0, and the drive received exactly the
  write command for the sector, the 256 words of the buffer in order, and the cache flush.
\<close>

theorem ata_write_sends:
  assumes "gets_ready dev" "con_inv k" "512 \<le> length buffer"
  shows "\<exists>n1 n2 k'. let s1 = poll_status dev n1 (ports k); h1 = task_file lba 0x30 @ after_poll dev n1 (ports k);
       s2 = poll_status dev n2 h1 in
     first_ready dev n1 (ports k) \<and> first_ready dev n2 h1 \<and> con_inv k' \<and>
     (if s1 AND 0x40 = 0
      then ata_write_sector dev lba buffer k = Some (-1, k') \<and> ata_sent (ports k') = ata_sent (ports k)
      else if s2 AND 0x01 \<noteq> 0 \<or> s2 AND 0x08 = 0
      then ata_write_sector dev lba buffer k = Some (-1, k') \<and> ata_sent (ports k') = task_file lba 0x30 @ ata_sent (ports k)
      else ata_write_sector dev lba buffer k = Some (0, k') \<and>
        ata_sent (ports k') = OutB 0x1F7 0xE7 # rev (map (\<lambda>i. OutW 0x1F0 (sector_word buffer i)) [0..<256]) @
          task_file lba 0x30 @ ata_sent (ports k))"
proof -
  obtain n1 where n1: "first_ready dev n1 (ports k)" using first_readyE [OF assms(1)] .
  obtain n2 where n2: "first_ready dev n2 (task_file lba 0x30 @ after_poll dev n1 (ports k))" using first_readyE [OF assms(1)] .
  have "drive_inv (ata_sent (ports k)) k" using assms(2) by (simp add: drive_inv_def)
  note r = write_sector_eq [OF n1 n2 this assms(3,1)]
  show ?thesis
    using n1 n2 r by (intro exI [of _ n1] exI [of _ n2]) (fastforce simp: Let_def drive_inv_def sector_data_def simp del: upt_rec_numeral)
qed

theorem ata_write_sends_witness:
  "\<exists>k'. ata_write_sector (\<lambda>h p. 0x48) 7 (replicate 512 1) boot_console = Some (0, k') \<and> con_inv k' \<and>
     hd (ata_sent (ports k')) = OutB 0x1F7 0xE7"
  using ata_write_sends [OF ready_drive(1) boot_console_inv, of "replicate 512 1" 7]
  by (auto simp: Let_def ready_drive simp del: upt_rec_numeral)

end
