(* ===== verification/Interrupts.thy ===== *)
theory Interrupts
  imports Console_Props
begin

text \<open>
  Interrupt dispatch: the descriptor table (\<^verbatim>\<open>src/arch/i386/idt.c\<close>), exceptions
  (\<^verbatim>\<open>isr.c\<close>), hardware interrupts (\<^verbatim>\<open>irq.c\<close>, \<^verbatim>\<open>pic.c\<close>), the timer (\<^verbatim>\<open>timer.c\<close>), the CPU usage counters
  (\<^verbatim>\<open>src/kernel/cpu.c\<close>) and the keyboard driver (\<^verbatim>\<open>src/drivers/keyboard_driver.c\<close>).  The C handlers that
  are ever installed are the constructors of \<open>routine\<close>; the addresses of the assembly stubs are
  a parameter.  The in and out instructions work on the history of port events.
\<close>

section \<open>Definitions\<close>

record idt_entry =
  offset_low :: u16
  selector :: u16
  zero :: byte
  type_attr :: byte
  offset_high :: u16

record idt_ptr =
  idt_limit :: u16
  idt_base :: u32

datatype routine = Timer_handler | Keyboard_handler | Page_fault_handler

record kbd =
  last_char :: byte
  last_scancode :: byte
  ctrl_pressed :: bool

record interrupts =
  idt :: "idt_entry list"
  idtp :: idt_ptr
  interrupt_handlers :: "routine option list"
  irq_routines :: "routine option list"
  timer_ticks :: u32
  idle_ticks :: u32
  total_ticks :: u32
  keyboard :: kbd

subsection \<open>Descriptor table and exceptions\<close>

definition idt_set_gate :: "nat \<Rightarrow> u32 \<Rightarrow> interrupts \<Rightarrow> interrupts option" where
  "idt_set_gate n handler s =
     do { t \<leftarrow> wr (idt s) n \<lparr>offset_low = ucast (handler AND 0xFFFF), selector = 0x08, zero = 0,
                 type_attr = 0x8E, offset_high = ucast (drop_bit 16 handler AND 0xFFFF)\<rparr>;
          Some (s\<lparr>idt := t\<rparr>) }"

definition idt_install :: "u32 \<Rightarrow> interrupts \<Rightarrow> interrupts" where
  "idt_install idt_addr s =
     s\<lparr>idtp := \<lparr>idt_limit = 8 * 256 - 1, idt_base = idt_addr\<rparr>,
       idt := replicate 256 \<lparr>offset_low = 0, selector = 0, zero = 0, type_attr = 0, offset_high = 0\<rparr>\<rparr>"

definition register_interrupt_handler :: "byte \<Rightarrow> routine \<Rightarrow> interrupts \<Rightarrow> interrupts option" where
  "register_interrupt_handler n h s =
     do { t \<leftarrow> wr (interrupt_handlers s) (unat n) (Some h); Some (s\<lparr>interrupt_handlers := t\<rparr>) }"

definition isr_install :: "(nat \<Rightarrow> u32) \<Rightarrow> interrupts \<Rightarrow> interrupts option" where
  "isr_install isr_stub s =
     do { t \<leftarrow> foldM (\<lambda>i t. wr t i None) [0..<256] (interrupt_handlers s);
          foldM (\<lambda>i. idt_set_gate i (isr_stub i)) [0..<32] (s\<lparr>interrupt_handlers := t\<rparr>) }"

subsection \<open>The interrupt controllers\<close>

definition pic_remap :: "device \<Rightarrow> byte \<Rightarrow> byte \<Rightarrow> io \<Rightarrow> io" where
  "pic_remap dev offset1 offset2 h0 =
     (let (a1, h1) = inb dev 0x21 h0; (a2, h2) = inb dev 0xA1 h1;
          h3 = outb 0xA0 0x11 (outb 0x20 0x11 h2);
          h4 = outb 0xA1 offset2 (outb 0x21 offset1 h3);
          h5 = outb 0xA1 2 (outb 0x21 4 h4);
          h6 = outb 0xA1 0x01 (outb 0x21 0x01 h5)
      in outb 0xA1 a2 (outb 0x21 a1 h6))"

definition pic_send_eoi :: "byte \<Rightarrow> io \<Rightarrow> io" where
  "pic_send_eoi irq h = outb 0x20 0x20 (if irq \<ge> 8 then outb 0xA0 0x20 h else h)"

definition irq_install_handler :: "nat \<Rightarrow> routine \<Rightarrow> interrupts \<Rightarrow> interrupts option" where
  "irq_install_handler irq h s =
     do { t \<leftarrow> wr (irq_routines s) irq (Some h); Some (s\<lparr>irq_routines := t\<rparr>) }"

definition irq_uninstall_handler :: "nat \<Rightarrow> interrupts \<Rightarrow> interrupts option" where
  "irq_uninstall_handler irq s =
     do { t \<leftarrow> wr (irq_routines s) irq None; Some (s\<lparr>irq_routines := t\<rparr>) }"

definition irq_install :: "device \<Rightarrow> (nat \<Rightarrow> u32) \<Rightarrow> interrupts \<times> io \<Rightarrow> (interrupts \<times> io) option" where
  "irq_install dev irq_stub = (\<lambda>(s, h).
     let h1 = pic_remap dev 0x20 0x28 h in
     do { s' \<leftarrow> foldM (\<lambda>i. idt_set_gate (32 + i) (irq_stub i)) [0..<16] s;
          Some (s', outb 0xA1 0x00 (outb 0x21 0x00 h1)) })"

subsection \<open>Timer, CPU usage, keyboard\<close>

definition cpu_tick :: "interrupts \<Rightarrow> interrupts" where
  "cpu_tick s = s\<lparr>total_ticks := total_ticks s + 1\<rparr>"

definition cpu_get_usage :: "interrupts \<Rightarrow> u32" where
  "cpu_get_usage s = (if total_ticks s = 0 then 0 else 100 - (idle_ticks s * 100) div total_ticks s)"

definition timer_handler :: "interrupts \<Rightarrow> interrupts" where
  "timer_handler s = cpu_tick (s\<lparr>timer_ticks := timer_ticks s + 1\<rparr>)"

definition timer_install :: "interrupts \<times> io \<Rightarrow> (interrupts \<times> io) option" where
  "timer_install = (\<lambda>(s, h).
     let divisor = (1193182 div 100 :: u32);
         l = (ucast (divisor AND 0xFF) :: byte); hi = (ucast (drop_bit 8 divisor AND 0xFF) :: byte);
         h' = outb 0x40 hi (outb 0x40 l (outb 0x43 0x36 h))
     in do { s' \<leftarrow> irq_install_handler 0 Timer_handler s; Some (s', h') })"

definition kbd_us :: buf where
  "kbd_us = [0, 27] @ bytes ''1234567890-='' @ [8, 9] @ bytes ''qwertyuiop[]'' @ [10, 0] @
     bytes ''asdfghjkl;'' @ [39, 96, 0, 92] @ bytes ''zxcvbnm,./'' @ [0, 42, 0, 32] @ replicate 70 0"

definition keyboard_handler :: "device \<Rightarrow> kbd \<times> io \<Rightarrow> (kbd \<times> io) option" where
  "keyboard_handler dev = (\<lambda>(k, h).
     let (scancode, h') = inb dev 0x60 h; k1 = k\<lparr>last_scancode := scancode\<rparr> in
     if scancode AND 0x80 \<noteq> 0
     then Some (if scancode = 0x9D then k1\<lparr>ctrl_pressed := False\<rparr> else k1, h')
     else if scancode = 0x1D then Some (k1\<lparr>ctrl_pressed := True\<rparr>, h')
     else if scancode = 0x48 then Some (k1\<lparr>last_char := 0x48\<rparr>, h')
     else if scancode = 0x50 then Some (k1\<lparr>last_char := 0x50\<rparr>, h')
     else if scancode < 128
     then if ctrl_pressed k1 then Some (k1\<lparr>last_char := 0\<rparr>, h')
          else do { c \<leftarrow> rd kbd_us (unat scancode); Some (k1\<lparr>last_char := c\<rparr>, h') }
     else Some (k1, h'))"

definition keyboard_install :: "interrupts \<Rightarrow> interrupts option" where
  "keyboard_install s = irq_install_handler 1 Keyboard_handler s"

definition keyboard_get_char :: "kbd \<Rightarrow> byte \<times> kbd" where
  "keyboard_get_char k = (if last_char k \<noteq> 0 then (last_char k, k\<lparr>last_char := 0\<rparr>) else (0, k))"

subsection \<open>Dispatch\<close>

text \<open>
  The timer and keyboard handlers return; the page fault handler prints the address of the fault
  (register CR2, an argument here) and the error code, and then halts: its result is the screen.
\<close>

definition call_routine :: "device \<Rightarrow> routine \<Rightarrow> interrupts \<times> io \<Rightarrow> (interrupts \<times> io) option" where
  "call_routine dev r = (\<lambda>(s, h).
     case r of
       Timer_handler \<Rightarrow> Some (timer_handler s, h)
     | Keyboard_handler \<Rightarrow>
         do { (k, h') \<leftarrow> keyboard_handler dev (keyboard s, h); Some (s\<lparr>keyboard := k\<rparr>, h') }
     | Page_fault_handler \<Rightarrow> None)"

definition irq_handler :: "device \<Rightarrow> u32 \<Rightarrow> interrupts \<times> io \<Rightarrow> (interrupts \<times> io) option" where
  "irq_handler dev int_no = (\<lambda>(s, h).
     do { handler \<leftarrow> rd (irq_routines s) (unat (int_no - 32));
          (s', h') \<leftarrow> (case handler of Some r \<Rightarrow> call_routine dev r (s, h) | None \<Rightarrow> Some (s, h));
          Some (s', pic_send_eoi (ucast (int_no - 32)) h') })"

text \<open>
  The two waiting loops look at the keyboard state after every interrupt that arrives: they return
  the key (\<open>Inr\<close>, with the interrupts that are still to come) or wait for more interrupts (\<open>Inl\<close>).
  \<^verbatim>\<open>keyboard_get_scancode\<close> looks before it waits, \<^verbatim>\<open>keyboard_get_char_blocking\<close> halts first.
\<close>

fun keyboard_get_scancode :: "device \<Rightarrow> u32 list \<Rightarrow> interrupts \<times> io \<Rightarrow>
    (interrupts \<times> io + byte \<times> u32 list \<times> interrupts \<times> io) option" where
  "keyboard_get_scancode dev arriving (s, h) =
     (if last_scancode (keyboard s) = 0
      then case arriving of
             [] \<Rightarrow> Some (Inl (s, h))
           | int_no # rest \<Rightarrow> do { s' \<leftarrow> irq_handler dev int_no (s, h); keyboard_get_scancode dev rest s' }
      else Some (Inr (last_scancode (keyboard s), arriving, s\<lparr>keyboard := keyboard s\<lparr>last_scancode := 0\<rparr>\<rparr>, h)))"

fun keyboard_get_char_blocking :: "device \<Rightarrow> u32 list \<Rightarrow> interrupts \<times> io \<Rightarrow>
    (interrupts \<times> io + byte \<times> u32 list \<times> interrupts \<times> io) option" where
  "keyboard_get_char_blocking dev [] s = Some (Inl s)"
| "keyboard_get_char_blocking dev (int_no # rest) s =
     do { (s', h') \<leftarrow> irq_handler dev int_no s;
          let c = last_char (keyboard s');
          if c = 0 then keyboard_get_char_blocking dev rest (s', h')
          else Some (Inr (c, rest, s'\<lparr>keyboard := keyboard s'\<lparr>last_char := 0\<rparr>\<rparr>, h')) }"

text \<open>\<^verbatim>\<open>hlt\<close> in \<^verbatim>\<open>cpu_idle\<close> waits for an interrupt; the interrupts that arrive are an argument.\<close>

definition cpu_idle :: "device \<Rightarrow> u32 list \<Rightarrow> interrupts \<times> io \<Rightarrow> (interrupts \<times> io) option" where
  "cpu_idle dev arriving s =
     do { (s', h') \<leftarrow> foldM (irq_handler dev) arriving s;
          Some (s'\<lparr>idle_ticks := idle_ticks s' + 1\<rparr>, h') }"

definition page_fault_handler :: "u32 \<Rightarrow> u32 \<Rightarrow> console \<Rightarrow> console option" where
  "page_fault_handler faulting_address err_code k =
     do { k1 \<leftarrow> print ([10] @ bytes ''PANIC: PAGE FAULT'' @ [10, 0]) 0x04 k;
          k2 \<leftarrow> print (lit ''  Faulting Address: '') 0x07 k1;
          k3 \<leftarrow> print_hex faulting_address 0x07 k2;
          k4 \<leftarrow> print [10, 0] 0x07 k3;
          k5 \<leftarrow> print (lit ''  Error Code: '') 0x07 k4;
          k6 \<leftarrow> print_hex err_code 0x07 k5;
          print [10, 0] 0x07 k6 }"

text \<open>An exception either returns (\<open>Inr\<close>) or halts the machine with a message (\<open>Inl\<close>).\<close>

definition isr_handler :: "device \<Rightarrow> u32 \<Rightarrow> u32 \<Rightarrow> u32 \<Rightarrow> interrupts \<times> console \<Rightarrow>
    (console + interrupts \<times> console) option" where
  "isr_handler dev cr2 int_no err_code = (\<lambda>(s, k).
     do { handler \<leftarrow> rd (interrupt_handlers s) (unat int_no);
          case handler of
            None \<Rightarrow> do { k1 \<leftarrow> print (lit ''CPU Exception ['') 0x04 k;
                          k2 \<leftarrow> print_int int_no 0x04 k1;
                          k3 \<leftarrow> print (bytes ''] occurred. Halting...'' @ [10, 0]) 0x04 k2;
                          Some (Inl k3) }
          | Some Page_fault_handler \<Rightarrow> map_option Inl (page_fault_handler cr2 err_code k)
          | Some r \<Rightarrow> do { (s', h') \<leftarrow> call_routine dev r (s, ports k); Some (Inr (s', k\<lparr>ports := h'\<rparr>)) } })"

section \<open>Invariant\<close>

definition intr_inv :: "interrupts \<Rightarrow> bool" where
  "intr_inv s \<longleftrightarrow> length (idt s) = 256 \<and> length (interrupt_handlers s) = 256 \<and> length (irq_routines s) = 16 \<and>
     Some Page_fault_handler \<notin> set (irq_routines s)"

definition gate_target :: "idt_entry \<Rightarrow> u32" where
  "gate_target g = push_bit 16 (ucast (offset_high g)) OR ucast (offset_low g)"

definition gate :: "u32 \<Rightarrow> idt_entry" where
  "gate handler = \<lparr>offset_low = ucast (handler AND 0xFFFF), selector = 0x08, zero = 0,
     type_attr = 0x8E, offset_high = ucast (drop_bit 16 handler AND 0xFFFF)\<rparr>"

lemma gate_target_gate [simp]: "gate_target (gate a) = a"
proof (rule bit_word_eqI)
  fix n :: nat
  assume "n < LENGTH(32)"
  then show "bit (gate_target (gate a)) n = bit a n"
    using bit_mask_iff [of 16 n, where 'a = u32] bit_mask_iff [of 16 "n - 16", where 'a = u32]
    by (auto simp: gate_target_def gate_def bit_simps mask_numeral)
qed

lemma set_gates:
  assumes "b + n \<le> length (idt s)"
  shows "foldM (\<lambda>i. idt_set_gate (b + i) (stub i)) [0..<n] s =
     Some (s\<lparr>idt := blit (idt s) b (map (\<lambda>i. gate (stub i)) [0..<n])\<rparr>)"
  using assms
proof (induction n)
  case (Suc n)
  let ?g = "\<lambda>i. gate (stub i)"
  have "blit (blit (idt s) b (map ?g [0..<n])) (b + n) [?g n] = blit (idt s) b (map ?g [0..<n] @ [?g n])"
    using blit_append [of b "map ?g [0..<n]" "[?g n]" "idt s"] Suc.prems by simp
  then have "(blit (idt s) b (map ?g [0..<n]))[b + n := ?g n] = blit (idt s) b (map ?g [0..<Suc n])"
    using Suc.prems by (subst (asm) blit_one) simp_all
  then show ?case using Suc by (simp add: idt_set_gate_def gate_def)
qed simp

lemma clear_handlers:
  "n \<le> length t \<Longrightarrow> foldM (\<lambda>i t. wr t i None) [0..<n] t = Some (replicate n None @ drop n t)"
proof (induction n)
  case (Suc n)
  then show ?case
    by (simp add: list_update_append replicate_append_same [symmetric] Cons_nth_drop_Suc [symmetric])
qed simp

lemma isr_install_eq:
  assumes "intr_inv s"
  shows "isr_install stub s = Some (s\<lparr>interrupt_handlers := replicate 256 None,
     idt := map (\<lambda>i. gate (stub i)) [0..<32] @ drop 32 (idt s)\<rparr>)"
proof -
  have "foldM (\<lambda>i t. wr t i None) [0..<256] (interrupt_handlers s) = Some (replicate 256 None)"
    using clear_handlers [of 256 "interrupt_handlers s"] assms by (simp add: intr_inv_def del: upt_rec_numeral)
  then show ?thesis
    using set_gates [of 0 32 "s\<lparr>interrupt_handlers := replicate 256 None\<rparr>" stub] assms
    by (simp add: isr_install_def intr_inv_def blit_def del: upt_rec_numeral)
qed

lemma irq_install_eq:
  assumes "intr_inv s"
  shows "\<exists>h'. irq_install dev stub (s, h) = Some (s\<lparr>idt := blit (idt s) 32 (map (\<lambda>i. gate (stub i)) [0..<16])\<rparr>, h') \<and>
     take 2 h' = [OutB 0xA1 0, OutB 0x21 0]"
  using set_gates [of 32 16 s stub] assms
  by (simp add: irq_install_def intr_inv_def outb_def Let_def del: upt_rec_numeral)

lemma length_kbd_us [simp]: "length kbd_us = 128"
  by (simp add: kbd_us_def)

lemma keyboard_handler_returns: "\<exists>k' v. keyboard_handler dev (k, h) = Some (k', InB 0x60 v # h) \<and> last_scancode k' = v"
  by (simp add: keyboard_handler_def inb_def Let_def word_less_nat_alt split: if_splits)

lemma call_routine_returns:
  assumes "r \<noteq> Page_fault_handler"
  shows "\<exists>s' evs. call_routine dev r (s, h) = Some (s', evs @ h) \<and> set evs \<subseteq> range (InB 0x60) \<and>
     idt s' = idt s \<and> interrupt_handlers s' = interrupt_handlers s \<and> irq_routines s' = irq_routines s"
proof (cases r)
  case Timer_handler
  then show ?thesis by (auto simp: call_routine_def timer_handler_def cpu_tick_def)
next
  case Keyboard_handler
  obtain k' v where "keyboard_handler dev (keyboard s, h) = Some (k', InB 0x60 v # h)"
    using keyboard_handler_returns [of dev "keyboard s" h] by blast
  then show ?thesis using Keyboard_handler
    by (auto simp: call_routine_def intro!: exI [of _ "[InB 0x60 v]"])
qed (use assms in simp)

lemma eoi_events:
  "pic_send_eoi irq h = (if irq \<ge> 8 then [OutB 0x20 0x20, OutB 0xA0 0x20] else [OutB 0x20 0x20]) @ h"
  by (simp add: pic_send_eoi_def outb_def)

lemma irq_index:
  assumes "32 \<le> int_no" "int_no < 48"
  shows "unat (int_no - 32 :: u32) < 16"
  using assms by (simp add: unat_sub word_le_nat_alt word_less_nat_alt)

lemma irq_handler_eq:
  assumes "intr_inv s" "32 \<le> int_no" "int_no < 48"
  obtains s' evs where "irq_handler dev int_no (s, h) = Some (s', pic_send_eoi (ucast (int_no - 32)) (evs @ h))"
    "set evs \<subseteq> range (InB 0x60)" "intr_inv s'" "irq_routines s' = irq_routines s"
    "case irq_routines s ! unat (int_no - 32) of None \<Rightarrow> s' = s \<and> evs = []
     | Some r \<Rightarrow> call_routine dev r (s, h) = Some (s', evs @ h)"
proof -
  let ?i = "unat (int_no - 32)"
  have i: "?i < length (irq_routines s)" using assms(1) irq_index [OF assms(2,3)] by (simp add: intr_inv_def)
  have hd: "rd (irq_routines s) ?i = Some (irq_routines s ! ?i)" using i by simp
  show ?thesis
  proof (cases "irq_routines s ! ?i")
    case None
    have "irq_handler dev int_no (s, h) = Some (s, pic_send_eoi (ucast (int_no - 32)) h)"
      by (simp only: irq_handler_def prod.case hd None bind.bind_lunit option.case)
    then show ?thesis using None assms(1) by (intro that [of s "[]"]) simp_all
  next
    case (Some r)
    then have "r \<noteq> Page_fault_handler" using assms(1) nth_mem [OF i] unfolding intr_inv_def by metis
    note call_routine_returns [OF this, of dev s h]
    then obtain s' evs where c: "call_routine dev r (s, h) = Some (s', evs @ h)" "set evs \<subseteq> range (InB 0x60)"
       "idt s' = idt s" "interrupt_handlers s' = interrupt_handlers s" "irq_routines s' = irq_routines s"
      by (elim exE conjE)
    have "irq_handler dev int_no (s, h) = Some (s', pic_send_eoi (ucast (int_no - 32)) (evs @ h))"
      by (simp only: irq_handler_def prod.case hd Some c(1) bind.bind_lunit option.case)
    moreover have "intr_inv s'" using assms(1) c(3-5) by (simp add: intr_inv_def)
    ultimately show ?thesis using Some c by (intro that [of s' evs]) simp_all
  qed
qed

interpretation irqs: safe_step "irq_handler dev" "\<lambda>(s, h). intr_inv s" "\<lambda>int_no. 32 \<le> int_no \<and> int_no < 48" for dev
proof (unfold_locales, clarify)
  fix s :: interrupts and h :: io and int_no :: u32
  assume "intr_inv s" "32 \<le> int_no" "int_no < 48"
  then show "\<exists>s'. irq_handler dev int_no (s, h) = Some s' \<and> (case s' of (s, h) \<Rightarrow> intr_inv s)"
    by (rule irq_handler_eq [of s int_no dev h]) simp
qed

lemma irq_handler_inv:
  "intr_inv s \<Longrightarrow> 32 \<le> int_no \<Longrightarrow> int_no < 48 \<Longrightarrow> \<exists>s' h'. irq_handler dev int_no (s, h) = Some (s', h') \<and> intr_inv s'"
  by (rule irq_handler_eq [of s int_no dev h]) auto

text \<open>
  The waiting loops never fail: on hardware interrupts they return a key, with the tables intact and
  the key consumed, or wait on, and then no key was pressed.
\<close>

lemma scancode_wait:
  assumes "intr_inv s" "list_all (\<lambda>n. 32 \<le> n \<and> n < 48) arriving"
  shows "\<exists>r. keyboard_get_scancode dev arriving (s, h) = Some r \<and>
    (case r of Inl (s', h') \<Rightarrow> intr_inv s' \<and> last_scancode (keyboard s') = 0
     | Inr (c, rest, s', h') \<Rightarrow> intr_inv s' \<and> c \<noteq> 0 \<and> last_scancode (keyboard s') = 0 \<and> length rest \<le> length arriving)"
  using assms
proof (induction arriving arbitrary: s h)
  case (Cons n ns)
  obtain s' h' where r: "irq_handler dev n (s, h) = Some (s', h')" "intr_inv s'"
    using irq_handler_inv [of s n dev h] Cons.prems by auto
  show ?case
  proof (cases "last_scancode (keyboard s) = 0")
    case True
    then have "keyboard_get_scancode dev (n # ns) (s, h) = keyboard_get_scancode dev ns (s', h')" using r(1) by simp
    moreover obtain r where "keyboard_get_scancode dev ns (s', h') = Some r" and
      "case r of Inl (s', h') \<Rightarrow> intr_inv s' \<and> last_scancode (keyboard s') = 0
       | Inr (c, rest, s', h') \<Rightarrow> intr_inv s' \<and> c \<noteq> 0 \<and> last_scancode (keyboard s') = 0 \<and> length rest \<le> length ns"
      using Cons.IH [OF r(2), of h'] Cons.prems(2) by auto
    ultimately show ?thesis by (intro exI [of _ r]) (simp split: sum.splits prod.splits)
  qed (use Cons.prems in \<open>simp add: intr_inv_def\<close>)
qed (simp add: intr_inv_def)

lemma char_wait:
  assumes "intr_inv s" "list_all (\<lambda>n. 32 \<le> n \<and> n < 48) arriving"
  shows "\<exists>r. keyboard_get_char_blocking dev arriving (s, h) = Some r \<and>
    (case r of Inl (s', h') \<Rightarrow> intr_inv s'
     | Inr (c, rest, s', h') \<Rightarrow> intr_inv s' \<and> c \<noteq> 0 \<and> last_char (keyboard s') = 0 \<and> length rest < length arriving)"
  using assms
proof (induction arriving arbitrary: s h)
  case (Cons n ns)
  obtain s' h' where r: "irq_handler dev n (s, h) = Some (s', h')" "intr_inv s'"
    using irq_handler_inv [of s n dev h] Cons.prems by auto
  show ?case
  proof (cases "last_char (keyboard s') = 0")
    case True
    then have "keyboard_get_char_blocking dev (n # ns) (s, h) = keyboard_get_char_blocking dev ns (s', h')" using r(1) by simp
    moreover obtain r where "keyboard_get_char_blocking dev ns (s', h') = Some r" and
      "case r of Inl (s', h') \<Rightarrow> intr_inv s'
       | Inr (c, rest, s', h') \<Rightarrow> intr_inv s' \<and> c \<noteq> 0 \<and> last_char (keyboard s') = 0 \<and> length rest < length ns"
      using Cons.IH [OF r(2), of h'] Cons.prems(2) by auto
    ultimately show ?thesis by (intro exI [of _ r]) (simp split: sum.splits prod.splits)
  qed (use r in \<open>simp add: intr_inv_def\<close>)
qed simp

lemma timer_only_by_irq0:
  assumes "call_routine dev r (s, h) = Some (s', h')"
  shows "timer_ticks s' = (if r = Timer_handler then timer_ticks s + 1 else timer_ticks s)"
    "total_ticks s' = (if r = Timer_handler then total_ticks s + 1 else total_ticks s)"
  using assms by (auto simp: call_routine_def timer_handler_def cpu_tick_def split: routine.splits Option.bind_splits)

section \<open>Properties\<close>

text \<open>
  After the installation functions have run in the kernel's order, the descriptors of the
  32 exceptions and the 16 hardware interrupts point to their stubs with the kernel's code segment
  as present ring-0 interrupt gates, and every other descriptor is empty.
\<close>

theorem gates_installed:
  assumes "intr_inv s"
  shows "\<exists>s1 s2 h'. isr_install isr_stub (idt_install a s) = Some s1 \<and> irq_install dev irq_stub (s1, h) = Some (s2, h') \<and>
     (\<forall>n < 32. gate_target (idt s2 ! n) = isr_stub n) \<and> (\<forall>n < 16. gate_target (idt s2 ! (32 + n)) = irq_stub n) \<and>
     (\<forall>n < 48. type_attr (idt s2 ! n) = 0x8E \<and> selector (idt s2 ! n) = 0x08) \<and>
     (\<forall>n < 256. 48 \<le> n \<longrightarrow> type_attr (idt s2 ! n) = 0)"
proof -
  let ?z = "\<lparr>offset_low = 0, selector = 0, zero = 0, type_attr = 0, offset_high = 0\<rparr>"
  let ?s0 = "idt_install a s"
  have "intr_inv ?s0" using assms by (simp add: intr_inv_def idt_install_def)
  note e1 = isr_install_eq [OF this, of isr_stub]
  let ?s1 = "?s0\<lparr>interrupt_handlers := replicate 256 None, idt := map (\<lambda>i. gate (isr_stub i)) [0..<32] @ drop 32 (idt ?s0)\<rparr>"
  have inv1: "intr_inv ?s1" using assms by (simp add: intr_inv_def idt_install_def)
  obtain h' where e2: "irq_install dev irq_stub (?s1, h) =
      Some (?s1\<lparr>idt := blit (idt ?s1) 32 (map (\<lambda>i. gate (irq_stub i)) [0..<16])\<rparr>, h')"
    using irq_install_eq [OF inv1] by blast
  let ?t = "map (\<lambda>i. gate (isr_stub i)) [0..<32] @ map (\<lambda>i. gate (irq_stub i)) [0..<16] @ replicate 208 ?z"
  have t: "blit (idt ?s1) 32 (map (\<lambda>i. gate (irq_stub i)) [0..<16]) = ?t"
    by (simp add: blit_def idt_install_def del: upt_rec_numeral)
  have a: "type_attr (gate x) = 0x8E" "selector (gate x) = 0x08" for x by (simp_all add: gate_def)
  have "gate_target (?t ! n) = isr_stub n" if "n < 32" for n
    using that by (simp add: nth_append del: upt_rec_numeral)
  moreover have "gate_target (?t ! (32 + n)) = irq_stub n" if "n < 16" for n
    using that by (simp add: nth_append del: upt_rec_numeral)
  moreover have "type_attr (?t ! n) = 0x8E \<and> selector (?t ! n) = 0x08" if "n < 48" for n
    using that a by (cases "n < 32") (simp_all add: nth_append del: upt_rec_numeral)
  moreover have "type_attr (?t ! n) = 0" if "n < 256" "48 \<le> n" for n
  proof -
    have "\<not> n < 32" "\<not> n - 32 < 16" using that by linarith+
    then show ?thesis using that by (simp add: nth_append del: upt_rec_numeral)
  qed
  ultimately show ?thesis using e1 e2 unfolding t by (intro exI conjI) (assumption | simp del: upt_rec_numeral)+
qed

text \<open>
  (C27) Every hardware interrupt is acknowledged: whatever its handler does, the last port writes of
  \<^verbatim>\<open>irq_handler\<close> are the end-of-interrupt commands, to the master controller always and to the slave
  exactly for interrupts 8 to 15, and the dispatch tables stay as they were.
\<close>

theorem irq_acknowledged:
  assumes "intr_inv s" "n < 16"
  shows "\<exists>s' evs. irq_handler dev (32 + of_nat n) (s, h) = Some (s',
       (if 8 \<le> n then [OutB 0x20 0x20, OutB 0xA0 0x20] else [OutB 0x20 0x20]) @ evs @ h) \<and>
     set evs \<subseteq> range (InB 0x60) \<and> intr_inv s' \<and> irq_routines s' = irq_routines s"
proof -
  have u: "unat (of_nat n :: u32) = n" using assms(2) by (simp add: unat_of_nat)
  then have r: "32 \<le> (32 + of_nat n :: u32)" "(32 + of_nat n :: u32) < 48"
    using assms(2) by (simp_all add: word_le_nat_alt word_less_nat_alt unat_word_ariths)
  have "unat (ucast (of_nat n :: u32) :: byte) = n" using assms(2) u by (simp add: unsigned_ucast_eq take_bit_nat_eq_self)
  then have "(8 :: byte) \<le> ucast (of_nat n :: u32) \<longleftrightarrow> 8 \<le> n" by (simp add: word_le_nat_alt)
  moreover have "32 + of_nat n - 32 = (of_nat n :: u32)" by simp
  ultimately show ?thesis
    by (rule_tac irq_handler_eq [OF assms(1) r, of dev h]) (auto simp: eoi_events)
qed

definition idle_intr :: interrupts where
  "idle_intr = \<lparr>idt = replicate 256 (gate 0), idtp = \<lparr>idt_limit = 0, idt_base = 0\<rparr>, interrupt_handlers = replicate 256 None,
     irq_routines = [Some Timer_handler, Some Keyboard_handler] @ replicate 14 None, timer_ticks = 0, idle_ticks = 0,
     total_ticks = 0, keyboard = \<lparr>last_char = 0, last_scancode = 0, ctrl_pressed = False\<rparr>\<rparr>"

lemma idle_intr_inv: "intr_inv idle_intr"
  by (simp add: intr_inv_def idle_intr_def)

theorem gates_installed_witness:
  "\<exists>s1 s2 h'. isr_install (\<lambda>n. 0x100000 + of_nat n) (idt_install 0x5000 idle_intr) = Some s1 \<and>
     irq_install (\<lambda>h p. 0) (\<lambda>n. 0x200000 + of_nat n) (s1, []) = Some (s2, h') \<and>
     gate_target (idt s2 ! 14) = 0x10000E \<and> gate_target (idt s2 ! 33) = 0x200001 \<and> type_attr (idt s2 ! 200) = 0"
proof -
  obtain s1 s2 h' where r: "isr_install (\<lambda>n. 0x100000 + of_nat n) (idt_install 0x5000 idle_intr) = Some s1"
     "irq_install (\<lambda>h p. 0) (\<lambda>n. 0x200000 + of_nat n) (s1, []) = Some (s2, h')"
     "\<forall>n < 32. gate_target (idt s2 ! n) = 0x100000 + of_nat n"
     "\<forall>n < 16. gate_target (idt s2 ! (32 + n)) = 0x200000 + of_nat n"
     "\<forall>n < 256. 48 \<le> n \<longrightarrow> type_attr (idt s2 ! n) = 0"
    using gates_installed [OF idle_intr_inv, of "\<lambda>n. 0x100000 + of_nat n" "0x5000" "\<lambda>h p. 0" "\<lambda>n. 0x200000 + of_nat n" "[]"] by blast
  have "gate_target (idt s2 ! 14) = 0x10000E" using r(3) by simp
  moreover have "gate_target (idt s2 ! (32 + 1)) = 0x200001" using r(4) [rule_format, of 1] by simp
  ultimately show ?thesis using r(1,2,5) by auto
qed

theorem irq_acknowledged_witness:
  "\<exists>s' evs. irq_handler (\<lambda>h p. 0x1E) (32 + of_nat 1) (idle_intr, []) = Some (s', [OutB 0x20 0x20] @ evs @ []) \<and>
     set evs \<subseteq> range (InB 0x60)"
  using irq_acknowledged [OF idle_intr_inv, of 1 "\<lambda>h p. 0x1E" "[]"] by fastforce

lemma irq_ticks:
  assumes "intr_inv s" "32 \<le> int_no" "int_no < 48" "irq_routines s ! 0 = Some Timer_handler"
    "\<forall>i < 16. 0 < i \<longrightarrow> irq_routines s ! i \<noteq> Some Timer_handler"
    and r: "irq_handler dev int_no (s, h) = Some (s', h')"
  shows "timer_ticks s' = timer_ticks s + (if int_no = 32 then 1 else 0)"
    "total_ticks s' = total_ticks s + (if int_no = 32 then 1 else 0)" "irq_routines s' = irq_routines s"
proof -
  have z: "unat (int_no - 32) = 0 \<longleftrightarrow> int_no = 32"
    by (metis diff_eq_diff_eq eq_iff_diff_eq_0 unat_eq_zero)
  have b: "unat (int_no - 32) < 16" using irq_index assms(2,3) by blast
  obtain s1 evs where e: "irq_handler dev int_no (s, h) = Some (s1, pic_send_eoi (ucast (int_no - 32)) (evs @ h))"
    "irq_routines s1 = irq_routines s"
    "case irq_routines s ! unat (int_no - 32) of None \<Rightarrow> s1 = s \<and> evs = []
     | Some r \<Rightarrow> call_routine dev r (s, h) = Some (s1, evs @ h)"
    using irq_handler_eq [OF assms(1-3)] by metis
  have s1: "s1 = s'" using e(1) r by simp
  show "irq_routines s' = irq_routines s" using e(2) s1 by simp
  show "timer_ticks s' = timer_ticks s + (if int_no = 32 then 1 else 0)"
    "total_ticks s' = total_ticks s + (if int_no = 32 then 1 else 0)"
    using e(3) s1 assms(4,5) b z timer_only_by_irq0 [of dev _ s h s']
    by (cases "int_no = 32"; fastforce split: option.splits)+
qed

text \<open>
  (C28) The kernel's clock counts timer interrupts: after any sequence of hardware interrupts
  \<open>timer_ticks\<close> and \<open>total_ticks\<close> have grown by the number of timer interrupts in it (modulo 2 to
  the 32), whatever other interrupts came in between.
\<close>

theorem timer_counts:
  assumes "intr_inv s" "irq_routines s ! 0 = Some Timer_handler"
    "\<forall>i < 16. 0 < i \<longrightarrow> irq_routines s ! i \<noteq> Some Timer_handler"
    "\<forall>n \<in> set ns. 32 \<le> n \<and> n < 48"
  shows "\<exists>s' h'. foldM (irq_handler dev) ns (s, h) = Some (s', h') \<and>
     timer_ticks s' = timer_ticks s + of_nat (count_list ns 32) \<and>
     total_ticks s' = total_ticks s + of_nat (count_list ns 32)"
  using assms
proof (induction ns arbitrary: s h)
  case (Cons n ns)
  obtain s1 h1 where s1: "irq_handler dev n (s, h) = Some (s1, h1)" "intr_inv s1"
    using irqs.step_safe [of "(s, h)" n dev] Cons.prems by auto
  note t = irq_ticks [OF Cons.prems(1) _ _ Cons.prems(2,3) s1(1)]
  have "irq_routines s1 = irq_routines s" using t(3) Cons.prems(4) by simp
  then obtain s' h' where "foldM (irq_handler dev) ns (s1, h1) = Some (s', h')"
     "timer_ticks s' = timer_ticks s1 + of_nat (count_list ns 32)"
     "total_ticks s' = total_ticks s1 + of_nat (count_list ns 32)"
    using Cons.IH [OF s1(2), of h1] Cons.prems(2-4) by auto
  then show ?case using s1(1) t(1,2) Cons.prems(4) by auto
qed simp

theorem timer_counts_witness:
  "\<exists>s' h'. foldM (irq_handler (\<lambda>h p. 0x1E)) [32, 33, 32, 46, 32] (idle_intr, []) = Some (s', h') \<and> timer_ticks s' = 3"
proof -
  have "irq_routines idle_intr ! 0 = Some Timer_handler"
    "\<forall>i < 16. 0 < i \<longrightarrow> irq_routines idle_intr ! i \<noteq> Some Timer_handler"
    by (auto simp: idle_intr_def nth_Cons' nth_append)
  then show ?thesis
    using timer_counts [OF idle_intr_inv, of "[32, 33, 32, 46, 32]" "\<lambda>h p. 0x1E" "[]"]
    by (auto simp: idle_intr_def)
qed

text \<open>
  (C29) The keyboard holds one key.  After the interrupt handler has read a scan code, the next read
  returns: for a release or the Ctrl key, the character that was pending before; for the arrow codes
  0x48 and 0x50, that code, with and without Ctrl; for every other key, no character while Ctrl is
  down, and otherwise the key's character in the table.  A character is returned exactly once, and
  Ctrl is down from its press to its release.
\<close>

theorem keyboard_delivers:
  assumes "ucast (dev h 0x60) = (sc :: byte)"
  shows "\<exists>k'. keyboard_handler dev (k, h) = Some (k', InB 0x60 sc # h) \<and> last_scancode k' = sc \<and>
     (ctrl_pressed k' \<longleftrightarrow> sc = 0x1D \<or> (ctrl_pressed k \<and> sc \<noteq> 0x9D)) \<and>
     keyboard_get_char k' =
       (if sc AND 0x80 \<noteq> 0 \<or> sc = 0x1D then last_char k
        else if sc = 0x48 \<or> sc = 0x50 then sc
        else if ctrl_pressed k then 0 else kbd_us ! unat sc, k'\<lparr>last_char := 0\<rparr>) \<and>
     fst (keyboard_get_char (snd (keyboard_get_char k'))) = 0"
proof -
  have b: "sc AND 0x80 = 0 \<Longrightarrow> sc < 128"
  proof -
    assume "sc AND 0x80 = 0"
    then have "\<not> bit sc 7" using and_exp_eq_0_iff_not_bit [of sc 7] by simp
    then have "sc = take_bit 7 sc"
      by (intro bit_word_eqI) (auto simp: bit_simps less_Suc_eq numeral_eq_Suc)
    then have "unat sc = take_bit 7 (unat sc)" by (metis unsigned_take_bit_eq)
    then have "unat sc < 2 ^ 7" using take_bit_nat_less_exp [of 7 "unat sc"] by simp
    then show "sc < 128" by (simp add: word_less_nat_alt)
  qed
  obtain k' v where r: "keyboard_handler dev (k, h) = Some (k', InB 0x60 v # h)"
    using keyboard_handler_returns [of dev k h] by blast
  then have v: "v = sc" using assms by (auto simp: keyboard_handler_def inb_def Let_def split: if_splits bind_splits)
  then have k: "keyboard_handler dev (k, h) = Some (k', InB 0x60 sc # h)" using r by simp
  have "last_scancode k' = sc" "ctrl_pressed k' \<longleftrightarrow> sc = 0x1D \<or> (ctrl_pressed k \<and> sc \<noteq> 0x9D)"
    "last_char k' = (if sc AND 0x80 \<noteq> 0 \<or> sc = 0x1D then last_char k else if sc = 0x48 \<or> sc = 0x50 then sc
       else if ctrl_pressed k then 0 else kbd_us ! unat sc)"
    using r assms b unfolding v keyboard_handler_def inb_def Let_def
    by (auto simp: word_less_nat_alt split: if_splits bind_splits)
  moreover have "keyboard_get_char k' = (last_char k', k'\<lparr>last_char := 0\<rparr>)" by (simp add: keyboard_get_char_def)
  ultimately show ?thesis using k by (intro exI [of _ k']) (simp add: keyboard_get_char_def)
qed

definition key_state :: kbd where
  "key_state = \<lparr>last_char = 0, last_scancode = 0, ctrl_pressed = False\<rparr>"

theorem keyboard_delivers_witness:
  "\<exists>k'. keyboard_handler (\<lambda>h p. 0x48) (key_state\<lparr>ctrl_pressed := True\<rparr>, []) = Some (k', [InB 0x60 0x48]) \<and>
     fst (keyboard_get_char k') = 0x48 \<and> ctrl_pressed k'"
  using keyboard_delivers [of "\<lambda>h p. 0x48" "[]" "0x48" "key_state\<lparr>ctrl_pressed := True\<rparr>"] by (auto simp: key_state_def)

lemma word_of_nat_unat: "of_nat (unat (w :: u32)) = w"
  by simp

lemma sint_of_int_small:
  assumes "- (2 ^ 31) \<le> i" "i < 2 ^ 31"
  shows "sint (word_of_int i :: u32) = i"
  using assms signed_take_bit_int_eq_self [of 31 i] by (simp add: signed_of_int)

text \<open>
  The CPU usage is the percentage of ticks that were not idle, as long as the product with 100
  does not overflow: it lies between 0 and 100 while no more idle wake-ups than timer ticks were
  counted, and is negative beyond that (every interrupt, not only the timer, ends a \<^verbatim>\<open>hlt\<close>).
\<close>

theorem cpu_usage_percentage:
  assumes "unat (idle_ticks s) * 100 < 2 ^ 31" "0 < unat (total_ticks s)"
  shows "sint (cpu_get_usage s) = 100 - int (unat (idle_ticks s) * 100 div unat (total_ticks s)) \<and>
     (unat (idle_ticks s) \<le> unat (total_ticks s) \<longrightarrow> sint (cpu_get_usage s) \<in> {0..100})"
proof -
  let ?q = "unat (idle_ticks s) * 100 div unat (total_ticks s)"
  have "unat (idle_ticks s * 100) = unat (idle_ticks s) * 100" using assms(1) by (simp add: unat_word_ariths)
  then have "unat ((idle_ticks s * 100) div total_ticks s) = ?q" by (simp add: unat_div)
  then have "(idle_ticks s * 100) div total_ticks s = word_of_int (int ?q)"
    by (metis of_int_of_nat_eq word_of_nat_unat)
  then have "cpu_get_usage s = word_of_int (100 - int ?q)"
    using assms(2) by (auto simp: cpu_get_usage_def)
  moreover have "?q \<le> unat (idle_ticks s) * 100" by (rule div_le_dividend)
  then have "?q < 2 ^ 31" using assms(1) by (rule le_less_trans)
  then have "- (2 ^ 31) \<le> 100 - int ?q" "100 - int ?q < 2 ^ 31" by simp_all
  ultimately have "sint (cpu_get_usage s) = 100 - int ?q"
    by (simp only: sint_of_int_small)
  moreover have "?q \<le> 100" if "unat (idle_ticks s) \<le> unat (total_ticks s)"
    using div_le_mono [of "unat (idle_ticks s) * 100" "unat (total_ticks s) * 100" "unat (total_ticks s)"] that assms(2)
    by simp
  ultimately show ?thesis by auto
qed

theorem cpu_usage_percentage_witness:
  "sint (cpu_get_usage (idle_intr\<lparr>idle_ticks := 300, total_ticks := 100\<rparr>)) = - 200"
  using cpu_usage_percentage [of "idle_intr\<lparr>idle_ticks := 300, total_ticks := 100\<rparr>"] by simp

end
