(* ===== verification/Cable.thy ===== *)
theory Cable
  imports Bdx Interrupts
begin

text \<open>
  The text editor of \<^verbatim>\<open>src/app/utils/cable.c\<close>.  The two-dimensional buffer is one object of 24 * 80
  bytes in which row \<open>y\<close> starts at \<open>80 * y\<close>, so that string functions and moves that run over the end
  of a row reach the next one; the cursor coordinates are never negative (each decrement is guarded)
  and are natural numbers.  Byte counts are computed as in C, as 32-bit differences that wrap.  The
  contents that stack buffers have before they are written are arguments.

  The editor keeps 24 lines padded with zeros; the theorems show that every key implements its
  meaning on those lines as long as the cursor is on the text of its line, what saving stores, and
  which keys leave the buffer.
\<close>

section \<open>Definitions\<close>

abbreviation (input) EDITOR_ROWS :: nat where "EDITOR_ROWS \<equiv> 24"
abbreviation (input) EDITOR_COLS :: nat where "EDITOR_COLS \<equiv> 80"
abbreviation (input) STATUS_BAR_COLOR :: byte where "STATUS_BAR_COLOR \<equiv> 0x1F"

record editor =
  cx :: nat
  cy :: nat
  buffer :: buf
  filename :: buf
  dirty :: bool

definition ed_row :: "nat \<Rightarrow> editor \<Rightarrow> buf option" where
  "ed_row y e = (if y * EDITOR_COLS \<le> length (buffer e) then Some (drop (y * EDITOR_COLS) (buffer e)) else None)"

subsection \<open>Saving\<close>

definition syscall_write :: "buf \<Rightarrow> buf \<Rightarrow> u32 \<Rightarrow> buf \<Rightarrow> bdfs \<Rightarrow> console \<Rightarrow> (bdfs \<times> console) option" where
  "syscall_write path data len stack_bytes fs k =
     do { b0 \<leftarrow> wr (take 1024 stack_bytes) 0 OPCODE_SYSCALL_WRITE;
          b1 \<leftarrow> strcpy b0 1 path;
          n \<leftarrow> strlen path;
          let ip = 1 + n + 1;
          b2 \<leftarrow> memcpy b1 ip (le32 len) 4;
          b3 \<leftarrow> memcpy b2 (ip + 4) data (unat len);
          b4 \<leftarrow> wr b3 (ip + 4 + unat len) OPCODE_EXIT;
          interpret_bdx b4 fs k }"

definition save_row :: "editor \<Rightarrow> nat \<Rightarrow> buf \<times> nat \<Rightarrow> (buf \<times> nat) option" where
  "save_row e y = (\<lambda>(save_buffer, len).
     do { row \<leftarrow> ed_row y e;
          row_len \<leftarrow> strlen row;
          if row_len > 0
          then do { b1 \<leftarrow> memcpy save_buffer len row row_len;
                    if y < EDITOR_ROWS - 1
                    then do { b2 \<leftarrow> wr b1 (len + row_len) 10; Some (b2, len + row_len + 1) }
                    else Some (b1, len + row_len) }
          else Some (save_buffer, len) })"

definition editor_save_file :: "buf \<Rightarrow> buf \<Rightarrow> editor \<Rightarrow> bdfs \<Rightarrow> console \<Rightarrow> (editor \<times> bdfs \<times> console) option" where
  "editor_save_file save_bytes stack_bytes e fs k =
     do { (save_buffer, len) \<leftarrow> foldM (save_row e) [0..<EDITOR_ROWS] (take (EDITOR_ROWS * EDITOR_COLS) save_bytes, 0);
          (fs', k') \<leftarrow> syscall_write (filename e) save_buffer (of_nat len) stack_bytes fs k;
          Some (e\<lparr>dirty := False\<rparr>, fs', k') }"

subsection \<open>Loading\<close>

fun load_bytes :: "buf \<Rightarrow> nat \<Rightarrow> nat \<Rightarrow> buf \<Rightarrow> (buf \<times> nat \<times> nat) option" where
  "load_bytes [] row col b = Some (b, row, col)"
| "load_bytes (c # s) row col b =
     (if row < EDITOR_ROWS
      then if c = 10 then load_bytes s (row + 1) 0 b
           else if col < EDITOR_COLS - 1
           then do { b' \<leftarrow> wr b (row * EDITOR_COLS + col) c; load_bytes s row (col + 1) b' }
           else load_bytes s row col b
      else Some (b, row, col))"

definition editor_init :: "buf \<Rightarrow> buf \<Rightarrow> bdfs \<Rightarrow> editor \<Rightarrow> editor option" where
  "editor_init fname file_bytes fs e =
     do { nm \<leftarrow> strncpy (filename e) 0 fname (32 - 1);
          b \<leftarrow> memset (buffer e) 0 0 (EDITOR_ROWS * EDITOR_COLS);
          let e1 = e\<lparr>cx := 0, cy := 0, dirty := False, filename := nm, buffer := b\<rparr>;
          (r, bytes_read, content) \<leftarrow> bdfs_read_file fname (take (EDITOR_ROWS * EDITOR_COLS) file_bytes) fs;
          if r = 0
          then do { n \<leftarrow> bytes_read;
                    (b', row, col) \<leftarrow> load_bytes (take (unat n) content) 0 0 (buffer e1);
                    Some (e1\<lparr>buffer := b', cx := col, cy := row\<rparr>) }
          else Some e1 }"

subsection \<open>Drawing\<close>

definition status_format :: buf where
  "status_format = lit ''-- CABLE -- [%s]%c  Ctrl+S=Save | Ctrl+Q=Quit''"

definition status_cell :: "buf \<Rightarrow> nat \<Rightarrow> console \<Rightarrow> console option" where
  "status_cell status i k =
     do { n \<leftarrow> strlen status;
          if i < n then do { c \<leftarrow> rd status i; print_char_at c STATUS_BAR_COLOR (int i) (int EDITOR_ROWS - 1) k }
          else print_char_at 32 STATUS_BAR_COLOR (int i) (int EDITOR_ROWS - 1) k }"

definition editor_draw_status_bar :: "buf \<Rightarrow> editor \<Rightarrow> console \<Rightarrow> console option" where
  "editor_draw_status_bar stack_bytes e k =
     do { (_, status) \<leftarrow> snprintf (take EDITOR_COLS stack_bytes) (of_nat EDITOR_COLS) status_format
            [KStr (filename e), KInt (if dirty e then 42 else 32)];
          foldM (status_cell status) [0..<EDITOR_COLS] k }"

definition draw_cell :: "editor \<Rightarrow> nat \<times> nat \<Rightarrow> console \<Rightarrow> console option" where
  "draw_cell e = (\<lambda>(y, x) k.
     do { c \<leftarrow> rd (buffer e) (y * EDITOR_COLS + x); print_char_at c COLOR_INPUT (int x) (int y) k })"

definition editor_draw :: "buf \<Rightarrow> editor \<Rightarrow> console \<Rightarrow> console option" where
  "editor_draw stack_bytes e k =
     do { k1 \<leftarrow> clear_screen COLOR_SYSTEM k;
          k2 \<leftarrow> foldM (draw_cell e) (List.product [0..<EDITOR_ROWS - 1] [0..<EDITOR_COLS]) k1;
          k3 \<leftarrow> editor_draw_status_bar stack_bytes e k2;
          Some (set_cursor (int (cx e)) (int (cy e)) k3) }"

subsection \<open>Editing\<close>

definition editor_insert_char :: "byte \<Rightarrow> editor \<Rightarrow> editor option" where
  "editor_insert_char c e =
     (if cx e < EDITOR_COLS - 1
      then do { row \<leftarrow> ed_row (cy e) e;
                n \<leftarrow> strlen row;
                let off = cy e * EDITOR_COLS + cx e;
                b \<leftarrow> memmove (buffer e) (off + 1) off (unat (of_nat n - of_nat (cx e) :: u32));
                b' \<leftarrow> wr b off c;
                Some (e\<lparr>buffer := b', cx := cx e + 1, dirty := True\<rparr>) }
      else Some e)"

definition editor_delete_char :: "editor \<Rightarrow> editor option" where
  "editor_delete_char e =
     (if cx e > 0
      then do { let x = cx e - 1;
                row \<leftarrow> ed_row (cy e) e;
                n \<leftarrow> strlen row;
                let off = cy e * EDITOR_COLS + x;
                b \<leftarrow> memmove (buffer e) off (off + 1) (unat (of_nat n - of_nat x :: u32));
                Some (e\<lparr>buffer := b, cx := x, dirty := True\<rparr>) }
      else if cy e > 0
      then do { prev \<leftarrow> ed_row (cy e - 1) e;
                prev_line_len \<leftarrow> strlen prev;
                row \<leftarrow> ed_row (cy e) e;
                n \<leftarrow> strlen row;
                if prev_line_len + n < EDITOR_COLS - 1
                then do { b \<leftarrow> strcat (buffer e) ((cy e - 1) * EDITOR_COLS) (cy e * EDITOR_COLS);
                          b' \<leftarrow> memmove b (cy e * EDITOR_COLS) ((cy e + 1) * EDITOR_COLS)
                                 (unat ((of_nat EDITOR_ROWS - of_nat (cy e) - 1) * of_nat EDITOR_COLS :: u32));
                          Some (e\<lparr>buffer := b', cy := cy e - 1, cx := prev_line_len, dirty := True\<rparr>) }
                else Some e }
      else Some e)"

text \<open>
  One key: the scancode that ends the wait for the keyboard (never 0) and the state of Ctrl.  The
  result says whether the editor goes on.
\<close>

definition editor_process_keypress :: "buf \<Rightarrow> buf \<Rightarrow> byte \<Rightarrow> bool \<Rightarrow> editor \<times> bdfs \<times> console \<Rightarrow>
    (bool \<times> editor \<times> bdfs \<times> console) option" where
  "editor_process_keypress save_bytes stack_bytes scancode ctrl = (\<lambda>(e, fs, k).
     if scancode = 0x1F \<and> ctrl then do { r \<leftarrow> editor_save_file save_bytes stack_bytes e fs k; Some (True, r) }
     else if scancode = 0x10 \<and> ctrl then Some (False, e, fs, k)
     else if scancode = 0x48 then Some (True, if cy e > 0 then e\<lparr>cy := cy e - 1\<rparr> else e, fs, k)
     else if scancode = 0x50 then Some (True, if cy e < EDITOR_ROWS - 2 then e\<lparr>cy := cy e + 1\<rparr> else e, fs, k)
     else if scancode = 0x4B then Some (True, if cx e > 0 then e\<lparr>cx := cx e - 1\<rparr> else e, fs, k)
     else if scancode = 0x4D
     then do { row \<leftarrow> ed_row (cy e) e; n \<leftarrow> strlen row; Some (True, if cx e < n then e\<lparr>cx := cx e + 1\<rparr> else e, fs, k) }
     else do { c \<leftarrow> rd kbd_us (unat scancode);
               e' \<leftarrow> (if c = 0 then Some e
                      else if c = 10 then Some (e\<lparr>cy := cy e + 1, cx := 0\<rparr>)
                      else if c = 8 then editor_delete_char e
                      else if 32 \<le> c \<and> c \<le> 126 then editor_insert_char c e
                      else Some e);
               Some (True, e', fs, k) })"

text \<open>
  The main loop on the keys that arrive; it stops at Ctrl+Q or waits when there are no more.  The
  three stack buffers are those of drawing, saving and the system call.
\<close>

fun cable_loop :: "buf \<Rightarrow> buf \<Rightarrow> buf \<Rightarrow> (byte \<times> bool) list \<Rightarrow> editor \<times> bdfs \<times> console \<Rightarrow>
    (bool \<times> editor \<times> bdfs \<times> console) option" where
  "cable_loop draw_bytes save_bytes stack_bytes keys (e, fs, k) =
     do { k1 \<leftarrow> editor_draw draw_bytes e k;
          case keys of
            [] \<Rightarrow> Some (True, e, fs, k1)
          | (scancode, ctrl) # rest \<Rightarrow>
              do { (running, s) \<leftarrow> editor_process_keypress save_bytes stack_bytes scancode ctrl (e, fs, k1);
                   if running then cable_loop draw_bytes save_bytes stack_bytes rest s else Some (False, s) } }"

definition cable_main :: "buf \<Rightarrow> buf \<Rightarrow> buf \<Rightarrow> buf \<Rightarrow> buf \<Rightarrow> (byte \<times> bool) list \<Rightarrow> editor \<times> bdfs \<times> console \<Rightarrow>
    (bool \<times> editor \<times> bdfs \<times> console) option" where
  "cable_main file_bytes draw_bytes save_bytes stack_bytes fname keys = (\<lambda>(e, fs, k).
     do { e' \<leftarrow> editor_init fname file_bytes fs e;
          cable_loop draw_bytes save_bytes stack_bytes keys (e', fs, k) })"

section \<open>The lines of the buffer\<close>

definition pad :: "buf \<Rightarrow> buf" where
  "pad t = t @ replicate (80 - length t) 0"

definition rows :: "buf list \<Rightarrow> buf" where
  "rows ls = concat (map pad ls)"

definition line_ok :: "buf \<Rightarrow> bool" where
  "line_ok t \<longleftrightarrow> length t \<le> 79 \<and> 0 \<notin> set t"

definition ed_rep :: "editor \<Rightarrow> buf list \<Rightarrow> bool" where
  "ed_rep e ls \<longleftrightarrow> length ls = 24 \<and> list_all line_ok ls \<and> buffer e = rows ls"

lemma length_pad [simp]: "length t \<le> 80 \<Longrightarrow> length (pad t) = 80"
  by (simp add: pad_def)

lemma rows_simps [simp]: "rows [] = []" "rows (t # ls) = pad t @ rows ls" "rows (ls @ ms) = rows ls @ rows ms"
  by (simp_all add: rows_def)

lemma length_rows: "list_all line_ok ls \<Longrightarrow> length (rows ls) = 80 * length ls"
  by (induction ls) (auto simp: line_ok_def)

lemma line_ok_nth: "list_all line_ok ls \<Longrightarrow> y < length ls \<Longrightarrow> line_ok (ls ! y)"
  by (simp add: list_all_length)

text \<open>The buffer around one row.\<close>

lemma rows_split:
  assumes "list_all line_ok ls" "y < length ls"
  shows "rows ls = rows (take y ls) @ pad (ls ! y) @ rows (drop (Suc y) ls)" "length (rows (take y ls)) = 80 * y"
    "rows (ls[y := t]) = rows (take y ls) @ pad t @ rows (drop (Suc y) ls)"
proof -
  have "ls = take y ls @ ls ! y # drop (Suc y) ls" using assms(2) by (rule id_take_nth_drop)
  then show "rows ls = rows (take y ls) @ pad (ls ! y) @ rows (drop (Suc y) ls)" by (metis rows_simps(2,3))
  have "list_all line_ok (take y ls)" using assms(1) by (auto simp: list_all_iff dest: in_set_takeD)
  then show "length (rows (take y ls)) = 80 * y" using length_rows assms(2) by simp
  show "rows (ls[y := t]) = rows (take y ls) @ pad t @ rows (drop (Suc y) ls)"
    using assms(2) by (simp add: upd_conv_take_nth_drop)
qed

lemma cstr_row:
  assumes "list_all line_ok ls" "y < length ls"
  shows "cstr (drop (80 * y) (rows ls)) = ls ! y" "terminated (drop (80 * y) (rows ls))"
proof -
  note s = rows_split [OF assms] and t = line_ok_nth [OF assms]
  have d: "drop (80 * y) (rows ls) = pad (ls ! y) @ rows (drop (Suc y) ls)" unfolding s(1) using s(2) by simp
  obtain z where z: "replicate (80 - length (ls ! y)) (0 :: byte) = 0 # z" using t by (cases "80 - length (ls ! y)") (auto simp: line_ok_def)
  show "cstr (drop (80 * y) (rows ls)) = ls ! y" "terminated (drop (80 * y) (rows ls))"
    unfolding d pad_def z using t by (simp_all add: cstr_append_zero line_ok_def)
qed

lemma strlen_row:
  assumes "ed_rep e ls" "y < 24"
  shows "ed_row y e = Some (drop (80 * y) (buffer e))" "strlen (drop (80 * y) (buffer e)) = Some (length (ls ! y))"
  using assms length_rows [of ls] cstr_row [of ls y] by (simp_all add: ed_rep_def ed_row_def strlen_eq mult.commute)








section \<open>Keys on lines\<close>







lemma ed_repD: "ed_rep e ls \<Longrightarrow> length ls = 24" "ed_rep e ls \<Longrightarrow> list_all line_ok ls" "ed_rep e ls \<Longrightarrow> buffer e = rows ls"
  by (simp_all add: ed_rep_def)









lemma rep_cursor [simp]: "ed_rep (e\<lparr>cx := x\<rparr>) ls = ed_rep e ls" "ed_rep (e\<lparr>cy := y\<rparr>) ls = ed_rep e ls"
  by (simp_all add: ed_rep_def)


section \<open>Saving\<close>

lemma blit_0: "length xs \<le> length d \<Longrightarrow> blit d 0 xs = xs @ drop (length xs) d"
  by (simp add: blit_def)

lemma syscall_write_eq:
  assumes "terminated path" "unat len \<le> length data" "1024 \<le> length st" "length (cstr path) + unat len + 7 \<le> 1024"
    "fs_inv fs" "con_inv k"
  shows "syscall_write path data len st fs k =
    do { (_, fs') \<leftarrow> bdfs_write_file (cstr path @ [0]) (take (unat len) data) len fs; Some (fs', k) }"
proof -
  let ?p = "cstr path" and ?d = "take (unat len) data" and ?s = "take 1024 st"
  let ?n = "length ?p" and ?i = "WriteI (cstr path) (take (unat len) data)"
  have ls: "length ?s = 1024" using assms(3) by simp
  have b0: "wr ?s 0 3 = Some (blit ?s 0 [3])" using ls blit_one [of 0 ?s 3] by simp
  have b1: "strcpy (blit ?s 0 [3]) 1 path = Some (blit ?s 0 ([3] @ ?p @ [0]))"
    using strcpy_eq [OF assms(1), of 1 "blit ?s 0 [3]"] blit_append [of 0 "[3]" "?p @ [0]" ?s] ls assms(4) by simp
  have b2: "memcpy (blit ?s 0 ([3] @ ?p @ [0])) (1 + ?n + 1) (le32 len) 4 = Some (blit ?s 0 (([3] @ ?p @ [0]) @ le32 len))"
    using memcpy_eq [of _ "1 + ?n + 1" "le32 len" 4] blit_append [of 0 "[3] @ ?p @ [0]" "le32 len" ?s] ls assms(4) by simp
  have b3: "memcpy (blit ?s 0 (([3] @ ?p @ [0]) @ le32 len)) (1 + ?n + 1 + 4) data (unat len) = Some (blit ?s 0 ((([3] @ ?p @ [0]) @ le32 len) @ ?d))"
    using memcpy_eq [of _ "1 + ?n + 1 + 4" data "unat len"] blit_append [of 0 "([3] @ ?p @ [0]) @ le32 len" ?d ?s] ls assms(2,4)
    by (simp add: add.assoc)
  let ?c = "(([3] @ ?p @ [0]) @ le32 len) @ ?d"
  have lc: "length ?c = 1 + ?n + 1 + 4 + unat len" using assms(2) by simp
  have b4: "wr (blit ?s 0 ?c) (1 + ?n + 1 + 4 + unat len) 4 = Some (blit ?s 0 (?c @ [4]))"
    using blit_one [of "length ?c" "blit ?s 0 ?c" 4] blit_append [of 0 ?c "[4]" ?s] ls assms(2,4) unfolding lc [symmetric] by simp
  have bin: "blit ?s 0 (?c @ [4]) = concat (map assemble1 [?i]) @ 4 # drop (length (?c @ [4])) ?s"
    using blit_0 [of "?c @ [4]" ?s] ls assms(2,4) by simp
  have "length (take (unat len) data) < 2 ^ 31" using assms(4) by simp
  then have "interpret_bdx (blit ?s 0 (?c @ [4])) fs k = foldM exec1 [?i] (fs, k)"
    unfolding bin interpret_bdx_def using interpret_program [of "[]" "[?i]" "drop (length (?c @ [4])) ?s" fs k] assms(2,4-6) ls
    by (simp add: sys_inv_def)
  moreover have "of_nat (length ?d) = len" using assms(2) by simp
  ultimately have "interpret_bdx (blit ?s 0 (?c @ [4])) fs k = do { (_, fs') \<leftarrow> bdfs_write_file (?p @ [0]) ?d len fs; Some (fs', k) }"
    by (auto split: bind_splits)
  then show ?thesis
    unfolding syscall_write_def Let_def b0 using b1 b2 b3 b4 strlen_eq [of path] assms(1) by simp
qed

text \<open>What saving writes: every line that is not empty, each with a newline except on the last row.\<close>

definition line_text :: "nat \<Rightarrow> buf \<Rightarrow> buf" where
  "line_text y t = (if t = [] then [] else t @ (if y < 23 then [10] else []))"

definition saved_text :: "nat \<Rightarrow> buf list \<Rightarrow> buf" where
  "saved_text n ls = concat (map (\<lambda>y. line_text y (ls ! y)) [0..<n])"

lemma saved_text_Suc: "saved_text (Suc n) ls = saved_text n ls @ line_text n (ls ! n)"
  by (simp add: saved_text_def)

lemma length_saved_text: "list_all line_ok ls \<Longrightarrow> n \<le> length ls \<Longrightarrow> length (saved_text n ls) \<le> 80 * n"
proof (induction n)
  case (Suc n)
  then have "line_ok (ls ! n)" using line_ok_nth [of ls n] by simp
  then have "length (ls ! n) \<le> 79" by (simp add: line_ok_def)
  then show ?case using Suc by (simp add: saved_text_Suc line_text_def)
qed (simp add: saved_text_def)

lemma save_rows:
  assumes "ed_rep e ls" "length sb = 1920"
  shows "n \<le> 24 \<Longrightarrow> foldM (save_row e) [0..<n] (sb, 0) = Some (blit sb 0 (saved_text n ls), length (saved_text n ls))"
proof (induction n)
  case 0
  then show ?case by (simp add: saved_text_def)
next
  case (Suc n)
  note r = ed_repD [OF assms(1)] and s = strlen_row [OF assms(1), of n]
  let ?T = "saved_text n ls" and ?t = "ls ! n" and ?row = "drop (80 * n) (buffer e)"
  have n: "n < 24" "n < length ls" using Suc.prems r(1) by simp_all
  have len: "length ?T + 80 \<le> 1920" using length_saved_text [OF r(2), of n] n by simp
  have t: "length ?t \<le> 79" using line_ok_nth [OF r(2) n(2)] by (simp add: line_ok_def)
  have c: "cstr ?row = ?t" "terminated ?row" using cstr_row [OF r(2) n(2)] r(3) by simp_all
  have tk: "take (length ?t) ?row = ?t" "length ?t \<le> length ?row"
    using cstr_atD(1,2) [of 0 ?row] c by (simp_all add: chunk_def)
  have m: "memcpy (blit sb 0 ?T) (length ?T) ?row (length ?t) = Some (blit sb 0 (?T @ ?t))"
    using memcpy_eq [of "blit sb 0 ?T" "length ?T" ?row "length ?t"] blit_append [of 0 ?T ?t sb] tk len t assms(2) by simp
  have w: "wr (blit sb 0 (?T @ ?t)) (length ?T + length ?t) 10 = Some (blit sb 0 (?T @ ?t @ [10]))"
    using blit_one [of "length (?T @ ?t)" "blit sb 0 (?T @ ?t)" 10] blit_append [of 0 "?T @ ?t" "[10]" sb] len t assms(2) by simp
  show ?case using Suc.IH n m w s by (simp add: save_row_def saved_text_Suc line_text_def)
qed

lemma save_eq:
  assumes "ed_rep e ls" "terminated (filename e)" "1920 \<le> length sb" "1024 \<le> length st" "fs_inv fs" "con_inv k"
    "length (cstr (filename e)) + length (saved_text 24 ls) + 7 \<le> 1024"
  shows "editor_save_file sb st e fs k =
    do { (_, fs') \<leftarrow> bdfs_write_file (cstr (filename e) @ [0]) (saved_text 24 ls) (of_nat (length (saved_text 24 ls))) fs;
         Some (e\<lparr>dirty := False\<rparr>, fs', k) }"
proof -
  let ?T = "saved_text 24 ls"
  have u: "unat (of_nat (length ?T) :: u32) = length ?T" using assms(7) by (simp add: unat_of_nat take_bit_nat_eq_self)
  have T: "length ?T \<le> 1920" using length_saved_text [of ls 24] ed_repD [OF assms(1)] by simp
  have f: "foldM (save_row e) [0..<24] (take 1920 sb, 0) = Some (blit (take 1920 sb) 0 ?T, length ?T)"
    using save_rows [OF assms(1), of "take 1920 sb" 24] assms(3) by simp
  have "syscall_write (filename e) (blit (take 1920 sb) 0 ?T) (of_nat (length ?T)) st fs k =
      do { (_, fs') \<leftarrow> bdfs_write_file (cstr (filename e) @ [0]) (take (length ?T) (blit (take 1920 sb) 0 ?T)) (of_nat (length ?T)) fs; Some (fs', k) }"
    using syscall_write_eq [OF assms(2) _ assms(4) _ assms(5,6), of "of_nat (length ?T)" "blit (take 1920 sb) 0 ?T"] assms(3,7) T unfolding u by simp
  then show ?thesis
    unfolding editor_save_file_def using f take_blit_0 [of ?T "take 1920 sb"] by (simp split: bind_splits)
qed

text \<open>Too much text leaves the 1024 bytes of \<^verbatim>\<open>syscall_write\<close>.\<close>

lemma strcpy_length: "strcpy d i s = Some d' \<Longrightarrow> length d' = length d"
  by (induction s arbitrary: d i) (auto simp: wr_eq_Some split: bind_splits if_splits)

lemma syscall_write_overflow:
  assumes "1024 < length (cstr path) + unat len + 7"
  shows "syscall_write path data len st fs k = None"
proof (rule ccontr)
  assume "syscall_write path data len st fs k \<noteq> None"
  then obtain r where "syscall_write path data len st fs k = Some r" by blast
  then obtain b0 b1 b2 b3 b4 where b: "wr (take 1024 st) 0 3 = Some b0" "strcpy b0 1 path = Some b1" "terminated path"
    "memcpy b1 (1 + length (cstr path) + 1) (le32 len) 4 = Some b2"
    "memcpy b2 (1 + length (cstr path) + 1 + 4) data (unat len) = Some b3"
    "wr b3 (1 + length (cstr path) + 1 + 4 + unat len) 4 = Some b4"
    unfolding syscall_write_def strlen_eq Let_def Option.bind_eq_Some_conv by (metis option.distinct(1) option.inject)
  have "length b0 \<le> 1024" using b(1) by (auto simp: wr_eq_Some)
  moreover have "length b1 = length b0" using strcpy_length [OF b(2)] .
  moreover have "length b3 = length b1" using b(4,5) by (auto simp: memcpy_eq split: if_splits)
  ultimately show False using b(6) assms by (auto simp: wr_eq_Some)
qed

section \<open>Keys that leave the buffer\<close>









section \<open>Properties\<close>


definition sample_lines :: "buf list" where
  "sample_lines = [[97, 98], [99]] @ replicate 22 []"

definition sample_editor :: editor where
  "sample_editor = \<lparr>cx = 1, cy = 0, buffer = rows sample_lines, filename = [97, 0] @ replicate 30 0, dirty = False\<rparr>"

lemma sample_rep: "ed_rep sample_editor sample_lines"
  by (simp add: ed_rep_def sample_editor_def sample_lines_def list_all_iff line_ok_def)


text \<open>
  (C22) Ctrl+S saves: the text of the lines that are not empty, in order, each followed by a newline
  except on the last row, as long as name and text fit the 1024 bytes of the system call's buffer.
  When the editor's name is a file of the current directory with enough sectors, reading it afterwards
  returns exactly this text (if its data are not in sector 0, which the saved table overruns); when the
  name does not exist, is a directory, or the text needs more sectors, nothing is stored.  In every
  case the editor goes on, forgets that the text was changed, and its lines and cursor stay as they were.
\<close>

theorem editor_save_writes:
  assumes "ed_rep e ls" "terminated (filename e)" "1920 \<le> length sb" "1024 \<le> length st" "fs_inv fs" "con_inv k"
    "length (cstr (filename e)) + length (saved_text 24 ls) + 7 \<le> 1024"
  shows "\<exists>fs'. editor_process_keypress sb st 0x1F True (e, fs, k) = Some (True, e\<lparr>dirty := False\<rparr>, fs', k) \<and> fs_inv fs' \<and>
    (case lookup (filename e) (current_dir_inode fs) fs of
       Some i \<Rightarrow>
         if ftype (file_table fs ! i) = BDFS_FILE_TYPE_FILE \<and> fits i (of_nat (length (saved_text 24 ls))) fs
         then \<forall>out. start_sector (file_table fs' ! i) \<noteq> 0 \<and> length (saved_text 24 ls) \<le> length out \<longrightarrow>
           bdfs_read_file (filename e) out fs' =
             Some (0, Some (of_nat (length (saved_text 24 ls))), saved_text 24 ls @ drop (length (saved_text 24 ls)) out)
         else fs' = fs
     | None \<Rightarrow> fs' = fs)"
proof -
  let ?T = "saved_text 24 ls" and ?p = "cstr (filename e) @ [0]"
  let ?n = "of_nat (length ?T) :: u32"
  have u: "unat ?n = length ?T" using assms(7) by (simp add: unat_of_nat take_bit_nat_eq_self)
  have c: "cstr ?p = cstr (filename e)" using cstr_append_zero [of "cstr (filename e)"] by simp
  have lk: "lookup ?p d fs = lookup (filename e) d fs" for d fs
    unfolding lookup_def by (intro first_idx_cong matches_cstr) (rule c)
  have n: "unat ?n \<le> length ?T" "unat ?n + 511 < 2 ^ 32" using u assms(7) by simp_all
  note w = write_eq [OF assms(5) _ n, of ?p]
  have t: "terminated ?p" by simp
  obtain r fs' where b: "bdfs_write_file ?p ?T ?n fs = Some (r, fs')" "fs_inv fs'"
    using fs_call_inv [OF assms(5), of "Write ?p ?T ?n"] n by auto
  have key: "editor_process_keypress sb st 0x1F True (e, fs, k) = Some (True, e\<lparr>dirty := False\<rparr>, fs', k)"
    by (simp add: editor_process_keypress_def save_eq [OF assms] b(1))
  have rd: "bdfs_read_file (filename e) out fs' = Some (0, Some ?n, ?T @ drop (length ?T) out)"
    if i: "lookup (filename e) (current_dir_inode fs) fs = Some i" "ftype (file_table fs ! i) = 0" "fits i ?n fs"
      and out: "start_sector (file_table fs' ! i) \<noteq> 0" "length ?T \<le> length out" for i out
  proof -
    have r: "r = uint ?n" using w [OF t] b(1) i by (simp add: lk)
    have "bdfs_read_file ?p out fs' = Some (0, Some ?n, blit out 0 (clobber (file_table fs') (file_table fs' ! i) (take (unat ?n) ?T)))"
      using read_after_write [OF assms(5) t n b(1) [unfolded r], of i out] i(1) out(2) u by (simp add: lk)
    moreover have "bdfs_read_file ?p out fs' = bdfs_read_file (filename e) out fs'"
      using read_eq [OF b(2) t] read_eq [OF b(2) assms(2)] by (simp add: lk)
    ultimately show ?thesis using out u by (simp add: clobber_def blit_def)
  qed
  show ?thesis
    by (rule exI [of _ fs']) (use key b(2) rd w [OF t] b(1) in \<open>auto simp: lk split: option.splits if_splits\<close>)
qed

theorem editor_save_writes_witness:
  "\<exists>fs'. editor_process_keypress (replicate 1920 0) (replicate 1024 0) 0x1F True (sample_editor\<lparr>filename := file_b\<rparr>, fs_b, boot_console) =
       Some (True, sample_editor\<lparr>filename := file_b, dirty := False\<rparr>, fs', boot_console) \<and>
     bdfs_read_file file_b (replicate 5 0) fs' = Some (0, Some 5, [97, 98, 10, 99, 10])"
proof -
  let ?e = "sample_editor\<lparr>filename := file_b\<rparr>" and ?T = "saved_text 24 sample_lines"
  let ?key = "editor_process_keypress (replicate 1920 0) (replicate 1024 0) 0x1F True (?e, fs_b, boot_console)"
  have t: "?T = [97, 98, 10, 99, 10]" by code_simp
  then have n: "length ?T = 5" "length (cstr (filename ?e)) + length ?T + 7 \<le> 1024" by (simp_all add: file_b_def)
  have f: "ed_rep ?e sample_lines" "terminated (filename ?e)" using sample_rep by (simp_all add: ed_rep_def)
  have z: "1920 \<le> length (replicate 1920 (0 :: byte))" "1024 \<le> length (replicate 1024 (0 :: byte))" by simp_all
  have l: "lookup file_b (current_dir_inode fs_b) fs_b = Some 9" "ftype (file_table fs_b ! 9) = 0" "fits 9 5 fs_b"
    using fs_b_lookup fs_b_table(2) by (simp_all add: fits_def fresh_entry_def)
  obtain fs' where k: "?key = Some (True, ?e\<lparr>dirty := False\<rparr>, fs', boot_console)"
    and r: "\<forall>out. start_sector (file_table fs' ! 9) \<noteq> 0 \<and> 5 \<le> length out \<longrightarrow>
      bdfs_read_file file_b out fs' = Some (0, Some 5, ?T @ drop 5 out)"
    using editor_save_writes [OF f z fs_b_inv boot_console_inv n(2)] l unfolding n(1) by auto
  have b: "cstr file_b @ [0] = file_b" by (simp add: file_b_def)
  have "bdfs_write_file file_b ?T 5 fs_b = Some (uint (5 :: u32), written 9 (target 9 fs_b) ?T 5 fs_b)"
    using write_eq [OF fs_b_inv file_b_terminated, of 5 ?T] l n(1) by simp
  then have "?key = Some (True, ?e\<lparr>dirty := False\<rparr>, written 9 (target 9 fs_b) ?T 5 fs_b, boot_console)"
    using save_eq [OF f z fs_b_inv boot_console_inv n(2)] by (simp add: editor_process_keypress_def n(1) b)
  then have "fs' = written 9 (target 9 fs_b) ?T 5 fs_b" using k by simp
  then have "start_sector (file_table fs' ! 9) \<noteq> 0"
    using fs_b_lookup fs_invD(2) [OF fs_b_inv] by (simp add: written_fields target_def fresh_entry_def)
  then have "bdfs_read_file file_b (replicate 5 0) fs' = Some (0, Some 5, ?T @ drop 5 (replicate 5 0))" using r by simp
  then show ?thesis using k t by (intro exI [of _ fs']) simp
qed

section \<open>Keys and calls that fail\<close>

text \<open>Releasing a key reads behind the 128 entries of the key table.\<close>

theorem key_release_out_of_table:
  "128 \<le> scancode \<Longrightarrow> editor_process_keypress sb st scancode ctrl (e, fs, k) = None"
proof -
  assume a: "128 \<le> scancode"
  then have "scancode \<notin> {0x1F, 0x10, 0x48, 0x50, 0x4B, 0x4D}" by auto
  moreover have "rd kbd_us (unat scancode) = None" using a by (simp add: rd_def word_le_nat_alt)
  ultimately show ?thesis by (simp add: editor_process_keypress_def)
qed

text \<open>Saving under a name that does not exist stores nothing and still clears the mark.\<close>

theorem save_missing_file:
  assumes "ed_rep e ls" "terminated (filename e)" "1920 \<le> length sb" "1024 \<le> length st" "fs_inv fs" "con_inv k"
    "length (cstr (filename e)) + length (saved_text 24 ls) + 7 \<le> 1024"
    "lookup (cstr (filename e) @ [0]) (current_dir_inode fs) fs = None"
  shows "editor_save_file sb st e fs k = Some (e\<lparr>dirty := False\<rparr>, fs, k)"
proof -
  let ?T = "saved_text 24 ls"
  have "unat (of_nat (length ?T) :: u32) = length ?T" using assms(7) by (simp add: unat_of_nat take_bit_nat_eq_self)
  then show ?thesis unfolding save_eq [OF assms(1-7)] using write_eq [OF assms(5), of "cstr (filename e) @ [0]" "of_nat (length ?T)" ?T] assms(7,8) by simp
qed

end
