(* ===== verification/Pmm.thy ===== *)
theory Pmm
  imports Memcore
begin

text \<open>
  The physical memory manager of \<^verbatim>\<open>src/memory/pmm.c\<close>.  The bitmap is the memory that starts at the
  linker symbol \<^verbatim>\<open>_kernel_end\<close>, a list of 32-bit words that reaches to the end of memory; the address
  of the symbol is a parameter of \<open>pmm_init\<close>, as the linker chooses it.  The memory map of the boot
  loader is a list of entries.  \<^term>\<open>None\<close> is an access outside of memory, or a loop that does not end.

  The bitmap is a value of its own here and not part of the memory that the frames make up: the code
  leaves the frame that holds the end of the bitmap free (theorem \<open>pmm_allocations_distinct\<close>), and
  what a later write to that frame would do to the bitmap is outside of the model.
\<close>

section \<open>Definitions\<close>

abbreviation (input) BLOCK_SIZE :: "'a :: len word" where "BLOCK_SIZE \<equiv> 4096"

record e820_entry =
  base :: u64
  len :: u64
  etype :: u32

record pmm =
  pmm_bitmap :: "u32 list"
  total_blocks :: u32
  used_blocks :: u32

definition set_block :: "u32 \<Rightarrow> pmm \<Rightarrow> pmm option" where
  "set_block b p =
     do { w \<leftarrow> rd (pmm_bitmap p) (unat (b div 32));
          m \<leftarrow> wr (pmm_bitmap p) (unat (b div 32)) (w OR push_bit (unat (b mod 32)) 1);
          Some (p\<lparr>pmm_bitmap := m\<rparr>) }"

definition clear_block :: "u32 \<Rightarrow> pmm \<Rightarrow> pmm option" where
  "clear_block b p =
     do { w \<leftarrow> rd (pmm_bitmap p) (unat (b div 32));
          m \<leftarrow> wr (pmm_bitmap p) (unat (b div 32)) (w AND NOT (push_bit (unat (b mod 32)) 1));
          Some (p\<lparr>pmm_bitmap := m\<rparr>) }"

definition test_block :: "u32 \<Rightarrow> pmm \<Rightarrow> u32 option" where
  "test_block b p =
     do { w \<leftarrow> rd (pmm_bitmap p) (unat (b div 32)); Some (w AND push_bit (unat (b mod 32)) 1) }"

text \<open>The two nested loops of \<^verbatim>\<open>find_first_free\<close>; the inner one is over the bits of a word.\<close>

fun find_free_word :: "nat list \<Rightarrow> u32 list \<Rightarrow> u32 option" where
  "find_free_word [] m = Some (-1)"
| "find_free_word (i # is) m =
     do { w \<leftarrow> rd m i;
          if w \<noteq> 0xFFFFFFFF
          then case first_idx (\<lambda>j. w AND push_bit j 1 = 0) [0..<32] of
                 Some j \<Rightarrow> Some (of_nat i * 32 + of_nat j)
               | None \<Rightarrow> find_free_word is m
          else find_free_word is m }"

definition find_first_free :: "pmm \<Rightarrow> u32 option" where
  "find_first_free p = find_free_word [0..<unat (total_blocks p div 32)] (pmm_bitmap p)"

text \<open>\<^verbatim>\<open>memset(pmm_bitmap, 0xFF, n)\<close> on little-endian words: the last one may be covered in part.\<close>

definition fill_word :: "nat \<Rightarrow> nat \<Rightarrow> u32 \<Rightarrow> u32" where
  "fill_word n i w = (if 4 * i + 4 \<le> n then 0xFFFFFFFF else if n \<le> 4 * i then w else w OR mask (8 * (n - 4 * i)))"

definition fill_ones :: "nat \<Rightarrow> u32 list \<Rightarrow> u32 list option" where
  "fill_ones n m =
     (if n \<le> 4 * length m then Some (map (\<lambda>i. fill_word n i (m ! i)) [0..<length m]) else None)"

fun total_mem_from :: "e820_entry list \<Rightarrow> u64 \<Rightarrow> u64" where
  "total_mem_from [] t = t"
| "total_mem_from (e # es) t =
     total_mem_from es (if etype e = 1 \<and> base e + len e > t then base e + len e else t)"

partial_function (option) free_region :: "u64 \<Rightarrow> u64 \<Rightarrow> u64 \<Rightarrow> pmm \<Rightarrow> pmm option" where
  "free_region bs ln j p =
     (if j < ln
      then do { p' \<leftarrow> clear_block (ucast ((bs + j) div BLOCK_SIZE)) p;
                free_region bs ln (j + BLOCK_SIZE) (p'\<lparr>used_blocks := used_blocks p' - 1\<rparr>) }
      else Some p)"

definition free_entry :: "e820_entry \<Rightarrow> pmm \<Rightarrow> pmm option" where
  "free_entry e p = (if etype e = 1 then free_region (base e) (len e) 0 p else Some p)"

definition reserve_block :: "nat \<Rightarrow> pmm \<Rightarrow> pmm option" where
  "reserve_block i p =
     do { t \<leftarrow> test_block (of_nat i) p;
          if t = 0 then do { p' \<leftarrow> set_block (of_nat i) p; Some (p'\<lparr>used_blocks := used_blocks p' + 1\<rparr>) }
          else Some p }"

definition pmm_init :: "u32 \<Rightarrow> e820_entry list \<Rightarrow> pmm \<Rightarrow> pmm option" where
  "pmm_init kernel_end mmap p =
     do { let total = ucast (total_mem_from mmap 0 div BLOCK_SIZE);
          let bitmap_size = total div 8;
          m \<leftarrow> fill_ones (unat bitmap_size) (pmm_bitmap p);
          let p1 = \<lparr>pmm_bitmap = m, total_blocks = total, used_blocks = total\<rparr>;
          p2 \<leftarrow> foldM free_entry mmap p1;
          foldM reserve_block [0..<unat ((kernel_end + bitmap_size) div BLOCK_SIZE)] p2 }"

definition pmm_alloc_block :: "pmm \<Rightarrow> (u32 \<times> pmm) option" where
  "pmm_alloc_block p =
     (if used_blocks p \<ge> total_blocks p then Some (0, p)
      else do {
        frame \<leftarrow> find_first_free p;
        if frame = -1 then Some (0, p)
        else do { p' \<leftarrow> set_block frame p;
                  Some (frame * BLOCK_SIZE, p'\<lparr>used_blocks := used_blocks p' + 1\<rparr>) } })"

definition pmm_free_block :: "u32 \<Rightarrow> pmm \<Rightarrow> pmm option" where
  "pmm_free_block block p =
     do { let frame = block div BLOCK_SIZE;
          t \<leftarrow> test_block frame p;
          if t \<noteq> 0 then do { p' \<leftarrow> clear_block frame p; Some (p'\<lparr>used_blocks := used_blocks p' - 1\<rparr>) }
          else Some p }"

definition pmm_get_total_memory :: "pmm \<Rightarrow> u32" where
  "pmm_get_total_memory p = total_blocks p * BLOCK_SIZE"

definition pmm_get_used_memory :: "pmm \<Rightarrow> u32" where
  "pmm_get_used_memory p = used_blocks p * BLOCK_SIZE"

definition pmm_get_free_memory :: "pmm \<Rightarrow> u32" where
  "pmm_get_free_memory p = (total_blocks p - used_blocks p) * BLOCK_SIZE"

section \<open>Single bits\<close>

text \<open>Whether a block is marked as used, and the state with one mark changed.\<close>

definition marked :: "pmm \<Rightarrow> nat \<Rightarrow> bool" where
  "marked p b = bit (pmm_bitmap p ! (b div 32)) (b mod 32)"

lemma marked_counter [simp]: "marked (p\<lparr>used_blocks := u\<rparr>) = marked p"
  by (rule ext) (simp add: marked_def)

lemma unat_div32 [simp]: "unat ((b :: u32) div 32) = unat b div 32" "unat ((b :: u32) mod 32) = unat b mod 32"
  by (simp_all add: unat_div unat_mod)

lemma test_block_eq:
  assumes "unat b < 32 * length (pmm_bitmap p)"
  obtains t where "test_block b p = Some t" "t \<noteq> 0 \<longleftrightarrow> marked p (unat b)"
proof -
  have "unat b div 32 < length (pmm_bitmap p)" using assms by auto
  then show ?thesis
    using that by (simp add: test_block_def marked_def push_bit_of_1 and_exp_eq_0_iff_not_bit)
qed

lemma set_block_eq:
  assumes "unat b < 32 * length (pmm_bitmap p)"
  obtains p' where "set_block b p = Some p'" "length (pmm_bitmap p') = length (pmm_bitmap p)"
    "total_blocks p' = total_blocks p" "used_blocks p' = used_blocks p"
    "\<And>c. c < 32 * length (pmm_bitmap p) \<Longrightarrow> marked p' c \<longleftrightarrow> c = unat b \<or> marked p c"
proof -
  have i: "unat b div 32 < length (pmm_bitmap p)" using assms by auto
  let ?p = "p\<lparr>pmm_bitmap := (pmm_bitmap p)[unat b div 32 :=
      (pmm_bitmap p ! (unat b div 32)) OR push_bit (unat b mod 32) 1]\<rparr>"
  have "marked ?p c \<longleftrightarrow> c = unat b \<or> marked p c" for c
  proof (cases "c div 32 = unat b div 32")
    case True
    then have "c mod 32 = unat b mod 32 \<longleftrightarrow> c = unat b" by (metis div_mult_mod_eq)
    then show ?thesis using True i by (auto simp: marked_def push_bit_of_1 bit_simps)
  next
    case False
    then show ?thesis by (auto simp: marked_def)
  qed
  then show ?thesis using that [of ?p] i by (simp add: set_block_def)
qed

lemma clear_block_eq:
  assumes "unat b < 32 * length (pmm_bitmap p)"
  obtains p' where "clear_block b p = Some p'" "length (pmm_bitmap p') = length (pmm_bitmap p)"
    "total_blocks p' = total_blocks p" "used_blocks p' = used_blocks p"
    "\<And>c. c < 32 * length (pmm_bitmap p) \<Longrightarrow> marked p' c \<longleftrightarrow> c \<noteq> unat b \<and> marked p c"
proof -
  have i: "unat b div 32 < length (pmm_bitmap p)" using assms by auto
  let ?p = "p\<lparr>pmm_bitmap := (pmm_bitmap p)[unat b div 32 :=
      (pmm_bitmap p ! (unat b div 32)) AND NOT (push_bit (unat b mod 32) 1)]\<rparr>"
  have "marked ?p c \<longleftrightarrow> c \<noteq> unat b \<and> marked p c" for c
  proof (cases "c div 32 = unat b div 32")
    case True
    then have "c mod 32 = unat b mod 32 \<longleftrightarrow> c = unat b" by (metis div_mult_mod_eq)
    then show ?thesis using True i by (auto simp: marked_def push_bit_of_1 bit_simps)
  next
    case False
    then show ?thesis by (auto simp: marked_def)
  qed
  then show ?thesis using that [of ?p] i by (simp add: clear_block_def)
qed

section \<open>Searching\<close>

definition word_marked :: "u32 list \<Rightarrow> nat \<Rightarrow> bool" where
  "word_marked m b = bit (m ! (b div 32)) (b mod 32)"

lemma all_bits_set: "(w :: u32) = 0xFFFFFFFF \<longleftrightarrow> (\<forall>j < 32. bit w j)"
proof -
  have "(0xFFFFFFFF :: u32) = mask 32" by (simp add: mask_eq_exp_minus_1)
  then show ?thesis by (auto simp: bit_eq_iff bit_mask_iff)
qed

lemma first_clear_bit:
  assumes "(w :: u32) \<noteq> 0xFFFFFFFF"
  obtains j where "first_idx (\<lambda>j. w AND push_bit j 1 = 0) [0..<32] = Some j" "j < 32" "\<not> bit w j"
    "\<forall>i < j. bit w i"
proof -
  have "first_idx (\<lambda>j. w AND push_bit j 1 = 0) [0..<32] \<noteq> None"
    using assms all_bits_set [of w]
    by (auto simp: first_idx_None push_bit_of_1 and_exp_eq_0_iff_not_bit simp del: upt_rec_numeral)
  then obtain j where j: "first_idx (\<lambda>j. w AND push_bit j 1 = 0) [0..<32] = Some j" by auto
  then have "j < 32 \<and> \<not> bit w j \<and> (\<forall>i < j. bit w i)"
    by (auto simp: first_idx_Some push_bit_of_1 and_exp_eq_0_iff_not_bit simp del: upt_rec_numeral)
  then show ?thesis using that j by blast
qed

text \<open>The search returns the least unmarked block of the words it visits, or \<open>-1\<close>.\<close>

lemma find_free_word_eq:
  assumes "n \<le> length m" "32 * n < 2 ^ 32"
  shows "find_free_word [k..<n] m =
     Some (case first_idx (\<lambda>b. \<not> word_marked m b) [32 * k..<32 * n] of
       None \<Rightarrow> -1 | Some d \<Rightarrow> of_nat (32 * k + d))"
proof (induction "n - k" arbitrary: k)
  case 0
  then show ?case by simp
next
  case (Suc x)
  then have k: "k < n" by simp
  have ih: "find_free_word [Suc k..<n] m =
     Some (case first_idx (\<lambda>b. \<not> word_marked m b) [32 * Suc k..<32 * n] of
       None \<Rightarrow> -1 | Some d \<Rightarrow> of_nat (32 * Suc k + d))"
    by (rule Suc.hyps(1)) (use Suc.hyps(2) in simp)
  have split: "[32 * k..<32 * n] = [32 * k..<32 * Suc k] @ [32 * Suc k..<32 * n]"
    using k upt_add_eq_append [of "32 * k" "32 * Suc k" "32 * n - 32 * Suc k"] by simp
  have wm: "word_marked m (32 * k + j) = bit (m ! k) j" if "j < 32" for j
    using that by (simp add: word_marked_def)
  have r: "rd m k = Some (m ! k)" using k assms(1) by simp
  have lw: "length [32 * k..<32 * Suc k] = 32" by (simp only: length_upt mult_Suc_right add_diff_cancel_right')
  have nth: "[32 * k..<32 * Suc k] ! i = 32 * k + i" if "i < 32" for i
    by (rule nth_upt) (use that in simp)
  show ?case
  proof (cases "m ! k = 0xFFFFFFFF")
    case True
    have "word_marked m b" if "b \<in> set [32 * k..<32 * Suc k]" for b
      using all_bits_set [of "m ! k"] wm [of "b - 32 * k"] True that by auto
    then have none: "first_idx (\<lambda>b. \<not> word_marked m b) [32 * k..<32 * Suc k] = None"
      unfolding first_idx_None by blast
    have "find_free_word [k..<n] m = find_free_word [Suc k..<n] m"
      unfolding upt_conv_Cons [OF k] by (simp only: find_free_word.simps r bind.bind_lunit True simp_thms if_False)
    then show ?thesis
      unfolding ih split first_idx_append none lw
      by (cases "first_idx (\<lambda>b. \<not> word_marked m b) [32 * Suc k..<32 * n]") (simp_all del: upt_Suc)
  next
    case False
    obtain j where j: "first_idx (\<lambda>j. (m ! k) AND push_bit j 1 = 0) [0..<32] = Some j" "j < 32"
      "\<not> bit (m ! k) j" "\<forall>i < j. bit (m ! k) i"
      using first_clear_bit [OF False] .
    have "first_idx (\<lambda>b. \<not> word_marked m b) [32 * k..<32 * Suc k] = Some j"
      unfolding first_idx_Some lw using j nth wm by simp
    moreover have "find_free_word [k..<n] m = Some (of_nat k * 32 + of_nat j)"
      unfolding upt_conv_Cons [OF k] find_free_word.simps r
      using False j(1) by (simp del: upt_rec_numeral push_bit_of_1)
    ultimately show ?thesis unfolding split first_idx_append by (simp del: upt_Suc)
  qed
qed

section \<open>Allocation\<close>

definition free_frame :: "pmm \<Rightarrow> nat option" where
  "free_frame p = first_idx (\<lambda>b. \<not> marked p b) [0..<32 * (unat (total_blocks p) div 32)]"

text \<open>
  At most 4 GiB are managed, the bitmap has a bit for every block, and the counter agrees with it;
  block 0 is never free, so that the address 0 can mean failure.
\<close>

definition pmm_inv :: "pmm \<Rightarrow> bool" where
  "pmm_inv p \<longleftrightarrow> unat (total_blocks p) \<le> 2 ^ 20 \<and> unat (total_blocks p) \<le> 32 * length (pmm_bitmap p) \<and>
     unat (used_blocks p) = card {b. b < unat (total_blocks p) \<and> marked p b} \<and> 0 < unat (total_blocks p) \<and> marked p 0"

lemma find_first_free_eq:
  assumes "unat (total_blocks p) \<le> 32 * length (pmm_bitmap p)"
  shows "find_first_free p = Some (case free_frame p of None \<Rightarrow> -1 | Some b \<Rightarrow> of_nat b)"
  using find_free_word_eq [of "unat (total_blocks p) div 32" "pmm_bitmap p" 0] assms
    unsigned_less [of "total_blocks p", where 'a = nat]
  by (simp add: find_first_free_def free_frame_def word_marked_def marked_def split: option.splits)

lemma free_frame_Some:
  "free_frame p = Some b \<Longrightarrow> b < unat (total_blocks p) \<and> \<not> marked p b \<and> (\<forall>c < b. marked p c)"
  by (auto simp: free_frame_def first_idx_Some)

lemma free_frame_None:
  "free_frame p = None \<Longrightarrow> b < 32 * (unat (total_blocks p) div 32) \<Longrightarrow> marked p b"
  by (auto simp: free_frame_def first_idx_None)

lemma unat_of_nat_u32: "b < 2 ^ 32 \<Longrightarrow> unat (of_nat b :: u32) = b"
  by (simp add: unat_of_nat)

lemma card_insert_mark:
  assumes "b < (n :: nat)" "\<not> P b"
  shows "card {c. c < n \<and> (c = b \<or> P c)} = Suc (card {c. c < n \<and> P c})"
proof -
  have "{c. c < n \<and> (c = b \<or> P c)} = insert b {c. c < n \<and> P c}" using assms(1) by auto
  then show ?thesis using assms(2) by simp
qed

lemma card_remove_mark:
  assumes "b < (n :: nat)" "P b"
  shows "card {c. c < n \<and> P c} = Suc (card {c. c < n \<and> c \<noteq> b \<and> P c})"
proof -
  have "{c. c < n \<and> P c} = insert b {c. c < n \<and> c \<noteq> b \<and> P c}" using assms by auto
  then show ?thesis by simp
qed

lemma card_marks_le: "card {c. c < n \<and> P c} \<le> (n :: nat)"
  using card_mono [of "{..<n}" "{c. c < n \<and> P c}"] by auto

lemma unat_inc: "unat (u :: u32) < 2 ^ 32 - 1 \<Longrightarrow> unat (u + 1) = Suc (unat u)"
  by (simp add: unat_word_ariths)

lemma unat_dec: "0 < unat (u :: u32) \<Longrightarrow> unat (u - 1) = unat u - 1"
  by (simp add: unat_sub word_le_nat_alt)

lemma alloc_eq:
  assumes "pmm_inv p"
  shows "case free_frame p of
      None \<Rightarrow> pmm_alloc_block p = Some (0, p)
    | Some b \<Rightarrow> \<exists>p'. pmm_alloc_block p = Some (of_nat b * 4096, p') \<and> pmm_inv p' \<and> 0 < b \<and> b < 2 ^ 20 \<and>
        total_blocks p' = total_blocks p \<and>
        (\<forall>c < unat (total_blocks p). marked p' c \<longleftrightarrow> c = b \<or> marked p c)"
proof -
  note i = assms [unfolded pmm_inv_def]
  have ff: "find_first_free p = Some (case free_frame p of None \<Rightarrow> -1 | Some b \<Rightarrow> of_nat b)"
    using i by (intro find_first_free_eq) simp
  show ?thesis
  proof (cases "free_frame p")
    case None
    then show ?thesis using ff by (simp add: pmm_alloc_block_def)
  next
    case (Some b)
    note b = free_frame_Some [OF Some]
    have b20: "b < 2 ^ 20" using b i by linarith
    then have ub: "unat (of_nat b :: u32) = b" by (intro unat_of_nat_u32) simp
    have minus1: "unat (-1 :: u32) = 4294967295"
      by (simp add: unsigned_minus_1_eq_mask mask_eq_exp_minus_1)
    from ub have nm1: "(of_nat b :: u32) \<noteq> -1" using b20 minus1 by auto
    have r: "unat (of_nat b :: u32) < 32 * length (pmm_bitmap p)" using b i ub by linarith
    obtain p' where p': "set_block (of_nat b) p = Some p'" "length (pmm_bitmap p') = length (pmm_bitmap p)"
      "total_blocks p' = total_blocks p" "used_blocks p' = used_blocks p"
      "\<And>c. c < 32 * length (pmm_bitmap p) \<Longrightarrow> marked p' c \<longleftrightarrow> c = unat (of_nat b :: u32) \<or> marked p c"
      using set_block_eq [OF r] by metis
    have card: "card {c. c < unat (total_blocks p) \<and> (c = b \<or> marked p c)} = Suc (unat (used_blocks p))"
      using card_insert_mark [of b _ "marked p"] b i by simp
    then have lt: "unat (used_blocks p) < unat (total_blocks p)"
      using card_marks_le [of "unat (total_blocks p)" "\<lambda>c. c = b \<or> marked p c"] by simp
    have m: "marked p' c \<longleftrightarrow> c = b \<or> marked p c" if "c < unat (total_blocks p)" for c
      using p'(5) [of c] that i ub by simp
    have "unat (used_blocks p' + 1) = Suc (unat (used_blocks p))"
      using lt i p'(4) by (intro trans [OF unat_inc]) auto
    moreover have "{c. c < unat (total_blocks p) \<and> marked p' c} = {c. c < unat (total_blocks p) \<and> (c = b \<or> marked p c)}"
      using m by auto
    ultimately have "pmm_inv (p'\<lparr>used_blocks := used_blocks p' + 1\<rparr>)"
      using i p'(2-4) m [of 0] card by (simp add: pmm_inv_def)
    moreover have "\<not> used_blocks p \<ge> total_blocks p" using lt by (simp add: word_le_nat_alt)
    ultimately show ?thesis
      using Some ff nm1 p' m b b20 i
      by (cases b) (auto simp: pmm_alloc_block_def)
  qed
qed

lemma free_eq:
  assumes "pmm_inv p" "0 < unat block div 4096" "unat block div 4096 < unat (total_blocks p)"
  shows "\<exists>p'. pmm_free_block block p = Some p' \<and> pmm_inv p' \<and> total_blocks p' = total_blocks p \<and>
    (\<forall>c < unat (total_blocks p). marked p' c \<longleftrightarrow> c \<noteq> unat block div 4096 \<and> marked p c)"
proof -
  note i = assms(1) [unfolded pmm_inv_def]
  let ?f = "block div 4096" and ?n = "unat block div 4096"
  have f: "unat ?f = ?n" by (simp add: unat_div)
  have r: "unat ?f < 32 * length (pmm_bitmap p)" using assms(3) i f by linarith
  obtain t where t: "test_block ?f p = Some t" "t \<noteq> 0 \<longleftrightarrow> marked p ?n" using test_block_eq [OF r] f by metis
  show ?thesis
  proof (cases "marked p ?n")
    case False
    then show ?thesis using t assms(1) by (auto simp: pmm_free_block_def)
  next
    case True
    obtain p' where p': "clear_block ?f p = Some p'" "length (pmm_bitmap p') = length (pmm_bitmap p)"
      "total_blocks p' = total_blocks p" "used_blocks p' = used_blocks p"
      "\<And>c. c < 32 * length (pmm_bitmap p) \<Longrightarrow> marked p' c \<longleftrightarrow> c \<noteq> ?n \<and> marked p c"
      using clear_block_eq [OF r] f by metis
    have m: "marked p' c \<longleftrightarrow> c \<noteq> ?n \<and> marked p c" if "c < unat (total_blocks p)" for c
      using p'(5) [of c] that i by simp
    have "{c. c < unat (total_blocks p) \<and> marked p' c} = {c. c < unat (total_blocks p) \<and> c \<noteq> ?n \<and> marked p c}"
      using m by auto
    moreover have "card {c. c < unat (total_blocks p) \<and> marked p c} =
        Suc (card {c. c < unat (total_blocks p) \<and> c \<noteq> ?n \<and> marked p c})"
      by (rule card_remove_mark [OF assms(3)]) (rule True)
    ultimately have "unat (used_blocks p' - 1) = card {c. c < unat (total_blocks p) \<and> marked p' c}"
      using i p'(4) unat_dec [of "used_blocks p'"] by simp
    then have "pmm_inv (p'\<lparr>used_blocks := used_blocks p' - 1\<rparr>)"
      using i p'(2,3) m [of 0] assms(2) by (simp add: pmm_inv_def)
    then show ?thesis using t True p' m by (auto simp: pmm_free_block_def)
  qed
qed

section \<open>The allocator as a source of frames\<close>

text \<open>Repeated allocation, as the page-table code does it.\<close>

fun draw :: "('s \<Rightarrow> (u32 \<times> 's) option) \<Rightarrow> nat \<Rightarrow> 's \<Rightarrow> (u32 list \<times> 's) option" where
  "draw alloc 0 s = Some ([], s)"
| "draw alloc (Suc n) s =
     do { (a, s1) \<leftarrow> alloc s; (as, s2) \<leftarrow> draw alloc n s1; Some (a # as, s2) }"

locale frame_source =
  fixes alloc :: "'s \<Rightarrow> (u32 \<times> 's) option" and inv :: "'s \<Rightarrow> bool" and owned :: "'s \<Rightarrow> u32 set"
  assumes alloc: "inv s \<Longrightarrow> \<exists>a s'. alloc s = Some (a, s') \<and> inv s' \<and>
      (if a = 0 then owned s' = owned s else a mod 4096 = 0 \<and> a \<notin> owned s \<and> owned s' = insert a (owned s))"
begin

lemma draw_distinct:
  "inv s \<Longrightarrow> \<exists>as s'. draw alloc n s = Some (as, s') \<and> length as = n \<and> inv s' \<and>
     distinct (filter (\<lambda>a. a \<noteq> 0) as) \<and> set (filter (\<lambda>a. a \<noteq> 0) as) \<inter> owned s = {} \<and>
     owned s' = set (filter (\<lambda>a. a \<noteq> 0) as) \<union> owned s \<and> (\<forall>a \<in> set as. a mod 4096 = 0)"
proof (induction n arbitrary: s)
  case 0
  then show ?case by simp
next
  case (Suc n)
  obtain a s1 where a: "alloc s = Some (a, s1)" "inv s1"
    "if a = 0 then owned s1 = owned s else a mod 4096 = 0 \<and> a \<notin> owned s \<and> owned s1 = insert a (owned s)"
    using alloc [OF Suc.prems] by blast
  obtain as s2 where "draw alloc n s1 = Some (as, s2)" "length as = n" "inv s2"
    "distinct (filter (\<lambda>a. a \<noteq> 0) as)" "set (filter (\<lambda>a. a \<noteq> 0) as) \<inter> owned s1 = {}"
    "owned s2 = set (filter (\<lambda>a. a \<noteq> 0) as) \<union> owned s1" "\<forall>a \<in> set as. a mod 4096 = 0"
    using Suc.IH [OF a(2)] by blast
  then show ?case using a by (cases "a = 0") auto
qed

end

definition owned_frames :: "pmm \<Rightarrow> u32 set" where
  "owned_frames p = (\<lambda>b. of_nat b * 4096) ` {b. b < unat (total_blocks p) \<and> marked p b}"

lemma unat_frame_addr: "b < 2 ^ 20 \<Longrightarrow> unat (of_nat b * 4096 :: u32) = b * 4096"
  by (simp add: unat_word_ariths unat_of_nat)

lemma frame_addr_inj: "b < 2 ^ 20 \<Longrightarrow> c < 2 ^ 20 \<Longrightarrow> (of_nat b * 4096 :: u32) = of_nat c * 4096 \<Longrightarrow> b = c"
  by (drule arg_cong [of _ _ unat]) (simp only: unat_frame_addr mult_cancel2, simp)

lemma alloc_frame:
  assumes "pmm_inv p"
  shows "\<exists>a p'. pmm_alloc_block p = Some (a, p') \<and> pmm_inv p' \<and>
    (if a = 0 then owned_frames p' = owned_frames p
     else a mod 4096 = 0 \<and> a \<notin> owned_frames p \<and> owned_frames p' = insert a (owned_frames p))"
proof (cases "free_frame p")
  case None
  then show ?thesis using alloc_eq [OF assms] assms by simp
next
  case (Some b)
  obtain p' where p': "pmm_alloc_block p = Some (of_nat b * 4096, p')" "pmm_inv p'" "0 < b" "b < 2 ^ 20"
    "total_blocks p' = total_blocks p" "\<forall>c < unat (total_blocks p). marked p' c \<longleftrightarrow> c = b \<or> marked p c"
    using alloc_eq [OF assms] Some by auto
  note b = free_frame_Some [OF Some]
  have t: "unat (total_blocks p) \<le> 2 ^ 20" using assms by (simp add: pmm_inv_def)
  have "(of_nat b * 4096 :: u32) \<noteq> 0"
    using unat_frame_addr [OF p'(4)] p'(3) by (metis mult_is_0 neq0_conv unsigned_0 zero_neq_numeral)
  moreover have "unat ((of_nat b * 4096 :: u32) mod 4096) = 0"
    using unat_frame_addr [OF p'(4)] by (simp add: unat_mod)
  then have "(of_nat b * 4096 :: u32) mod 4096 = 0" by (simp only: unat_eq_zero)
  moreover have "of_nat b * 4096 \<notin> owned_frames p"
  proof
    assume "of_nat b * 4096 \<in> owned_frames p"
    then obtain c where c: "c < unat (total_blocks p)" "marked p c" "(of_nat b * 4096 :: u32) = of_nat c * 4096"
      by (auto simp: owned_frames_def)
    then have "b = c" using frame_addr_inj [OF p'(4), of c] t by linarith
    then show False using b c(2) by simp
  qed
  moreover have "{c. c < unat (total_blocks p) \<and> marked p' c} = insert b {c. c < unat (total_blocks p) \<and> marked p c}"
    using p'(6) b by auto
  then have "owned_frames p' = insert (of_nat b * 4096) (owned_frames p)"
    by (simp add: owned_frames_def p'(5))
  ultimately show ?thesis using p'(1,2) by auto
qed

interpretation frames: frame_source pmm_alloc_block pmm_inv owned_frames
  by unfold_locales (rule alloc_frame)

section \<open>Initialisation\<close>

definition free_one :: "nat \<Rightarrow> pmm \<Rightarrow> pmm option" where
  "free_one b p = do { p' \<leftarrow> clear_block (of_nat b) p; Some (p'\<lparr>used_blocks := used_blocks p' - 1\<rparr>) }"

definition block_count :: "e820_entry \<Rightarrow> nat" where
  "block_count e = (unat (len e) + 4095) div 4096"

text \<open>
  The blocks that the loop of \<^verbatim>\<open>pmm_init\<close> releases for an entry: the loop steps over the whole length,
  so a last block of which only a part is usable is among them.
\<close>

definition usable_blocks :: "e820_entry \<Rightarrow> nat list" where
  "usable_blocks e = (if etype e = 1
     then map (\<lambda>i. unat (base e) div 4096 + i) [0..<block_count e] else [])"

definition entry_end :: "e820_entry \<Rightarrow> nat" where
  "entry_end e = unat (base e) + unat (len e)"

lemma unat_of_nat_self: "of_nat (unat (w :: 'a :: len word)) = w"
  by simp

lemma ucast_of_nat_u32: "ucast (of_nat n :: u64) = (of_nat n :: u32)"
  by (rule bit_word_eqI) (simp add: bit_simps)

lemma free_region_eq:
  assumes "entry_end e \<le> 2 ^ 32" "i \<le> block_count e"
  shows "free_region (base e) (len e) (of_nat (4096 * i)) p =
     foldM free_one (map (\<lambda>i. unat (base e) div 4096 + i) [i..<block_count e]) p"
  using assms(2)
proof (induction "block_count e - i" arbitrary: i p)
  case 0
  then have "unat (len e) \<le> 4096 * i" by (simp add: block_count_def)
  moreover have "4096 * i < 2 ^ 64" using 0 assms(1) by (simp add: block_count_def entry_end_def)
  then have "unat (of_nat (4096 * i) :: u64) = 4096 * i" by (simp only: unat_of_nat) simp
  ultimately have "\<not> (of_nat (4096 * i) < len e)" by (simp only: word_less_nat_alt not_less)
  then show ?case using 0 by (subst free_region.simps) simp
next
  case (Suc x)
  let ?j = "of_nat (4096 * i) :: u64"
  have lt: "4096 * i < unat (len e)" using Suc.hyps(2) by (simp add: block_count_def)
  then have b: "4096 * i + 4096 < 2 ^ 64" and b2: "unat (base e) + 4096 * i < 2 ^ 64"
    using assms(1) by (auto simp: entry_end_def)
  have uj: "unat ?j = 4096 * i" using b by (simp only: unat_of_nat) simp
  have "unat (base e + ?j) = unat (base e) + 4096 * i" using b2 uj by (simp only: unat_word_ariths) simp
  then have "unat ((base e + ?j) div 4096) = unat (base e) div 4096 + i" by (simp add: unat_div)
  then have "(base e + ?j) div 4096 = of_nat (unat (base e) div 4096 + i)" by (metis unat_of_nat_self)
  then have frame: "ucast ((base e + ?j) div 4096) = (of_nat (unat (base e) div 4096 + i) :: u32)"
    by (simp only: ucast_of_nat_u32)
  have step: "?j + 4096 = of_nat (4096 * Suc i)" by simp
  have less: "?j < len e" using lt uj by (simp only: word_less_nat_alt)
  have ih: "free_region (base e) (len e) (of_nat (4096 * Suc i)) q =
      foldM free_one (map (\<lambda>i. unat (base e) div 4096 + i) [Suc i..<block_count e]) q" for q
    by (rule Suc.hyps(1)) (use Suc.hyps(2) in simp_all)
  have "[i..<block_count e] = i # [Suc i..<block_count e]" using Suc.hyps(2) by (intro upt_conv_Cons) simp
  then show ?case
    unfolding free_region.simps [of "base e" "len e" ?j] step frame ih
    by (simp only: less if_True list.map foldM.simps free_one_def Option.bind_assoc bind.bind_lunit)
qed

lemma free_entry_eq:
  "(etype e = 1 \<Longrightarrow> entry_end e \<le> 2 ^ 32) \<Longrightarrow> free_entry e p = foldM free_one (usable_blocks e) p"
  using free_region_eq [of e 0 p] by (simp add: free_entry_def usable_blocks_def)

lemma free_entries_eq:
  "\<forall>e \<in> set mmap. etype e = 1 \<longrightarrow> entry_end e \<le> 2 ^ 32 \<Longrightarrow>
   foldM free_entry mmap p = foldM free_one (concat (map usable_blocks mmap)) p"
proof (induction mmap arbitrary: p)
  case (Cons e mmap)
  then have "foldM free_entry mmap = foldM free_one (concat (map usable_blocks mmap))" by auto
  then show ?case using free_entry_eq [of e p] Cons.prems by (simp add: foldM_append)
qed simp

lemma free_one_eq:
  assumes "b < 32 * length (pmm_bitmap p)" "b < 2 ^ 32"
  obtains p' where "free_one b p = Some p'" "length (pmm_bitmap p') = length (pmm_bitmap p)"
    "total_blocks p' = total_blocks p" "used_blocks p' = used_blocks p - 1"
    "\<And>c. c < 32 * length (pmm_bitmap p) \<Longrightarrow> marked p' c \<longleftrightarrow> c \<noteq> b \<and> marked p c"
proof -
  have u: "unat (of_nat b :: u32) = b" by (rule unat_of_nat_u32 [OF assms(2)])
  have r: "unat (of_nat b :: u32) < 32 * length (pmm_bitmap p)" using assms(1) u by simp
  obtain q where "clear_block (of_nat b) p = Some q" "length (pmm_bitmap q) = length (pmm_bitmap p)"
    "total_blocks q = total_blocks p" "used_blocks q = used_blocks p"
    "\<And>c. c < 32 * length (pmm_bitmap p) \<Longrightarrow> marked q c \<longleftrightarrow> c \<noteq> b \<and> marked p c"
    using clear_block_eq [OF r] u by metis
  then show ?thesis using that [of "q\<lparr>used_blocks := used_blocks q - 1\<rparr>"] by (simp add: free_one_def)
qed

definition counted :: "pmm \<Rightarrow> bool" where
  "counted p \<longleftrightarrow> unat (used_blocks p) = card {b. b < unat (total_blocks p) \<and> marked p b}"

text \<open>Freeing distinct marked blocks keeps the counter exact.\<close>

lemma free_blocks:
  "\<forall>b \<in> set bs. b < 32 * length (pmm_bitmap p) \<and> b < 2 ^ 32 \<Longrightarrow>
   \<exists>p'. foldM free_one bs p = Some p' \<and> length (pmm_bitmap p') = length (pmm_bitmap p) \<and>
     total_blocks p' = total_blocks p \<and>
     (\<forall>c < 32 * length (pmm_bitmap p). marked p' c \<longleftrightarrow> c \<notin> set bs \<and> marked p c) \<and>
     (counted p \<and> distinct bs \<and> (\<forall>b \<in> set bs. b < unat (total_blocks p) \<and> marked p b) \<and>
        unat (total_blocks p) \<le> 32 * length (pmm_bitmap p) \<longrightarrow> counted p')"
proof (induction bs arbitrary: p)
  case (Cons b bs)
  obtain q where q: "free_one b p = Some q" "length (pmm_bitmap q) = length (pmm_bitmap p)"
    "total_blocks q = total_blocks p" "used_blocks q = used_blocks p - 1"
    "\<And>c. c < 32 * length (pmm_bitmap p) \<Longrightarrow> marked q c \<longleftrightarrow> c \<noteq> b \<and> marked p c"
    using free_one_eq [of b p] Cons.prems by auto
  obtain p' where p': "foldM free_one bs q = Some p'" "length (pmm_bitmap p') = length (pmm_bitmap p)"
    "total_blocks p' = total_blocks p" "\<forall>c < 32 * length (pmm_bitmap p). marked p' c \<longleftrightarrow> c \<notin> set bs \<and> marked q c"
    "counted q \<and> distinct bs \<and> (\<forall>b \<in> set bs. b < unat (total_blocks p) \<and> marked q b) \<and>
        unat (total_blocks p) \<le> 32 * length (pmm_bitmap p) \<longrightarrow> counted p'"
    using Cons.IH [of q] Cons.prems q(2,3) by auto
  have cq: "counted q" if "counted p" "b < unat (total_blocks p)" "marked p b"
    "unat (total_blocks p) \<le> 32 * length (pmm_bitmap p)"
  proof -
    have "{c. c < unat (total_blocks p) \<and> marked q c} = {c. c < unat (total_blocks p) \<and> c \<noteq> b \<and> marked p c}"
      using q(5) that(4) by auto
    then show ?thesis
      using card_remove_mark [of b _ "marked p", OF that(2,3)] that(1) q(3,4) unat_dec [of "used_blocks p"]
      by (simp add: counted_def)
  qed
  have "counted p'" if "counted p" "distinct (b # bs)" "\<forall>x \<in> set (b # bs). x < unat (total_blocks p) \<and> marked p x"
    "unat (total_blocks p) \<le> 32 * length (pmm_bitmap p)"
  proof -
    have "\<forall>x \<in> set bs. x < unat (total_blocks p) \<and> marked q x" using that q(5) by fastforce
    then show ?thesis using p'(5) cq that by simp
  qed
  moreover have "\<forall>c < 32 * length (pmm_bitmap p). marked p' c \<longleftrightarrow> c \<notin> set (b # bs) \<and> marked p c"
    using p'(4) q(5) by auto
  ultimately show ?case using p'(1-3) q(1) by (auto simp del: set_simps)
qed simp

lemma reserve_one_eq:
  assumes "b < 32 * length (pmm_bitmap p)" "b < 2 ^ 32"
  obtains p' where "reserve_block b p = Some p'" "length (pmm_bitmap p') = length (pmm_bitmap p)"
    "total_blocks p' = total_blocks p" "used_blocks p' = (if marked p b then used_blocks p else used_blocks p + 1)"
    "\<And>c. c < 32 * length (pmm_bitmap p) \<Longrightarrow> marked p' c \<longleftrightarrow> c = b \<or> marked p c"
proof -
  have u: "unat (of_nat b :: u32) = b" by (rule unat_of_nat_u32 [OF assms(2)])
  have r: "unat (of_nat b :: u32) < 32 * length (pmm_bitmap p)" using assms(1) u by simp
  obtain t where t: "test_block (of_nat b) p = Some t" "t \<noteq> 0 \<longleftrightarrow> marked p b"
    using test_block_eq [OF r] u by metis
  obtain q where q: "set_block (of_nat b) p = Some q" "length (pmm_bitmap q) = length (pmm_bitmap p)"
    "total_blocks q = total_blocks p" "used_blocks q = used_blocks p"
    "\<And>c. c < 32 * length (pmm_bitmap p) \<Longrightarrow> marked q c \<longleftrightarrow> c = b \<or> marked p c"
    using set_block_eq [OF r] u by metis
  show ?thesis
  proof (cases "marked p b")
    case True
    then show ?thesis using t that [of p] by (auto simp: reserve_block_def)
  next
    case False
    then show ?thesis using t q that [of "q\<lparr>used_blocks := used_blocks q + 1\<rparr>"] by (simp add: reserve_block_def)
  qed
qed

lemma reserve_blocks:
  assumes "n \<le> 32 * length (pmm_bitmap p)" "n < 2 ^ 32"
  shows "\<exists>p'. foldM reserve_block [0..<n] p = Some p' \<and> length (pmm_bitmap p') = length (pmm_bitmap p) \<and>
     total_blocks p' = total_blocks p \<and>
     (\<forall>c < 32 * length (pmm_bitmap p). marked p' c \<longleftrightarrow> c < n \<or> marked p c) \<and>
     (counted p \<and> n \<le> unat (total_blocks p) \<and> unat (total_blocks p) \<le> 32 * length (pmm_bitmap p) \<longrightarrow> counted p')"
  using assms
proof (induction n)
  case (Suc n)
  obtain q where q: "foldM reserve_block [0..<n] p = Some q" "length (pmm_bitmap q) = length (pmm_bitmap p)"
    "total_blocks q = total_blocks p" "\<forall>c < 32 * length (pmm_bitmap p). marked q c \<longleftrightarrow> c < n \<or> marked p c"
    "counted p \<and> n \<le> unat (total_blocks p) \<and> unat (total_blocks p) \<le> 32 * length (pmm_bitmap p) \<longrightarrow> counted q"
    using Suc by auto
  obtain p' where p': "reserve_block n q = Some p'" "length (pmm_bitmap p') = length (pmm_bitmap p)"
    "total_blocks p' = total_blocks p" "used_blocks p' = (if marked q n then used_blocks q else used_blocks q + 1)"
    "\<And>c. c < 32 * length (pmm_bitmap p) \<Longrightarrow> marked p' c \<longleftrightarrow> c = n \<or> marked q c"
    using reserve_one_eq [of n q] Suc.prems q(2,3) by auto
  have "counted p'" if c: "counted p" "Suc n \<le> unat (total_blocks p)" "unat (total_blocks p) \<le> 32 * length (pmm_bitmap p)"
  proof -
    let ?t = "unat (total_blocks p)"
    have cq: "unat (used_blocks q) = card {b. b < ?t \<and> marked q b}" using q(3,5) c by (simp add: counted_def)
    have s: "{b. b < ?t \<and> marked p' b} = {b. b < ?t \<and> (b = n \<or> marked q b)}" using p'(5) c(3) by auto
    show ?thesis
    proof (cases "marked q n")
      case True
      then have "{b. b < ?t \<and> marked p' b} = {b. b < ?t \<and> marked q b}" using s by auto
      then show ?thesis using True cq p'(3,4) by (simp add: counted_def)
    next
      case False
      have k: "card {b. b < ?t \<and> (b = n \<or> marked q b)} = Suc (unat (used_blocks q))"
        using card_insert_mark [of n ?t "marked q"] False c(2) cq by simp
      then have "unat (used_blocks q) < 2 ^ 32 - 1"
        using card_marks_le [of ?t "\<lambda>b. b = n \<or> marked q b"] unsigned_less [of "total_blocks p", where 'a = nat] by simp
      then show ?thesis using unat_inc [of "used_blocks q"] False k s p'(3,4) by (simp add: counted_def)
    qed
  qed
  moreover have "\<forall>c < 32 * length (pmm_bitmap p). marked p' c \<longleftrightarrow> c < Suc n \<or> marked p c"
    using p'(5) q(4) by (auto simp: less_Suc_eq)
  ultimately show ?case using q(1) p'(1-3) by auto
qed simp

lemma fill_ones_eq:
  assumes "n \<le> 4 * length m"
  obtains m' where "fill_ones n m = Some m'" "length m' = length m"
    "\<And>b. b < 8 * n \<Longrightarrow> bit (m' ! (b div 32)) (b mod 32)"
proof -
  let ?m = "map (\<lambda>i. fill_word n i (m ! i)) [0..<length m]"
  have "bit (?m ! (b div 32)) (b mod 32)" if b: "b < 8 * n" for b
  proof -
    have i: "b div 32 < length m" using b assms by auto
    have "bit (fill_word n (b div 32) w) (b mod 32)" for w
    proof (cases "4 * (b div 32) + 4 \<le> n")
      case True
      then show ?thesis using all_bits_set [of "0xFFFFFFFF"] by (simp add: fill_word_def)
    next
      case False
      have "b mod 32 < 8 * (n - 4 * (b div 32))" "\<not> n \<le> 4 * (b div 32)"
        using b mult_div_mod_eq [of 32 b] by linarith+
      then show ?thesis using False by (simp add: fill_word_def bit_simps)
    qed
    then show ?thesis using i by simp
  qed
  then show ?thesis using that [of ?m] assms by (simp add: fill_ones_def)
qed

lemma unat_plus64:
  "unat (a :: u64) + unat b < 2 ^ 64 \<Longrightarrow> unat (a + b) = unat a + unat b"
  by (simp add: unat_word_ariths)

fun mem_top :: "e820_entry list \<Rightarrow> nat" where
  "mem_top [] = 0"
| "mem_top (e # es) = max (if etype e = 1 then entry_end e else 0) (mem_top es)"

lemma total_mem_from_eq:
  "\<forall>e \<in> set mmap. etype e = 1 \<longrightarrow> entry_end e \<le> 2 ^ 32 \<Longrightarrow>
   unat (total_mem_from mmap t) = max (unat t) (mem_top mmap)"
proof (induction mmap arbitrary: t)
  case (Cons e mmap)
  have "unat (if etype e = 1 \<and> base e + len e > t then base e + len e else t) =
      (if etype e = 1 then max (unat t) (entry_end e) else unat t)"
    using Cons.prems unat_plus64 [of "base e" "len e"]
    by (auto simp: entry_end_def word_less_nat_alt)
  then show ?case using Cons by (auto simp: max.assoc)
qed simp

lemma mem_top_le: "\<forall>e \<in> set mmap. etype e = 1 \<longrightarrow> entry_end e \<le> n \<Longrightarrow> mem_top mmap \<le> n"
  by (induction mmap) auto

lemma mem_top_ge: "e \<in> set mmap \<Longrightarrow> etype e = 1 \<Longrightarrow> entry_end e \<le> mem_top mmap"
  by (induction mmap) auto

text \<open>
  The address behind the kernel and the bitmap, and the number of blocks that \<^verbatim>\<open>pmm_init\<close> reserves for
  them.  The division rounds down: a block that the end of the bitmap cuts is not counted.
\<close>

definition bitmap_end :: "u32 \<Rightarrow> e820_entry list \<Rightarrow> nat" where
  "bitmap_end kernel_end mmap = unat kernel_end + mem_top mmap div 4096 div 8"

definition kernel_blocks :: "u32 \<Rightarrow> e820_entry list \<Rightarrow> nat" where
  "kernel_blocks kernel_end mmap = bitmap_end kernel_end mmap div 4096"

text \<open>
  What the boot loader and the linker provide: usable regions below 4 GiB, and memory behind the
  kernel for the bitmap and for the blocks of the last partial region.
\<close>

definition boot_ok :: "u32 \<Rightarrow> e820_entry list \<Rightarrow> pmm \<Rightarrow> bool" where
  "boot_ok kernel_end mmap p \<longleftrightarrow> (\<forall>e \<in> set mmap. etype e = 1 \<longrightarrow> entry_end e \<le> 2 ^ 32) \<and>
     mem_top mmap div 4096 < 32 * length (pmm_bitmap p) \<and>
     bitmap_end kernel_end mmap < 2 ^ 32 \<and>
     kernel_blocks kernel_end mmap \<le> 32 * length (pmm_bitmap p)"

lemma usable_blocks_bound:
  assumes "b \<in> set (usable_blocks e)" "e \<in> set mmap"
  shows "b \<le> mem_top mmap div 4096"
proof -
  have e: "etype e = 1" and "b < unat (base e) div 4096 + block_count e"
    using assms(1) by (auto simp: usable_blocks_def split: if_splits)
  then have "4096 * b < unat (base e) + unat (len e)"
    unfolding block_count_def using mult_div_mod_eq [of 4096 "unat (base e)"] assms(1)
    by (auto simp: usable_blocks_def split: if_splits)
  then show ?thesis using mem_top_ge [OF assms(2) e] by (simp add: entry_end_def)
qed


lemma pmm_init_eq:
  assumes "boot_ok kernel_end mmap p"
  obtains p' where "pmm_init kernel_end mmap p = Some p'"
    "unat (total_blocks p') = mem_top mmap div 4096" "length (pmm_bitmap p') = length (pmm_bitmap p)"
    "\<And>b. b < 8 * (mem_top mmap div 4096 div 8) \<Longrightarrow> marked p' b \<longleftrightarrow>
       b < kernel_blocks kernel_end mmap \<or> (\<forall>e \<in> set mmap. b \<notin> set (usable_blocks e))"
    "8 dvd mem_top mmap div 4096 \<Longrightarrow> distinct (concat (map usable_blocks mmap)) \<Longrightarrow>
       (\<forall>e \<in> set mmap. \<forall>b \<in> set (usable_blocks e). b < mem_top mmap div 4096) \<Longrightarrow>
       kernel_blocks kernel_end mmap \<le> mem_top mmap div 4096 \<Longrightarrow> counted p'"
proof -
  note ok = assms [unfolded boot_ok_def]
  let ?T = "mem_top mmap div 4096" and ?L = "32 * length (pmm_bitmap p)"
  let ?w = "ucast (total_mem_from mmap 0 div 4096) :: u32"
  let ?bs = "concat (map usable_blocks mmap)"
  have top: "mem_top mmap \<le> 2 ^ 32" using ok by (intro mem_top_le) auto
  have "unat (total_mem_from mmap 0 div 4096) = ?T"
    using total_mem_from_eq [of mmap 0] ok by (simp add: unat_div)
  moreover have T: "?T \<le> 2 ^ 20" using div_le_mono [OF top, of 4096] by simp
  ultimately have w: "unat ?w = ?T" by (simp add: unsigned_ucast_eq take_bit_nat_eq_self)
  have w8: "unat (?w div 8) = ?T div 8" using w by (simp add: unat_div)
  have "unat (kernel_end + ?w div 8) = unat kernel_end + ?T div 8"
    using ok w8 by (simp add: unat_word_ariths bitmap_end_def)
  then have kb: "unat ((kernel_end + ?w div 8) div 4096) = kernel_blocks kernel_end mmap"
    by (simp add: unat_div kernel_blocks_def bitmap_end_def)
  have "?T div 8 \<le> 4 * length (pmm_bitmap p)" using ok by auto
  then obtain m where m: "fill_ones (?T div 8) (pmm_bitmap p) = Some m" "length m = length (pmm_bitmap p)"
    "\<And>b. b < 8 * (?T div 8) \<Longrightarrow> bit (m ! (b div 32)) (b mod 32)"
    using fill_ones_eq by metis
  define p1 where "p1 = \<lparr>pmm_bitmap = m, total_blocks = ?w, used_blocks = ?w\<rparr>"
  have p1: "length (pmm_bitmap p1) = length (pmm_bitmap p)" "unat (total_blocks p1) = ?T"
    "\<And>b. b < 8 * (?T div 8) \<Longrightarrow> marked p1 b"
    using m w by (simp_all add: p1_def marked_def)
  have "\<forall>b \<in> set ?bs. b < 32 * length (pmm_bitmap p1) \<and> b < 2 ^ 32"
    using usable_blocks_bound ok T p1(1) by fastforce
  note free_blocks [OF this]
  then obtain p2 where p2: "foldM free_one ?bs p1 = Some p2" "length (pmm_bitmap p2) = length (pmm_bitmap p)"
    "total_blocks p2 = total_blocks p1" "\<forall>c < ?L. marked p2 c \<longleftrightarrow> c \<notin> set ?bs \<and> marked p1 c"
    "counted p1 \<and> distinct ?bs \<and> (\<forall>b \<in> set ?bs. b < ?T \<and> marked p1 b) \<and> ?T \<le> ?L \<longrightarrow> counted p2"
    using p1(1,2) by auto
  have "kernel_blocks kernel_end mmap \<le> 32 * length (pmm_bitmap p2)" "kernel_blocks kernel_end mmap < 2 ^ 32"
    using ok p2(2) by (auto simp: kernel_blocks_def)
  note reserve_blocks [OF this]
  then obtain p3 where p3: "foldM reserve_block [0..<kernel_blocks kernel_end mmap] p2 = Some p3"
    "length (pmm_bitmap p3) = length (pmm_bitmap p)" "total_blocks p3 = total_blocks p1"
    "\<forall>c < ?L. marked p3 c \<longleftrightarrow> c < kernel_blocks kernel_end mmap \<or> marked p2 c"
    "counted p2 \<and> kernel_blocks kernel_end mmap \<le> ?T \<and> ?T \<le> ?L \<longrightarrow> counted p3"
    using p1(2) p2(2,3) by auto
  have "pmm_init kernel_end mmap p = Some p3"
    unfolding pmm_init_def Let_def w8 kb m(1) using free_entries_eq [of mmap p1] ok p2(1) p3(1)
    by (simp add: p1_def)
  moreover have "marked p3 b \<longleftrightarrow> b < kernel_blocks kernel_end mmap \<or> (\<forall>e \<in> set mmap. b \<notin> set (usable_blocks e))"
    if "b < 8 * (?T div 8)" for b
    using p3(4) p2(4) p1(3) that ok by auto
  moreover have "counted p3" if "8 dvd ?T" "distinct ?bs"
    "\<forall>e \<in> set mmap. \<forall>b \<in> set (usable_blocks e). b < ?T" "kernel_blocks kernel_end mmap \<le> ?T"
  proof -
    have t8: "8 * (?T div 8) = ?T" using that(1) by simp
    then have "{b. b < ?T \<and> marked p1 b} = {..<?T}" using p1(3) by auto
    then have "counted p1" using p1(2) w by (simp add: counted_def p1_def)
    then show ?thesis using p2(5) p3(5) that p1(3) t8 ok by auto
  qed
  ultimately show ?thesis using that [of p3] p3(2,3) p1(2) by simp
qed


text \<open>The blocks of a region in terms of addresses: a usable region touches a block when they overlap.\<close>

definition touches :: "e820_entry \<Rightarrow> nat \<Rightarrow> bool" where
  "touches e b \<longleftrightarrow> etype e = 1 \<and> unat (base e) < 4096 * (b + 1) \<and> 4096 * b < entry_end e"

definition starts_on_page :: "e820_entry \<Rightarrow> bool" where
  "starts_on_page e \<longleftrightarrow> (etype e = 1 \<longrightarrow> 4096 dvd unat (base e))"

lemma usable_touches:
  assumes "starts_on_page e"
  shows "b \<in> set (usable_blocks e) \<longleftrightarrow> touches e b"
proof (cases "etype e = 1")
  case True
  then obtain q where q: "unat (base e) = 4096 * q" using assms by (auto simp: starts_on_page_def)
  have "b \<in> set (usable_blocks e) \<longleftrightarrow> q \<le> b \<and> b < q + block_count e"
    using True q by (auto simp: usable_blocks_def image_iff intro: bexI [of _ "b - q"])
  also have "\<dots> \<longleftrightarrow> touches e b" using True q by (auto simp: touches_def entry_end_def block_count_def)
  finally show ?thesis .
qed (simp add: usable_blocks_def touches_def)

lemma reserved_iff: "b < kernel_blocks kernel_end mmap \<longleftrightarrow> 4096 * (b + 1) \<le> bitmap_end kernel_end mmap"
  using less_eq_div_iff_mult_less_eq [of 4096 "Suc b" "bitmap_end kernel_end mmap"]
  by (simp add: kernel_blocks_def Suc_le_eq mult.commute)

text \<open>Whole pages in regions that do not overlap.\<close>

definition apart :: "e820_entry \<Rightarrow> e820_entry \<Rightarrow> bool" where
  "apart a b \<longleftrightarrow> etype a = 1 \<longrightarrow> etype b = 1 \<longrightarrow> entry_end a \<le> unat (base b) \<or> entry_end b \<le> unat (base a)"

definition page_map :: "e820_entry list \<Rightarrow> bool" where
  "page_map mmap \<longleftrightarrow> (\<forall>e \<in> set mmap. etype e = 1 \<longrightarrow> 4096 dvd unat (base e) \<and> 4096 dvd unat (len e)) \<and> sorted_wrt apart mmap"

lemma page_map_start: "page_map mmap \<Longrightarrow> e \<in> set mmap \<Longrightarrow> starts_on_page e"
  by (simp add: page_map_def starts_on_page_def)

lemma page_map_distinct: "page_map mmap \<Longrightarrow> distinct (concat (map usable_blocks mmap))"
proof (induction mmap)
  case (Cons e es)
  have es: "page_map es" using Cons.prems by (auto simp: page_map_def)
  have s: "starts_on_page a" if "a \<in> set (e # es)" for a using Cons.prems that by (rule page_map_start)
  have "distinct (usable_blocks e)" by (simp add: usable_blocks_def distinct_map inj_on_def)
  moreover have "set (usable_blocks e) \<inter> set (usable_blocks a) = {}" if a: "a \<in> set es" for a
  proof -
    have "apart e a" "4096 dvd unat (base e) + unat (len e)" "4096 dvd unat (base a) + unat (len a)"
      if "etype e = 1" "etype a = 1" using Cons.prems a that by (simp_all add: page_map_def)
    then have "\<not> (touches e b \<and> touches a b)" for b
      using s [of e] s [of a] a
      by (auto simp: touches_def apart_def entry_end_def starts_on_page_def dvd_def)
    then show ?thesis using s [of e] s [of a] a by (auto simp: usable_touches)
  qed
  ultimately show ?case using Cons.IH [OF es] by auto
qed simp

section \<open>Properties\<close>

definition ram_map :: "e820_entry list" where
  "ram_map = [\<lparr>base = 0, len = 0x80000, etype = 1\<rparr>, \<lparr>base = 0x80000, len = 0x80000, etype = 2\<rparr>,
     \<lparr>base = 0x100000, len = 0x100000, etype = 1\<rparr>]"

definition ram_pmm :: pmm where
  "ram_pmm = \<lparr>pmm_bitmap = replicate 32 0, total_blocks = 0, used_blocks = 0\<rparr>"

lemma ram_map_facts: "boot_ok 0x20000 ram_map ram_pmm" "mem_top ram_map = 0x200000"
    "kernel_blocks 0x20000 ram_map = 32" "concat (map usable_blocks ram_map) = [0..<128] @ [256..<512]"
proof -
  show top: "mem_top ram_map = 0x200000" by (simp add: ram_map_def entry_end_def)
  show "kernel_blocks 0x20000 ram_map = 32" by (simp add: kernel_blocks_def bitmap_end_def top)
  then show "boot_ok 0x20000 ram_map ram_pmm"
    by (simp add: boot_ok_def bitmap_end_def top ram_pmm_def) (simp add: ram_map_def entry_end_def)
  have "map (\<lambda>i. 256 + i) [0..<256] = [256..<512]" using map_add_upt [of 256 256] by (simp add: add.commute)
  moreover have "map ((+) 0) [0..<128] = [0..<128 :: nat]" by (intro map_idI) simp
  ultimately show "concat (map usable_blocks ram_map) = [0..<128] @ [256..<512]"
    by (simp add: ram_map_def usable_blocks_def block_count_def del: upt_rec_numeral)
qed

lemma pmm_init_inv:
  assumes "boot_ok kernel_end mmap p" "8 dvd mem_top mmap div 4096" "distinct (concat (map usable_blocks mmap))"
    "\<forall>b \<in> set (concat (map usable_blocks mmap)). b < mem_top mmap div 4096"
    "0 < kernel_blocks kernel_end mmap" "kernel_blocks kernel_end mmap \<le> mem_top mmap div 4096"
  obtains p' where "pmm_init kernel_end mmap p = Some p'" "pmm_inv p'"
    "unat (total_blocks p') = mem_top mmap div 4096"
proof -
  have b: "\<forall>e \<in> set mmap. \<forall>b \<in> set (usable_blocks e). b < mem_top mmap div 4096" using assms(4) by auto
  obtain p' where p': "pmm_init kernel_end mmap p = Some p'"
    "unat (total_blocks p') = mem_top mmap div 4096" "length (pmm_bitmap p') = length (pmm_bitmap p)"
    "\<And>b. b < 8 * (mem_top mmap div 4096 div 8) \<Longrightarrow> marked p' b \<longleftrightarrow>
       b < kernel_blocks kernel_end mmap \<or> (\<forall>e \<in> set mmap. b \<notin> set (usable_blocks e))" "counted p'"
    by (rule pmm_init_eq [OF assms(1)]) (use assms(2,3,6) b in blast)
  have "mem_top mmap \<le> 2 ^ 32" using assms(1) by (intro mem_top_le) (auto simp: boot_ok_def)
  then have "mem_top mmap div 4096 \<le> 2 ^ 20" using div_le_mono [of _ "2 ^ 32" 4096] by fastforce
  moreover have "marked p' 0" using p'(4) [of 0] assms(2,5,6) by auto
  ultimately have "pmm_inv p'" using p' assms(1,5,6) by (auto simp: pmm_inv_def counted_def boot_ok_def)
  then show ?thesis using that p' by blast
qed

text \<open>
  (C17) After \<^verbatim>\<open>pmm_init\<close> a block (below the last multiple of eight) is marked as used exactly when it
  ends at or below the end of the bitmap, or when no usable region of the memory map touches it.  So
  the code reserves the kernel and its bitmap only up to the last block boundary: the block that the
  end of the bitmap cuts is free when it is usable, and so is a block that is usable in part.
\<close>

theorem pmm_init_marks:
  assumes "boot_ok kernel_end mmap p" "\<forall>e \<in> set mmap. starts_on_page e"
  shows "\<exists>p'. pmm_init kernel_end mmap p = Some p' \<and> unat (total_blocks p') = mem_top mmap div 4096 \<and>
     (\<forall>b < 8 * (mem_top mmap div 4096 div 8). marked p' b \<longleftrightarrow>
        4096 * (b + 1) \<le> bitmap_end kernel_end mmap \<or> \<not> (\<exists>e \<in> set mmap. touches e b))"
proof -
  have u: "(\<forall>e \<in> set mmap. b \<notin> set (usable_blocks e)) \<longleftrightarrow> \<not> (\<exists>e \<in> set mmap. touches e b)" for b
    using assms(2) usable_touches by blast
  show ?thesis using pmm_init_eq [OF assms(1)] unfolding u reserved_iff by metis
qed

text \<open>The memory map of the example, and the bitmap at 0x20000, whose only block is free after the start.\<close>

lemma ram_page_map: "page_map ram_map" "bitmap_end 0x20000 ram_map = 0x20040"
  by (simp_all add: ram_map_facts(2) bitmap_end_def) (simp add: page_map_def ram_map_def apart_def entry_end_def)

theorem pmm_init_marks_witness:
  "\<exists>p'. pmm_init 0x20000 ram_map ram_pmm = Some p' \<and> marked p' 31 \<and> \<not> marked p' 32 \<and> marked p' 128 \<and> \<not> marked p' 511"
proof -
  have t: "(\<exists>e \<in> set ram_map. touches e b) \<longleftrightarrow> b < 128 \<or> 256 \<le> b \<and> b < 512" for b
    by (auto simp: ram_map_def touches_def entry_end_def)
  obtain p' where p': "pmm_init 0x20000 ram_map ram_pmm = Some p'"
    "\<forall>b < 512. marked p' b \<longleftrightarrow> 4096 * (b + 1) \<le> 0x20040 \<or> \<not> (b < 128 \<or> 256 \<le> b \<and> b < 512)"
    using pmm_init_marks [OF ram_map_facts(1)] page_map_start [OF ram_page_map(1)]
    unfolding ram_map_facts(2) ram_page_map(2) t by auto
  then show ?thesis by simp
qed

lemma page_map_ready:
  assumes "boot_ok kernel_end mmap p" "page_map mmap" "8 dvd mem_top mmap div 4096"
    "4096 \<le> bitmap_end kernel_end mmap" "bitmap_end kernel_end mmap \<le> mem_top mmap"
  obtains p' where "pmm_init kernel_end mmap p = Some p'" "pmm_inv p'" "unat (total_blocks p') = mem_top mmap div 4096"
    "\<And>b. b < mem_top mmap div 4096 \<Longrightarrow>
       marked p' b \<longleftrightarrow> 4096 * (b + 1) \<le> bitmap_end kernel_end mmap \<or> \<not> (\<exists>e \<in> set mmap. touches e b)"
proof -
  have b: "b < mem_top mmap div 4096" if b: "b \<in> set (usable_blocks e)" "e \<in> set mmap" for e b
  proof -
    have t: "touches e b" using usable_touches [OF page_map_start [OF assms(2) b(2)]] b(1) by simp
    have "4096 dvd entry_end e"
      using assms(2) b(2) t unfolding entry_end_def by (intro dvd_add) (simp_all add: page_map_def touches_def)
    then obtain q where "entry_end e = 4096 * q" by (elim dvdE)
    then have "4096 * (b + 1) \<le> entry_end e" using t by (simp add: touches_def)
    also have "\<dots> \<le> mem_top mmap" using mem_top_ge [OF b(2)] t by (simp add: touches_def)
    finally show ?thesis
      using less_eq_div_iff_mult_less_eq [of 4096 "Suc b" "mem_top mmap"] by (simp add: Suc_le_eq mult.commute)
  qed
  have k: "0 < kernel_blocks kernel_end mmap" "kernel_blocks kernel_end mmap \<le> mem_top mmap div 4096"
    using assms(4,5) by (simp_all add: kernel_blocks_def div_greater_zero_iff div_le_mono)
  obtain p' where p': "pmm_init kernel_end mmap p = Some p'" "pmm_inv p'" "unat (total_blocks p') = mem_top mmap div 4096"
    by (rule pmm_init_inv [OF assms(1,3) page_map_distinct [OF assms(2)] _ k]) (use b in auto)
  have "8 * (mem_top mmap div 4096 div 8) = mem_top mmap div 4096" using assms(3) by simp
  then show ?thesis
    using pmm_init_marks [OF assms(1)] page_map_start [OF assms(2)] p' that [of p'] by auto
qed

lemma between_blocks: "n = c * 4096 + m \<Longrightarrow> m < 4096 \<Longrightarrow> n < 4096 * (c + 1) \<and> (m \<noteq> 0 \<longrightarrow> 4096 * c < (n :: nat))"
  by simp

lemma draw_total: "draw pmm_alloc_block n p = Some (as, p') \<Longrightarrow> total_blocks p' = total_blocks p"
proof (induction n arbitrary: p as)
  case (Suc n)
  then obtain a as' p1 where p1: "pmm_alloc_block p = Some (a, p1)" "draw pmm_alloc_block n p1 = Some (as', p')"
    by (auto split: bind_splits)
  have "total_blocks p1 = total_blocks p"
    using p1(1) by (auto simp: pmm_alloc_block_def set_block_def Let_def split: if_splits bind_splits)
  then show ?case using Suc.IH [OF p1(2)] by simp
qed simp

text \<open>
  (C18) After a start with a memory map of whole, separate pages (memory a multiple of 32 KiB, the end
  of the bitmap inside of it) every sequence of allocations returns: each
  result is 0 or the address of a 4 KiB frame of usable memory that was not marked, no frame is handed
  out twice, and none ends at or below the end of the bitmap.  But when the end of the bitmap cuts a
  usable block (below the last multiple of 32 blocks, where the search ends), the first allocation hands
  out that very block, which holds the end of the bitmap.
\<close>

theorem pmm_allocations_distinct:
  assumes "boot_ok kernel_end mmap p" "page_map mmap" "8 dvd mem_top mmap div 4096"
    "4096 \<le> bitmap_end kernel_end mmap" "bitmap_end kernel_end mmap \<le> mem_top mmap"
  shows "\<exists>p1 as p2. pmm_init kernel_end mmap p = Some p1 \<and> draw pmm_alloc_block n p1 = Some (as, p2) \<and>
     length as = n \<and> distinct (filter (\<lambda>a. a \<noteq> 0) as) \<and>
     (\<forall>a \<in> set as. a \<noteq> 0 \<longrightarrow> a mod 4096 = 0 \<and> a \<notin> owned_frames p1 \<and> bitmap_end kernel_end mmap < unat a + 4096 \<and>
        (\<exists>e \<in> set mmap. touches e (unat a div 4096))) \<and>
     owned_frames p2 = set (filter (\<lambda>a. a \<noteq> 0) as) \<union> owned_frames p1 \<and>
     (let c = bitmap_end kernel_end mmap div 4096 in
        0 < n \<and> bitmap_end kernel_end mmap mod 4096 \<noteq> 0 \<and> c < 32 * (mem_top mmap div 4096 div 32) \<and> (\<exists>e \<in> set mmap. touches e c)
        \<longrightarrow> unat (hd as) = 4096 * c \<and> unat (hd as) < bitmap_end kernel_end mmap)"
proof -
  let ?R = "bitmap_end kernel_end mmap" and ?T = "mem_top mmap div 4096"
  obtain p1 where p1: "pmm_init kernel_end mmap p = Some p1" "pmm_inv p1" "unat (total_blocks p1) = ?T"
    "\<And>b. b < ?T \<Longrightarrow> marked p1 b \<longleftrightarrow> 4096 * (b + 1) \<le> ?R \<or> \<not> (\<exists>e \<in> set mmap. touches e b)"
    by (rule page_map_ready [OF assms]) (rule that; assumption)
  obtain as p2 where d: "draw pmm_alloc_block n p1 = Some (as, p2)" "length as = n" "pmm_inv p2"
    "distinct (filter (\<lambda>a. a \<noteq> 0) as)" "set (filter (\<lambda>a. a \<noteq> 0) as) \<inter> owned_frames p1 = {}"
    "owned_frames p2 = set (filter (\<lambda>a. a \<noteq> 0) as) \<union> owned_frames p1" "\<forall>a \<in> set as. a mod 4096 = 0"
    using frames.draw_distinct [OF p1(2), of n] by blast
  have T: "?T \<le> 2 ^ 20" using p1(2,3) by (simp add: pmm_inv_def)
  have fr: "?R < unat a + 4096 \<and> (\<exists>e \<in> set mmap. touches e (unat a div 4096))" if a: "a \<in> set as" "a \<noteq> 0" for a
  proof -
    have "a \<in> owned_frames p2" "a \<notin> owned_frames p1" using d(5,6) a by auto
    then obtain b where b: "b < ?T" "a = of_nat b * 4096" "\<not> marked p1 b"
      using draw_total [OF d(1)] p1(3) by (auto simp: owned_frames_def)
    then have "unat a = b * 4096" using unat_frame_addr [of b] T by simp
    then show ?thesis using p1(4) [OF b(1)] b(3) by simp
  qed
  have first: "unat (hd as) = 4096 * (?R div 4096) \<and> unat (hd as) < ?R"
    if n: "0 < n" and cut: "?R mod 4096 \<noteq> 0" "?R div 4096 < 32 * (?T div 32)" "\<exists>e \<in> set mmap. touches e (?R div 4096)"
  proof -
    let ?c = "?R div 4096"
    have r: "?R = ?c * 4096 + ?R mod 4096" "?R mod 4096 < 4096" by simp_all
    have c: "?c < ?T" using cut(2) by simp
    have c2: "?R < 4096 * (?c + 1)" "4096 * ?c < ?R" using between_blocks [OF r] cut(1) by simp_all
    have "\<not> marked p1 ?c" using p1(4) [OF c] c2(1) cut(3) by simp
    moreover have "marked p1 b" if "b < ?c" for b
      using p1(4) [of b] that c reserved_iff [of b kernel_end mmap] by (simp add: kernel_blocks_def)
    ultimately have "free_frame p1 = Some ?c" unfolding free_frame_def first_idx_Some using cut(2) p1(3) by simp
    then obtain q where "pmm_alloc_block p1 = Some (of_nat ?c * 4096, q)" using alloc_eq [OF p1(2)] by auto
    then have "hd as = of_nat ?c * 4096" using d(1) n by (cases n) (auto split: bind_splits)
    moreover have "unat (of_nat ?c * 4096 :: u32) = ?c * 4096" using unat_frame_addr [of ?c] c T by simp
    ultimately show ?thesis using c2(2) by simp
  qed
  have all: "\<forall>a \<in> set as. a \<noteq> 0 \<longrightarrow> a mod 4096 = 0 \<and> a \<notin> owned_frames p1 \<and> ?R < unat a + 4096 \<and>
      (\<exists>e \<in> set mmap. touches e (unat a div 4096))"
    using d(5,7) fr by auto
  show ?thesis
    by (rule exI [of _ p1], rule exI [of _ as], rule exI [of _ p2], unfold Let_def, intro conjI impI)
      (use p1(1) d(1,2,4,6) all first in blast)+
qed

theorem pmm_allocations_distinct_witness:
  "\<exists>p1 as p2. pmm_init 0x20000 ram_map ram_pmm = Some p1 \<and> draw pmm_alloc_block 3 p1 = Some (as, p2) \<and>
     length as = 3 \<and> distinct (filter (\<lambda>a. a \<noteq> 0) as) \<and> unat (hd as) = 0x20000 \<and> bitmap_end 0x20000 ram_map = 0x20040"
proof -
  have "touches (hd ram_map) 32" "hd ram_map \<in> set ram_map" by (simp_all add: ram_map_def touches_def entry_end_def)
  then have t: "\<exists>e \<in> set ram_map. touches e 32" by blast
  show ?thesis
    using pmm_allocations_distinct [OF ram_map_facts(1) ram_page_map(1), of 3] t
    unfolding ram_map_facts(2) ram_page_map(2) by (auto simp: Let_def)
qed

text \<open>
  (C19) Allocation takes the lowest free frame, and freeing it gives it back: the marks and the counter
  are as before, and the next allocation returns the same frame.
\<close>

theorem pmm_alloc_free_restores:
  assumes "pmm_inv p" "free_frame p = Some b"
  shows "\<exists>p1 p2. pmm_alloc_block p = Some (of_nat b * 4096, p1) \<and> pmm_free_block (of_nat b * 4096) p1 = Some p2 \<and>
     pmm_inv p2 \<and> (\<forall>c < unat (total_blocks p). marked p2 c \<longleftrightarrow> marked p c) \<and> used_blocks p2 = used_blocks p \<and>
     (\<exists>p3. pmm_alloc_block p2 = Some (of_nat b * 4096, p3))"
proof -
  note f = free_frame_Some [OF assms(2)]
  obtain p1 where p1: "pmm_alloc_block p = Some (of_nat b * 4096, p1)" "pmm_inv p1" "0 < b" "b < 2 ^ 20"
    "total_blocks p1 = total_blocks p" "\<forall>c < unat (total_blocks p). marked p1 c \<longleftrightarrow> c = b \<or> marked p c"
    using alloc_eq [OF assms(1)] assms(2) by auto
  have a: "unat (of_nat b * 4096 :: u32) div 4096 = b" using unat_frame_addr [OF p1(4)] by simp
  obtain p2 where p2: "pmm_free_block (of_nat b * 4096) p1 = Some p2" "pmm_inv p2" "total_blocks p2 = total_blocks p"
    "\<forall>c < unat (total_blocks p). marked p2 c \<longleftrightarrow> c \<noteq> b \<and> marked p1 c"
    using free_eq [OF p1(2), of "of_nat b * 4096"] p1(3,5) f unfolding a by auto
  have m: "marked p2 c \<longleftrightarrow> marked p c" if "c < unat (total_blocks p)" for c using p1(6) p2(4) f that by auto
  then have "{c. c < unat (total_blocks p) \<and> marked p2 c} = {c. c < unat (total_blocks p) \<and> marked p c}" by auto
  then have u: "used_blocks p2 = used_blocks p"
    using assms(1) p2(2,3) unfolding pmm_inv_def by (metis word_unat_eq_iff)
  have "free_frame p2 = free_frame p"
    unfolding free_frame_def p2(3) using m by (intro first_idx_cong) auto
  then show ?thesis using alloc_eq [OF p2(2)] assms(2) p1(1) p2 m u by auto
qed

definition pool :: pmm where
  "pool = \<lparr>pmm_bitmap = [7], total_blocks = 32, used_blocks = 3\<rparr>"

lemma pool_facts: "pmm_inv pool" "free_frame pool = Some 3"
proof -
  have "{b. b < 32 \<and> marked pool b} = set (filter (marked pool) [0..<32])" by auto
  also have "filter (marked pool) [0..<32] = [0, 1, 2]" unfolding marked_def pool_def by code_simp
  finally have "card {b. b < 32 \<and> marked pool b} = 3" by simp
  moreover have "marked pool 0" by (simp add: marked_def pool_def)
  ultimately show "pmm_inv pool" by (simp add: pmm_inv_def) (simp add: pool_def)
  show "free_frame pool = Some 3" unfolding free_frame_def marked_def pool_def by code_simp
qed

theorem pmm_alloc_free_restores_witness:
  "\<exists>p1 p2. pmm_alloc_block pool = Some (0x3000, p1) \<and> pmm_free_block 0x3000 p1 = Some p2 \<and> used_blocks p2 = 3"
  using pmm_alloc_free_restores [OF pool_facts] by (auto simp: pool_def)

text \<open>
  Memory above 4 GiB is managed but not addressable: a frame beyond the first \<open>2 ^ 20\<close> is marked as
  used and its address wraps to that of a low frame (0, the failure value, for the first of them).
\<close>

theorem pmm_high_frames_wrap:
  assumes "free_frame p = Some b" "2 ^ 20 \<le> b" "b < 2 ^ 31" "used_blocks p < total_blocks p"
    "unat (total_blocks p) \<le> 32 * length (pmm_bitmap p)"
  shows "\<exists>p'. pmm_alloc_block p = Some (of_nat (b mod 2 ^ 20) * 4096, p') \<and> marked p' b"
proof -
  note f = free_frame_Some [OF assms(1)]
  have ub: "unat (of_nat b :: u32) = b" using assms(3) by (intro unat_of_nat_u32) simp
  have "unat (-1 :: u32) = 4294967295" by (simp add: unsigned_minus_1_eq_mask mask_eq_exp_minus_1)
  then have nm1: "(of_nat b :: u32) \<noteq> -1" using ub assms(3) by auto
  have r: "unat (of_nat b :: u32) < 32 * length (pmm_bitmap p)" using f assms(5) ub by simp
  obtain p' where p': "set_block (of_nat b) p = Some p'"
    "\<And>c. c < 32 * length (pmm_bitmap p) \<Longrightarrow> marked p' c \<longleftrightarrow> c = unat (of_nat b :: u32) \<or> marked p c"
    using set_block_eq [OF r] by metis
  have "b = b div 2 ^ 20 * 2 ^ 20 + b mod 2 ^ 20" by simp
  then have "(of_nat b * 4096 :: u32) = of_nat (b div 2 ^ 20 * 2 ^ 20 + b mod 2 ^ 20) * 4096" by simp
  also have "\<dots> = of_nat (b div 2 ^ 20) * (2 ^ 20 * 4096) + of_nat (b mod 2 ^ 20) * 4096"
    by (simp only: of_nat_add of_nat_mult of_nat_power of_nat_numeral distrib_right mult.assoc)
  also have "(2 ^ 20 * 4096 :: u32) = 0" by simp
  finally have addr: "(of_nat b * 4096 :: u32) = of_nat (b mod 2 ^ 20) * 4096" by simp
  have "pmm_alloc_block p = Some (of_nat b * 4096, p'\<lparr>used_blocks := used_blocks p' + 1\<rparr>)"
    using find_first_free_eq [OF assms(5)] assms(1,4) nm1 p'(1) assms(4) [unfolded not_le [symmetric]] by (auto simp: pmm_alloc_block_def)
  then show ?thesis using p'(2) [of b] r ub addr by auto
qed

definition high_pool :: pmm where
  "high_pool = \<lparr>pmm_bitmap = replicate 32768 0xFFFFFFFF @ [1], total_blocks = 2 ^ 20 + 32, used_blocks = 2 ^ 20 + 1\<rparr>"

theorem pmm_high_frames_wrap_witness:
  "\<exists>p'. pmm_alloc_block high_pool = Some (0x1000, p') \<and> marked p' (2 ^ 20 + 1)"
proof -
  have m: "marked high_pool c" if "c \<le> 2 ^ 20" for c
  proof (cases "c = 2 ^ 20")
    case True
    then show ?thesis by (simp add: marked_def high_pool_def nth_append)
  next
    case False
    then have "c div 32 < 32768" using that by auto
    then show ?thesis
      using all_bits_set [of "0xFFFFFFFF"] by (simp add: marked_def high_pool_def nth_append)
  qed
  have "\<not> marked high_pool (2 ^ 20 + 1)" by (simp add: marked_def high_pool_def nth_append bit_simps)
  moreover have "unat (total_blocks high_pool) = 2 ^ 20 + 32" by (simp add: high_pool_def)
  ultimately have "free_frame high_pool = Some (2 ^ 20 + 1)"
    using m by (simp add: free_frame_def first_idx_Some)
  then show ?thesis
    using pmm_high_frames_wrap [of high_pool "2 ^ 20 + 1"] by (simp add: high_pool_def)
qed

end
