(* ===== verification/Paging.thy ===== *)
theory Paging
  imports Pmm Interrupts
begin

text \<open>
  Paging (\<^verbatim>\<open>src/memory/paging.c\<close>).  Physical memory is a function from frame number and word index
  to 32-bit words; all accesses of this component are to aligned words of page tables.  The memory
  management unit is the function \<open>translate\<close>: the two-level walk of the hardware from CR3 (no access
  rights are checked, since the kernel runs in ring 0 without write protection, and the translation
  cache is taken to be coherent, which is what the \<^verbatim>\<open>invlpg\<close> instructions are for).  Every pointer that
  the C code dereferences is a virtual address that goes through it; \<^term>\<open>None\<close> is a page fault.
\<close>

section \<open>Definitions\<close>

subsection \<open>The memory management unit\<close>

record mmu =
  phys :: "u32 \<Rightarrow> nat \<Rightarrow> u32"
  cr3 :: u32
  pg :: bool

definition pdx :: "u32 \<Rightarrow> nat" where
  "pdx va = unat (drop_bit 22 va)"

definition ptx :: "u32 \<Rightarrow> nat" where
  "ptx va = unat (drop_bit 12 va AND 0x03FF)"

definition wordx :: "u32 \<Rightarrow> nat" where
  "wordx va = unat (drop_bit 2 va AND 0x03FF)"

definition translate :: "mmu \<Rightarrow> u32 \<Rightarrow> u32 option" where
  "translate m va =
     (if pg m then
        let pde = phys m (drop_bit 12 (cr3 m)) (pdx va) in
        if bit pde 0 then
          let pte = phys m (drop_bit 12 pde) (ptx va) in
          if bit pte 0 then Some (drop_bit 12 pte) else None
        else None
      else Some (drop_bit 12 va))"

definition vread :: "u32 \<Rightarrow> mmu \<Rightarrow> u32 option" where
  "vread va m = do { f \<leftarrow> translate m va; Some (phys m f (wordx va)) }"

definition store :: "u32 \<Rightarrow> nat \<Rightarrow> u32 \<Rightarrow> mmu \<Rightarrow> mmu" where
  "store f i v m = m\<lparr>phys := (phys m)(f := (phys m f)(i := v))\<rparr>"

definition vmod :: "u32 \<Rightarrow> (u32 \<Rightarrow> u32) \<Rightarrow> mmu \<Rightarrow> mmu option" where
  "vmod va g m = do { f \<leftarrow> translate m va; Some (store f (wordx va) (g (phys m f (wordx va))) m) }"

subsection \<open>Bit fields of the entries\<close>

definition set_flag :: "nat \<Rightarrow> bool \<Rightarrow> u32 \<Rightarrow> u32" where
  "set_flag n b e = (if b then e OR push_bit n 1 else e AND NOT (push_bit n 1))"

definition set_frame :: "u32 \<Rightarrow> u32 \<Rightarrow> u32" where
  "set_frame fr e = (e AND 0xFFF) OR push_bit 12 fr"

abbreviation (input) page_directory :: u32 where "page_directory \<equiv> 0x90000"
abbreviation (input) first_page_table :: u32 where "first_page_table \<equiv> 0x91000"

definition memset_table :: "u32 \<Rightarrow> mmu \<Rightarrow> mmu option" where
  "memset_table table m = foldM (\<lambda>i. vmod (table + 4 * of_nat i) (\<lambda>_. 0)) [0..<1024] m"

subsection \<open>Operations\<close>

definition identity_entry :: "nat \<Rightarrow> mmu \<Rightarrow> mmu option" where
  "identity_entry i m =
     do { let physical_addr = of_nat i * 0x1000; let pte = first_page_table + 4 * of_nat i;
          m1 \<leftarrow> vmod pte (set_flag 0 True) m;
          m2 \<leftarrow> vmod pte (set_flag 1 True) m1;
          vmod pte (set_frame (drop_bit 12 physical_addr)) m2 }"

definition set_directory_entry :: "u32 \<Rightarrow> u32 \<Rightarrow> mmu \<Rightarrow> mmu option" where
  "set_directory_entry pde table m =
     do { m1 \<leftarrow> vmod pde (set_flag 0 True) m;
          m2 \<leftarrow> vmod pde (set_flag 1 True) m1;
          vmod pde (set_frame (drop_bit 12 table)) m2 }"

definition paging_install :: "mmu \<times> interrupts \<Rightarrow> (mmu \<times> interrupts) option" where
  "paging_install = (\<lambda>(m0, s).
     do { m1 \<leftarrow> memset_table page_directory m0;
          m2 \<leftarrow> memset_table first_page_table m1;
          m3 \<leftarrow> foldM identity_entry [0..<1024] m2;
          m4 \<leftarrow> set_directory_entry page_directory first_page_table m3;
          m5 \<leftarrow> set_directory_entry (page_directory + 4 * 1023) page_directory m4;
          s' \<leftarrow> register_interrupt_handler 14 Page_fault_handler s;
          Some (m5\<lparr>cr3 := page_directory, pg := True\<rparr>, s') })"

text \<open>Running out of frames prints a message and spins for ever: \<open>Inl\<close> with the last screen.\<close>

definition new_table :: "u32 \<Rightarrow> mmu \<Rightarrow> pmm \<Rightarrow> console \<Rightarrow> (console + mmu \<times> pmm) option" where
  "new_table pd_idx m p k =
     do { let pde = page_directory + 4 * pd_idx;
          (new_pt_phys_addr, p') \<leftarrow> pmm_alloc_block p;
          if new_pt_phys_addr = 0
          then do { k' \<leftarrow> print (bytes ''PANIC: Out of physical memory for page table'' @ [10, 0]) 0x04 k;
                    Some (Inl k') }
          else do {
            m1 \<leftarrow> vmod pde (set_flag 0 True) m;
            m2 \<leftarrow> vmod pde (set_flag 1 True) m1;
            m3 \<leftarrow> vmod pde (set_flag 2 True) m2;
            m4 \<leftarrow> vmod pde (set_frame (drop_bit 12 new_pt_phys_addr)) m3;
            m5 \<leftarrow> memset_table (0xFFC00000 OR push_bit 12 pd_idx) m4;
            Some (Inr (m5, p')) } }"

definition map_page :: "u32 \<Rightarrow> u32 \<Rightarrow> u32 \<Rightarrow> mmu \<Rightarrow> pmm \<Rightarrow> console \<Rightarrow> (console + mmu \<times> pmm) option" where
  "map_page phys_addr virt_addr flags m p k =
     do { let pd_idx = drop_bit 22 virt_addr; let pt_idx = drop_bit 12 virt_addr AND 0x03FF;
          pde \<leftarrow> vread (page_directory + 4 * pd_idx) m;
          r \<leftarrow> (if bit pde 0 then Some (Inr (m, p)) else new_table pd_idx m p k);
          case r of
            Inl k' \<Rightarrow> Some (Inl k')
          | Inr (m0, p') \<Rightarrow>
              do { let pte = (0xFFC00000 OR push_bit 12 pd_idx) + 4 * pt_idx;
                   m1 \<leftarrow> vmod pte (set_flag 0 (flags AND 1 \<noteq> 0)) m0;
                   m2 \<leftarrow> vmod pte (set_flag 1 (flags AND 2 \<noteq> 0)) m1;
                   m3 \<leftarrow> vmod pte (set_flag 2 (flags AND 4 \<noteq> 0)) m2;
                   m4 \<leftarrow> vmod pte (set_frame (drop_bit 12 phys_addr)) m3;
                   Some (Inr (m4, p')) } }"

definition unmap_page :: "u32 \<Rightarrow> mmu \<Rightarrow> mmu option" where
  "unmap_page virt_addr m =
     do { let pd_idx = drop_bit 22 virt_addr; let pt_idx = drop_bit 12 virt_addr AND 0x03FF;
          pde \<leftarrow> vread (page_directory + 4 * pd_idx) m;
          if bit pde 0
          then let page_table = push_bit 12 (drop_bit 12 pde) in vmod (page_table + 4 * pt_idx) (\<lambda>_. 0) m
          else Some m }"

definition get_phys_addr :: "u32 \<Rightarrow> mmu \<Rightarrow> u32 option" where
  "get_phys_addr virt_addr m =
     do { let pd_idx = drop_bit 22 virt_addr; let pt_idx = drop_bit 12 virt_addr AND 0x03FF;
          pde \<leftarrow> vread (page_directory + 4 * pd_idx) m;
          if bit pde 0
          then do { pte \<leftarrow> vread ((0xFFC00000 OR push_bit 12 pd_idx) + 4 * pt_idx) m;
                    Some (if bit pte 0 then push_bit 12 (drop_bit 12 pte) + (virt_addr AND 0xFFF) else 0) }
          else Some 0 }"

section \<open>Virtual addresses\<close>

lemma and_3FF: "(x :: u32) AND 0x03FF = take_bit 10 x"
  by (simp add: take_bit_eq_mask mask_numeral)

lemma unat_drop: "unat (drop_bit n (x :: u32)) = unat x div 2 ^ n"
  unfolding unat_drop_bit_eq by (rule drop_bit_eq_div)

lemma page_mod: "r < 1024 \<Longrightarrow> (q * 1024 + r) mod 2 ^ 10 = (r :: nat)"
  by simp

lemma indices: "pdx va = unat va div 2 ^ 22" "ptx va = unat va div 2 ^ 12 mod 2 ^ 10"
    "wordx va = unat va div 2 ^ 2 mod 2 ^ 10"
  unfolding pdx_def ptx_def wordx_def and_3FF unsigned_take_bit_eq unat_drop
  by (simp_all only: take_bit_eq_mod)

lemma index_bounds: "pdx va < 1024" "ptx va < 1024" "wordx va < 1024"
  using unsigned_less [of va, where 'a = nat] by (simp_all add: indices div_less_iff_less_mult)

lemma drop22: "drop_bit 22 va = (of_nat (pdx va) :: u32)" "drop_bit 12 va AND 0x03FF = (of_nat (ptx va) :: u32)"
  by (simp_all add: pdx_def ptx_def)

lemma directory_address:
  assumes "i < 1024"
  shows "pdx (page_directory + 4 * of_nat i) = 0" "ptx (page_directory + 4 * of_nat i) = 0x90"
    "wordx (page_directory + 4 * of_nat i) = i"
proof -
  have "unat (of_nat (0x90000 + 4 * i) :: u32) = 0x90000 + 4 * i"
    using assms by (simp only: unat_of_nat) simp
  then have u: "unat (page_directory + 4 * of_nat i) = 0x90000 + 4 * i" by simp
  have pages: "(0x90000 + 4 * i) div 2 ^ 22 = 0" "(0x90000 + 4 * i) div 2 ^ 12 = 0x90"
    "(0x90000 + 4 * i) div 2 ^ 2 = 0x90 * 1024 + i"
    using assms by (auto intro!: div_nat_eqI)
  show "pdx (page_directory + 4 * of_nat i) = 0" "ptx (page_directory + 4 * of_nat i) = 0x90"
    "wordx (page_directory + 4 * of_nat i) = i"
    unfolding indices u pages page_mod [OF assms] by simp_all
qed

lemma recursive_base:
  assumes "d < 1024"
  shows "0xFFC00000 OR push_bit 12 (of_nat d :: u32) = of_nat (0xFFC00000 + 4096 * d)"
proof -
  have u: "unat (of_nat d :: u32) = d" using assms by (simp add: unat_of_nat)
  have "\<not> bit (push_bit 12 (of_nat d :: u32)) n" if "22 \<le> n" for n
  proof -
    have "\<not> bit d (n - 12)"
    proof -
      have "d < 2 ^ 10" using assms by simp
      also have "\<dots> \<le> 2 ^ (n - 12)" using that by (intro power_increasing) simp_all
      finally show ?thesis by (simp add: bit_iff_odd)
    qed
    then show ?thesis by (simp add: bit_simps)
  qed
  moreover have "\<not> bit (0xFFC00000 :: u32) n" if "n < 22" for n
  proof -
    have "(0xFFC00000 :: u32) = push_bit 22 0x3FF" by simp
    then show ?thesis using that by (simp only: bit_push_bit_iff) simp
  qed
  ultimately have "0xFFC00000 OR push_bit 12 (of_nat d :: u32) = 0xFFC00000 + push_bit 12 (of_nat d)"
    by (intro disjunctive_add [symmetric]) (metis not_le)
  then show ?thesis by (simp add: push_bit_eq_mult)
qed

lemma recursive_address:
  assumes "d < 1024" "j < 1024"
  shows "pdx ((0xFFC00000 OR push_bit 12 (of_nat d)) + 4 * of_nat j) = 1023"
    "ptx ((0xFFC00000 OR push_bit 12 (of_nat d)) + 4 * of_nat j) = d"
    "wordx ((0xFFC00000 OR push_bit 12 (of_nat d)) + 4 * of_nat j) = j"
proof -
  let ?a = "(0xFFC00000 OR push_bit 12 (of_nat d)) + 4 * of_nat j :: u32"
  have "?a = of_nat (0xFFC00000 + 4096 * d + 4 * j)" unfolding recursive_base [OF assms(1)] by simp
  moreover have "unat (of_nat (0xFFC00000 + 4096 * d + 4 * j) :: u32) = 0xFFC00000 + 4096 * d + 4 * j"
    using assms by (simp only: unat_of_nat) simp
  ultimately have u: "unat ?a = 0xFFC00000 + 4096 * d + 4 * j" by simp
  have q: "(0xFFC00000 + 4096 * d + 4 * j) div 2 ^ 22 = 1023"
    "(0xFFC00000 + 4096 * d + 4 * j) div 2 ^ 12 = 1023 * 1024 + d"
    "(0xFFC00000 + 4096 * d + 4 * j) div 2 ^ 2 = (1023 * 1024 + d) * 1024 + j"
    using assms by (auto intro!: div_nat_eqI)
  show "pdx ?a = 1023" "ptx ?a = d" "wordx ?a = j"
    unfolding indices u q page_mod [OF assms(1)] page_mod [OF assms(2)] by simp_all
qed

section \<open>Page tables through the recursive mapping\<close>

definition table_of :: "mmu \<Rightarrow> nat \<Rightarrow> u32" where
  "table_of m d = drop_bit 12 (phys m 0x90 d)"

definition has_table :: "mmu \<Rightarrow> nat \<Rightarrow> bool" where
  "has_table m d = bit (phys m 0x90 d) 0"

text \<open>The directory is in frame 0x90, maps itself, and is visible at its physical address.\<close>

definition walk_ok :: "mmu \<Rightarrow> bool" where
  "walk_ok m \<longleftrightarrow> pg m \<and> cr3 m = page_directory \<and> has_table m 1023 \<and> table_of m 1023 = 0x90 \<and>
     has_table m 0 \<and> table_of m 0 \<noteq> 0x90 \<and> bit (phys m (table_of m 0) 0x90) 0 \<and>
     drop_bit 12 (phys m (table_of m 0) 0x90) = 0x90"

lemma store_phys [simp]:
  "phys (store f i v m) f' j = (if f' = f \<and> j = i then v else phys m f' j)"
  "pg (store f i v m) = pg m" "cr3 (store f i v m) = cr3 m"
  by (auto simp: store_def)

lemma store_store [simp]: "store f i w (store f i v m) = store f i w m"
  by (simp add: store_def)

lemma translate_walk:
  "walk_ok m \<Longrightarrow> translate m va =
     (if has_table m (pdx va) \<and> bit (phys m (table_of m (pdx va)) (ptx va)) 0
      then Some (drop_bit 12 (phys m (table_of m (pdx va)) (ptx va))) else None)"
  by (simp add: translate_def walk_ok_def Let_def has_table_def table_of_def)

lemma translate_directory:
  "walk_ok m \<Longrightarrow> i < 1024 \<Longrightarrow> translate m (page_directory + 4 * of_nat i) = Some 0x90"
  using directory_address [of i] by (simp add: translate_walk) (simp add: walk_ok_def)

lemma translate_table:
  assumes "walk_ok m" "d < 1024" "has_table m d" "j < 1024"
  shows "translate m ((0xFFC00000 OR push_bit 12 (of_nat d)) + 4 * of_nat j) = Some (table_of m d)"
  unfolding translate_walk [OF assms(1)] recursive_address [OF assms(2,4)]
  using assms(1,3) by (simp add: walk_ok_def has_table_def table_of_def)

lemma vmod_directory:
  "walk_ok m \<Longrightarrow> i < 1024 \<Longrightarrow> vmod (page_directory + 4 * of_nat i) g m = Some (store 0x90 i (g (phys m 0x90 i)) m)"
  using translate_directory [of m i] directory_address(3) [of i] by (simp add: vmod_def)

lemma vread_directory:
  "walk_ok m \<Longrightarrow> i < 1024 \<Longrightarrow> vread (page_directory + 4 * of_nat i) m = Some (phys m 0x90 i)"
  using translate_directory [of m i] directory_address(3) [of i] by (simp add: vread_def)

lemma vmod_table:
  "walk_ok m \<Longrightarrow> d < 1024 \<Longrightarrow> has_table m d \<Longrightarrow> j < 1024 \<Longrightarrow>
   vmod ((0xFFC00000 OR push_bit 12 (of_nat d)) + 4 * of_nat j) g m =
     Some (store (table_of m d) j (g (phys m (table_of m d) j)) m)"
  using translate_table [of m d j] recursive_address(3) [of d j] by (simp add: vmod_def)

lemma vread_table:
  "walk_ok m \<Longrightarrow> d < 1024 \<Longrightarrow> has_table m d \<Longrightarrow> j < 1024 \<Longrightarrow>
   vread ((0xFFC00000 OR push_bit 12 (of_nat d)) + 4 * of_nat j) m = Some (phys m (table_of m d) j)"
  using translate_table [of m d j] recursive_address(3) [of d j] by (simp add: vread_def)

text \<open>Stores that keep the walk: other directory entries, and tables that do not hold the directory.\<close>

lemma table_store:
  "table_of (store 0x90 i v m) d = (if d = i then drop_bit 12 v else table_of m d)"
  "has_table (store 0x90 i v m) d = (if d = i then bit v 0 else has_table m d)"
  "f \<noteq> 0x90 \<Longrightarrow> table_of (store f i v m) d = table_of m d"
  "f \<noteq> 0x90 \<Longrightarrow> has_table (store f i v m) d = has_table m d"
  by (auto simp: table_of_def has_table_def)

lemma walk_ok_store:
  "walk_ok m \<Longrightarrow> 0 < i \<Longrightarrow> i < 1023 \<Longrightarrow> walk_ok (store 0x90 i v m)"
  "walk_ok m \<Longrightarrow> f \<noteq> 0x90 \<Longrightarrow> f \<noteq> table_of m 0 \<or> i \<noteq> 0x90 \<Longrightarrow> walk_ok (store f i v m)"
  by (auto simp: walk_ok_def table_store)

text \<open>Several field updates of one entry are one store.\<close>

lemma vmod_table_entry:
  assumes "walk_ok m" "d < 1024" "has_table m d" "table_of m d \<noteq> 0x90" "j < 1024" "d \<noteq> 0 \<or> j \<noteq> 0x90"
    and inj0: "d \<noteq> 0 \<Longrightarrow> table_of m d \<noteq> table_of m 0"
  shows "foldM (\<lambda>g. vmod ((0xFFC00000 OR push_bit 12 (of_nat d)) + 4 * of_nat j) g) gs m =
     Some (if gs = [] then m else store (table_of m d) j (fold id gs (phys m (table_of m d) j)) m)"
  using assms
proof (induction gs arbitrary: m)
  case (Cons g gs)
  let ?m = "store (table_of m d) j (g (phys m (table_of m d) j)) m"
  have w: "walk_ok ?m" using Cons.prems by (intro walk_ok_store(2)) auto
  have t: "table_of ?m e = table_of m e" "has_table ?m e = has_table m e" for e
    using Cons.prems(4) by (simp_all add: table_store)
  have "foldM (\<lambda>g. vmod ((0xFFC00000 OR push_bit 12 (of_nat d)) + 4 * of_nat j) g) gs ?m =
     Some (if gs = [] then ?m else store (table_of m d) j (fold id gs (phys ?m (table_of m d) j)) ?m)"
    using Cons.IH [of ?m] Cons.prems w unfolding t by blast
  then show ?case using vmod_table [OF Cons.prems(1,2,3,5), of g] by simp
qed simp

lemma vmod_directory_entry:
  assumes "walk_ok m" "0 < i" "i < 1023"
  shows "foldM (\<lambda>g. vmod (page_directory + 4 * of_nat i) g) gs m =
     Some (if gs = [] then m else store 0x90 i (fold id gs (phys m 0x90 i)) m)"
  using assms
proof (induction gs arbitrary: m)
  case (Cons g gs)
  then show ?case
    using vmod_directory [OF Cons.prems(1), of i g] Cons.IH [OF walk_ok_store(1) [OF Cons.prems]] by simp
qed simp

definition clear_words :: "u32 \<Rightarrow> nat \<Rightarrow> mmu \<Rightarrow> mmu" where
  "clear_words f n m = m\<lparr>phys := (\<lambda>g j. if g = f \<and> j < n then 0 else phys m g j)\<rparr>"

lemma clear_words_phys [simp]:
  "phys (clear_words f n m) g j = (if g = f \<and> j < n then 0 else phys m g j)"
  "pg (clear_words f n m) = pg m" "cr3 (clear_words f n m) = cr3 m" "clear_words f 0 m = m"
  by (simp_all add: clear_words_def)

lemma clear_words_tables:
  "f \<noteq> 0x90 \<Longrightarrow> table_of (clear_words f n m) d = table_of m d"
  "f \<noteq> 0x90 \<Longrightarrow> has_table (clear_words f n m) d = has_table m d"
  by (auto simp: table_of_def has_table_def)

lemma clear_words_Suc: "store f n 0 (clear_words f n m) = clear_words f (Suc n) m"
  by (simp add: store_def clear_words_def fun_eq_iff less_Suc_eq)

lemma clear_words_walk:
  "walk_ok m \<Longrightarrow> f \<noteq> 0x90 \<Longrightarrow> f \<noteq> table_of m 0 \<Longrightarrow> walk_ok (clear_words f n m)"
  by (simp add: walk_ok_def clear_words_tables)

lemma memset_recursive:
  assumes "walk_ok m" "d < 1024" "has_table m d" "table_of m d \<noteq> 0x90" "table_of m d \<noteq> table_of m 0"
  shows "memset_table (0xFFC00000 OR push_bit 12 (of_nat d)) m = Some (clear_words (table_of m d) 1024 m)"
proof -
  let ?f = "table_of m d"
  have "foldM (\<lambda>i. vmod ((0xFFC00000 OR push_bit 12 (of_nat d)) + 4 * of_nat i) (\<lambda>_. 0)) [0..<n] m =
      Some (clear_words ?f n m)" if "n \<le> 1024" for n
    using that
  proof (induction n)
    case (Suc n)
    let ?m = "clear_words ?f n m"
    have "walk_ok ?m" using assms by (intro clear_words_walk)
    then have "vmod ((0xFFC00000 OR push_bit 12 (of_nat d)) + 4 * of_nat n) (\<lambda>_. 0) ?m = Some (store ?f n 0 ?m)"
      using vmod_table [of ?m d n "\<lambda>_. 0"] assms(2-4) Suc.prems by (simp add: clear_words_tables)
    then show ?case using Suc by (simp add: clear_words_Suc)
  qed simp
  then show ?thesis by (simp add: memset_table_def)
qed

section \<open>Mapping\<close>

text \<open>
  The invariant: page tables are frames that the allocator has given out, no two directory entries
  share one, and none of them is the directory.
\<close>

definition paging_inv :: "mmu \<Rightarrow> pmm \<Rightarrow> bool" where
  "paging_inv m p \<longleftrightarrow> walk_ok m \<and> pmm_inv p \<and> page_directory \<in> owned_frames p \<and>
     (\<forall>d < 1023. has_table m d \<longrightarrow> push_bit 12 (table_of m d) \<in> owned_frames p \<and> table_of m d \<noteq> 0x90) \<and>
     (\<forall>d < 1023. \<forall>e < 1023. has_table m d \<longrightarrow> has_table m e \<longrightarrow> table_of m d = table_of m e \<longrightarrow> d = e)"

definition entry :: "u32 \<Rightarrow> u32 \<Rightarrow> u32 \<Rightarrow> u32" where
  "entry phys_addr flags e = set_frame (drop_bit 12 phys_addr) (set_flag 2 (flags AND 4 \<noteq> 0)
     (set_flag 1 (flags AND 2 \<noteq> 0) (set_flag 0 (flags AND 1 \<noteq> 0) e)))"

lemma set_frame_bits: "bit (set_frame fr e) 0 = bit e 0" "drop_bit 12 (set_frame (drop_bit 12 a) e) = drop_bit 12 a"
proof -
  have m: "(0xFFF :: u32) = mask 12" by (simp add: mask_numeral)
  show "bit (set_frame fr e) 0 = bit e 0" unfolding set_frame_def m by (simp add: bit_simps)
  show "drop_bit 12 (set_frame (drop_bit 12 a) e) = drop_bit 12 a"
    unfolding set_frame_def m by (rule bit_word_eqI) (auto simp: bit_simps dest: bit_imp_le_length)
qed

lemma set_flag_bit0: "bit (set_flag 0 b e) 0 = b" "n \<noteq> 0 \<Longrightarrow> bit (set_flag n b e) 0 = bit e 0"
  by (auto simp: set_flag_def bit_simps)

lemma entry_bits: "bit (entry a flags e) 0 \<longleftrightarrow> flags AND 1 \<noteq> 0" "drop_bit 12 (entry a flags e) = drop_bit 12 a"
  by (simp_all add: entry_def set_frame_bits set_flag_bit0)

lemma map_existing:
  assumes "walk_ok m" "has_table m (pdx va)" "table_of m (pdx va) \<noteq> 0x90"
    "pdx va \<noteq> 0 \<or> ptx va \<noteq> 0x90" "pdx va \<noteq> 0 \<Longrightarrow> table_of m (pdx va) \<noteq> table_of m 0"
  shows "map_page a va flags m p k =
     Some (Inr (store (table_of m (pdx va)) (ptx va) (entry a flags (phys m (table_of m (pdx va)) (ptx va))) m, p))"
proof -
  let ?d = "pdx va" and ?t = "ptx va"
  let ?gs = "[set_flag 0 (flags AND 1 \<noteq> 0), set_flag 1 (flags AND 2 \<noteq> 0), set_flag 2 (flags AND 4 \<noteq> 0),
    set_frame (drop_bit 12 a)]"
  have r: "vread (page_directory + 4 * of_nat ?d) m = Some (phys m 0x90 ?d)" "bit (phys m 0x90 ?d) 0"
    using vread_directory [OF assms(1) index_bounds(1)] assms(2) by (simp_all add: has_table_def)
  have "foldM (\<lambda>g. vmod ((0xFFC00000 OR push_bit 12 (of_nat ?d)) + 4 * of_nat ?t) g) ?gs m =
      Some (store (table_of m ?d) ?t (entry a flags (phys m (table_of m ?d) ?t)) m)"
    using vmod_table_entry [OF assms(1) index_bounds(1) assms(2,3) index_bounds(2) assms(4,5), of ?gs]
    by (simp add: entry_def)
  then show ?thesis
    unfolding map_page_def drop22 Let_def r(1) using r(2) by (auto simp: Option.bind_eq_Some_conv)
qed

definition table_entry :: "u32 \<Rightarrow> u32 \<Rightarrow> u32" where
  "table_entry a e = set_frame (drop_bit 12 a) (set_flag 2 True (set_flag 1 True (set_flag 0 True e)))"

lemma table_entry_bits: "bit (table_entry a e) 0" "drop_bit 12 (table_entry a e) = drop_bit 12 a"
  by (simp_all add: table_entry_def set_frame_bits set_flag_bit0)

lemma new_table_eq:
  assumes "walk_ok m" "0 < d" "d < 1023" "\<not> has_table m d" "pmm_alloc_block p = Some (a, p')" "a \<noteq> 0"
    "drop_bit 12 a \<noteq> 0x90" "drop_bit 12 a \<noteq> table_of m 0"
  shows "new_table (of_nat d) m p k =
     Some (Inr (clear_words (drop_bit 12 a) 1024 (store 0x90 d (table_entry a (phys m 0x90 d)) m), p'))"
proof -
  let ?m = "store 0x90 d (table_entry a (phys m 0x90 d)) m"
  let ?gs = "[set_flag 0 True, set_flag 1 True, set_flag 2 True, set_frame (drop_bit 12 a)]"
  have "foldM (\<lambda>g. vmod (page_directory + 4 * of_nat d) g) ?gs m = Some ?m"
    using vmod_directory_entry [OF assms(1-3), of ?gs] by (simp add: table_entry_def)
  then obtain m1 m2 m3 where v: "vmod (page_directory + 4 * of_nat d) (set_flag 0 True) m = Some m1"
    "vmod (page_directory + 4 * of_nat d) (set_flag 1 True) m1 = Some m2"
    "vmod (page_directory + 4 * of_nat d) (set_flag 2 True) m2 = Some m3"
    "vmod (page_directory + 4 * of_nat d) (set_frame (drop_bit 12 a)) m3 = Some ?m"
    by (auto simp: Option.bind_eq_Some_conv)
  have w: "walk_ok ?m" by (rule walk_ok_store(1) [OF assms(1-3)])
  have t: "table_of ?m d = drop_bit 12 a" "has_table ?m d" "table_of ?m 0 = table_of m 0"
    using assms(2) by (simp_all add: table_store table_entry_bits)
  have "memset_table (0xFFC00000 OR push_bit 12 (of_nat d)) ?m = Some (clear_words (drop_bit 12 a) 1024 ?m)"
    using memset_recursive [OF w _ t(2)] assms(3,7,8) t by simp
  then show ?thesis using assms(5,6) v by (simp add: new_table_def)
qed

lemma map_missing:
  assumes "walk_ok m" "0 < pdx va" "pdx va < 1023" "\<not> has_table m (pdx va)"
    "pmm_alloc_block p = Some (b, p')" "b \<noteq> 0" "drop_bit 12 b \<noteq> 0x90" "drop_bit 12 b \<noteq> table_of m 0"
  shows "map_page a va flags m p k = Some (Inr (store (drop_bit 12 b) (ptx va) (entry a flags 0)
     (clear_words (drop_bit 12 b) 1024 (store 0x90 (pdx va) (table_entry b (phys m 0x90 (pdx va))) m)), p'))"
proof -
  let ?d = "pdx va" and ?f = "drop_bit 12 b" and ?dir = "store 0x90 (pdx va) (table_entry b (phys m 0x90 (pdx va))) m"
  let ?m = "clear_words ?f 1024 ?dir"
  have t: "table_of ?m e = (if e = ?d then ?f else table_of m e)" "has_table ?m e = (e = ?d \<or> has_table m e)" for e
    using assms(7) by (simp_all add: clear_words_tables table_store table_entry_bits)
  have w: "walk_ok ?m"
    using clear_words_walk [OF walk_ok_store(1) [OF assms(1-3)] assms(7)] assms(2,8) by (simp add: table_store)
  have r: "vread (page_directory + 4 * of_nat ?d) m = Some (phys m 0x90 ?d)" "\<not> bit (phys m 0x90 ?d) 0"
    using vread_directory [OF assms(1) index_bounds(1)] assms(4) by (simp_all add: has_table_def)
  have r': "vread (page_directory + 4 * of_nat ?d) ?m = Some (phys ?m 0x90 ?d)" "bit (phys ?m 0x90 ?d) 0"
    using vread_directory [OF w index_bounds(1)] t(2) [of ?d] by (simp_all add: has_table_def)
  have "map_page a va flags ?m p' k =
      Some (Inr (store (table_of ?m ?d) (ptx va) (entry a flags (phys ?m (table_of ?m ?d) (ptx va))) ?m, p'))"
    by (rule map_existing [OF w]) (use t assms(2,7,8) in auto)
  then have e: "map_page a va flags ?m p' k = Some (Inr (store ?f (ptx va) (entry a flags 0) ?m, p'))"
    using t(1) [of ?d] index_bounds(2) [of va] by simp
  have "map_page a va flags m p k = map_page a va flags ?m p' k"
    unfolding map_page_def drop22 Let_def r(1) r'(1)
    using r(2) r'(2) new_table_eq [OF assms, of k] by simp
  then show ?thesis using e by simp
qed

lemma owned_mono: "pmm_inv p \<Longrightarrow> pmm_alloc_block p = Some (a, p') \<Longrightarrow> a \<noteq> 0 \<Longrightarrow>
    pmm_inv p' \<and> owned_frames p' = insert a (owned_frames p) \<and> a \<notin> owned_frames p \<and> push_bit 12 (drop_bit 12 a) = a"
proof -
  assume a: "pmm_inv p" "pmm_alloc_block p = Some (a, p')" "a \<noteq> 0"
  have "a mod 4096 = 0" "pmm_inv p' \<and> owned_frames p' = insert a (owned_frames p) \<and> a \<notin> owned_frames p"
    using frames.alloc [OF a(1)] a(2,3) by auto
  moreover have "a mod 4096 = take_bit 12 a" by (simp add: take_bit_eq_mod)
  moreover have "push_bit 12 (drop_bit 12 a) + take_bit 12 a = a" by (simp add: bits_ident)
  ultimately show ?thesis by simp
qed

text \<open>Translations after a store into a page table, and after the creation of a table.\<close>

lemma paging_inv_store:
  assumes "paging_inv m p" "d < 1023" "has_table m d" "d \<noteq> 0 \<or> t \<noteq> 0x90"
  shows "paging_inv (store (table_of m d) t v m) p"
    "pdx va < 1023 \<Longrightarrow> translate (store (table_of m d) t v m) va =
       (if pdx va = d \<and> ptx va = t then if bit v 0 then Some (drop_bit 12 v) else None else translate m va)"
proof -
  note i = assms(1) [unfolded paging_inv_def]
  have f: "table_of m d \<noteq> 0x90" using i assms(2,3) by blast
  have z: "table_of m d = table_of m 0 \<Longrightarrow> d = 0" using i assms(2,3) by (auto simp: walk_ok_def)
  let ?m = "store (table_of m d) t v m"
  have same: "table_of ?m e = table_of m e" "has_table ?m e = has_table m e" for e using f by (simp_all add: table_store)
  have w: "walk_ok ?m" using i assms(4) f z by (intro walk_ok_store(2)) auto
  then show "paging_inv ?m p" using i unfolding paging_inv_def same by blast
  show "translate ?m va = (if pdx va = d \<and> ptx va = t then if bit v 0 then Some (drop_bit 12 v) else None else translate m va)"
    if "pdx va < 1023"
  proof (cases "has_table m (pdx va)")
    case True
    then have "table_of m (pdx va) = table_of m d \<longleftrightarrow> pdx va = d" using i assms(2,3) that by blast
    then show ?thesis using i True unfolding translate_walk [OF w] same by (auto simp: translate_walk)
  next
    case False
    then have "pdx va \<noteq> d" using assms(3) by auto
    then show ?thesis using i False unfolding translate_walk [OF w] same by (simp add: translate_walk)
  qed
qed

lemma paging_inv_new:
  assumes "paging_inv m p" "0 < d" "d < 1023" "\<not> has_table m d" "pmm_alloc_block p = Some (b, p')" "b \<noteq> 0"
  defines "m' \<equiv> clear_words (drop_bit 12 b) 1024 (store 0x90 d (table_entry b (phys m 0x90 d)) m)"
  shows "paging_inv m' p'" "has_table m' d" "table_of m' d = drop_bit 12 b"
    "pdx va < 1023 \<Longrightarrow> translate m' va = translate m va"
    "drop_bit 12 b \<noteq> 0x90" "drop_bit 12 b \<noteq> table_of m 0"
proof -
  note i = assms(1) [unfolded paging_inv_def]
  have o: "pmm_inv p'" "owned_frames p' = insert b (owned_frames p)" "b \<notin> owned_frames p" "push_bit 12 (drop_bit 12 b) = b"
    using owned_mono [of p b p'] i assms(5,6) by auto
  have fresh: "drop_bit 12 b \<noteq> table_of m e" if "e < 1023" "has_table m e" for e using i that o(3,4) by metis
  show f: "drop_bit 12 b \<noteq> 0x90"
  proof
    assume "drop_bit 12 b = 0x90"
    then have "b = page_directory" using o(4) by simp
    then show False using i o(3) by simp
  qed
  show f0: "drop_bit 12 b \<noteq> table_of m 0" using fresh [of 0] i by (simp add: walk_ok_def)
  have t: "table_of m' e = (if e = d then drop_bit 12 b else table_of m e)" "has_table m' e = (e = d \<or> has_table m e)" for e
    using f by (simp_all add: m'_def clear_words_tables table_store table_entry_bits)
  then show "has_table m' d" "table_of m' d = drop_bit 12 b" by simp_all
  have w: "walk_ok m'"
    using clear_words_walk [OF walk_ok_store(1) [of m d] f] i assms(2,3) f0 by (simp add: m'_def table_store)
  have mono: "\<And>x. x \<in> owned_frames p \<Longrightarrow> x \<in> owned_frames p'" using o(2) by simp
  have "push_bit 12 (table_of m' e) \<in> owned_frames p' \<and> table_of m' e \<noteq> 0x90" if "e < 1023" "has_table m' e" for e
    using that t [of e] i mono o(2,4) f by (cases "e = d") auto
  moreover have "e = g" if "e < 1023" "g < 1023" "has_table m' e" "has_table m' g" "table_of m' e = table_of m' g" for e g
    using that t [of e] t [of g] fresh [of e] fresh [of g] i by (cases "e = d"; cases "g = d") auto
  ultimately show "paging_inv m' p'" using i o(1) w mono unfolding paging_inv_def by blast
  show "translate m' va = translate m va" if "pdx va < 1023"
  proof (cases "pdx va = d")
    case True
    then show ?thesis using w i assms(4) t [of d] index_bounds(2) [of va] by (simp add: translate_walk m'_def)
  next
    case False
    then have "has_table m (pdx va) \<Longrightarrow> table_of m (pdx va) \<noteq> drop_bit 12 b" "has_table m (pdx va) \<Longrightarrow> table_of m (pdx va) \<noteq> 0x90"
      using fresh [OF that] i that by auto
    then show ?thesis using w i False t [of "pdx va"] by (auto simp: translate_walk m'_def)
  qed
qed

lemma paging_invD:
  assumes "paging_inv m p"
  shows "walk_ok m" "pmm_inv p" "has_table m 0"
    "d < 1023 \<Longrightarrow> has_table m d \<Longrightarrow> table_of m d \<noteq> 0x90"
    "d < 1023 \<Longrightarrow> has_table m d \<Longrightarrow> d \<noteq> 0 \<Longrightarrow> table_of m d \<noteq> table_of m 0"
proof -
  note i = assms [unfolded paging_inv_def]
  show w: "walk_ok m" "pmm_inv p" using i by blast+
  then show z: "has_table m 0" by (simp add: walk_ok_def)
  show "d < 1023 \<Longrightarrow> has_table m d \<Longrightarrow> table_of m d \<noteq> 0x90" using i by blast
  have "(0 :: nat) < 1023" by simp
  then show "d < 1023 \<Longrightarrow> has_table m d \<Longrightarrow> d \<noteq> 0 \<Longrightarrow> table_of m d \<noteq> table_of m 0" using i z by blast
qed

lemma map_page_effect:
  assumes "paging_inv m p" "pdx va < 1023" "pdx va \<noteq> 0 \<or> ptx va \<noteq> 0x90"
    "has_table m (pdx va) \<or> fst (the (pmm_alloc_block p)) \<noteq> 0"
  obtains m' p' where "map_page a va flags m p k = Some (Inr (m', p'))" "paging_inv m' p'"
    "translate m' va = (if flags AND 1 \<noteq> 0 then Some (drop_bit 12 a) else None)"
    "\<And>vb. pdx vb < 1023 \<Longrightarrow> pdx vb \<noteq> pdx va \<or> ptx vb \<noteq> ptx va \<Longrightarrow> translate m' vb = translate m vb"
proof (cases "has_table m (pdx va)")
  case True
  note i = paging_invD [OF assms(1)]
  define e where "e = entry a flags (phys m (table_of m (pdx va)) (ptx va))"
  define m' where "m' = store (table_of m (pdx va)) (ptx va) e m"
  have mp: "map_page a va flags m p k = Some (Inr (m', p))" unfolding m'_def e_def
  proof (rule map_existing)
    show "walk_ok m" "table_of m (pdx va) \<noteq> 0x90" using i(1) i(4) [OF assms(2) True] by simp_all
    show "table_of m (pdx va) \<noteq> table_of m 0" if "pdx va \<noteq> 0" by (rule i(5) [OF assms(2) True that])
  qed (fact True, fact assms(3))
  note s = paging_inv_store [OF assms(1,2) True assms(3), where v = e, folded m'_def]
  have "translate m' va = (if flags AND 1 \<noteq> 0 then Some (drop_bit 12 a) else None)"
    using s(2) [OF assms(2)] by (simp add: e_def entry_bits)
  moreover have "translate m' vb = translate m vb" if "pdx vb < 1023" "pdx vb \<noteq> pdx va \<or> ptx vb \<noteq> ptx va" for vb
    using s(2) [OF that(1)] that(2) by (simp only: if_False de_Morgan_conj simp_thms split: if_split) blast
  ultimately show ?thesis by (rule that [OF mp s(1)])
next
  case False
  note i = paging_invD [OF assms(1)]
  obtain b p' where b: "pmm_alloc_block p = Some (b, p')" using frames.alloc [OF i(2)] by blast
  then have b0: "b \<noteq> 0" using assms(4) False by simp
  have d: "0 < pdx va" using False i(3) by (cases "pdx va") simp_all
  define m1 where "m1 = clear_words (drop_bit 12 b) 1024 (store 0x90 (pdx va) (table_entry b (phys m 0x90 (pdx va))) m)"
  note n = paging_inv_new [OF assms(1) d assms(2) False b b0, folded m1_def]
  define m' where "m' = store (drop_bit 12 b) (ptx va) (entry a flags 0) m1"
  have mp: "map_page a va flags m p k = Some (Inr (m', p'))" unfolding m'_def m1_def
    by (rule map_missing [OF i(1) d assms(2) False b b0 n(5,6)])
  have s: "paging_inv m' p'" "\<And>vb. pdx vb < 1023 \<Longrightarrow> translate m' vb =
      (if pdx vb = pdx va \<and> ptx vb = ptx va then if bit (entry a flags 0) 0 then Some (drop_bit 12 (entry a flags 0)) else None
       else translate m1 vb)"
    using paging_inv_store [OF n(1) assms(2) n(2), where t = "ptx va" and v = "entry a flags 0", unfolded n(3), folded m'_def] d by simp_all
  have "translate m' va = (if flags AND 1 \<noteq> 0 then Some (drop_bit 12 a) else None)"
    using s(2) [OF assms(2)] by (simp add: entry_bits)
  moreover have "translate m' vb = translate m vb" if "pdx vb < 1023" "pdx vb \<noteq> pdx va \<or> ptx vb \<noteq> ptx va" for vb
    using s(2) [OF that(1)] that n(4) [OF that(1)] by (simp only: if_False de_Morgan_conj simp_thms split: if_split) blast
  ultimately show ?thesis by (rule that [OF mp s(1)])
qed

lemma get_phys_addr_eq:
  assumes "walk_ok m" "pdx va < 1023"
  shows "get_phys_addr va m = Some (case translate m va of None \<Rightarrow> 0 | Some f \<Rightarrow> push_bit 12 f + (va AND 0xFFF))"
  unfolding get_phys_addr_def drop22 Let_def vread_directory [OF assms(1) index_bounds(1)]
  using vread_table [OF assms(1) index_bounds(1) _ index_bounds(2), of va va]
  by (simp add: translate_walk [OF assms(1)] has_table_def table_of_def)

section \<open>Installation\<close>

text \<open>Before paging is on, an address is physical.\<close>

lemma boot_address:
  assumes "i < 1024"
  shows "drop_bit 12 (0x90000 + 4 * of_nat i :: u32) = 0x90" "drop_bit 12 (0x91000 + 4 * of_nat i :: u32) = 0x91"
    "wordx (0x91000 + 4 * of_nat i) = i"
proof -
  have a: "unat (of_nat (n + 4 * i) :: u32) = n + 4 * i" if "n < 2 ^ 20" for n
    using assms that by (simp only: unat_of_nat) simp
  have u: "unat (0x90000 + 4 * of_nat i :: u32) = 0x90000 + 4 * i" "unat (0x91000 + 4 * of_nat i :: u32) = 0x91000 + 4 * i"
    using a [of "0x90000"] a [of "0x91000"] by simp_all
  have q: "(0x90000 + 4 * i) div 2 ^ 12 = 0x90" "(0x91000 + 4 * i) div 2 ^ 12 = 0x91"
    "(0x91000 + 4 * i) div 2 ^ 2 = 0x91 * 1024 + i"
    using assms by (auto intro!: div_nat_eqI)
  show "drop_bit 12 (0x90000 + 4 * of_nat i :: u32) = 0x90" "drop_bit 12 (0x91000 + 4 * of_nat i :: u32) = 0x91"
    unfolding word_unat_eq_iff unat_drop u q by simp_all
  show "wordx (0x91000 + 4 * of_nat i) = i" unfolding indices u q by (rule page_mod [OF assms])
qed

lemma vmod_boot:
  assumes "\<not> pg m" "i < 1024"
  shows "vmod (page_directory + 4 * of_nat i) g m = Some (store 0x90 i (g (phys m 0x90 i)) m)"
    "vmod (first_page_table + 4 * of_nat i) g m = Some (store 0x91 i (g (phys m 0x91 i)) m)"
  using assms boot_address [OF assms(2)] directory_address(3) [OF assms(2)] by (simp_all add: vmod_def translate_def)

lemma memset_boot:
  assumes "\<not> pg m"
  shows "memset_table page_directory m = Some (clear_words 0x90 1024 m)"
    "memset_table first_page_table m = Some (clear_words 0x91 1024 m)"
proof -
  have "foldM (\<lambda>i. vmod (page_directory + 4 * of_nat i) (\<lambda>_. 0)) [0..<n] m = Some (clear_words 0x90 n m)"
    "foldM (\<lambda>i. vmod (first_page_table + 4 * of_nat i) (\<lambda>_. 0)) [0..<n] m = Some (clear_words 0x91 n m)"
    if "n \<le> 1024" for n
    using that assms by (induction n) (simp_all add: vmod_boot clear_words_Suc)
  then show "memset_table page_directory m = Some (clear_words 0x90 1024 m)"
    "memset_table first_page_table m = Some (clear_words 0x91 1024 m)"
    by (simp_all only: memset_table_def order_refl)
qed

definition boot_entry :: "u32 \<Rightarrow> u32" where
  "boot_entry frame = set_frame frame (set_flag 1 True (set_flag 0 True 0))"

definition identity_words :: "nat \<Rightarrow> mmu \<Rightarrow> mmu" where
  "identity_words n m = m\<lparr>phys := (\<lambda>f j. if f = 0x91 \<and> j < n then boot_entry (drop_bit 12 (of_nat j * 0x1000)) else phys m f j)\<rparr>"

lemma identity_entries:
  assumes "\<not> pg m" "\<forall>j < 1024. phys m 0x91 j = 0" "n \<le> 1024"
  shows "foldM identity_entry [0..<n] m = Some (identity_words n m)"
  using assms(3)
proof (induction n)
  case 0
  then show ?case by (simp add: identity_words_def)
next
  case (Suc n)
  have o: "\<not> pg (identity_words n m)" "phys (identity_words n m) 0x91 n = 0"
    using assms(1,2) Suc.prems by (simp_all add: identity_words_def)
  have "identity_entry n (identity_words n m) =
      Some (store 0x91 n (boot_entry (drop_bit 12 (of_nat n * 0x1000))) (identity_words n m))"
    using vmod_boot(2) [of _ n] o Suc.prems by (simp add: identity_entry_def boot_entry_def Let_def)
  moreover have "store 0x91 n (boot_entry (drop_bit 12 (of_nat n * 0x1000))) (identity_words n m) = identity_words (Suc n) m"
    by (simp add: store_def identity_words_def fun_eq_iff less_Suc_eq)
  ultimately show ?case using Suc by simp
qed

lemma boot_entry_bits: "bit (boot_entry fr) 0" "drop_bit 12 (boot_entry (drop_bit 12 a)) = drop_bit 12 a"
  by (simp_all add: boot_entry_def set_frame_bits set_flag_bit0)

definition boot_tables :: "mmu \<Rightarrow> mmu" where
  "boot_tables m = (store 0x90 1023 (boot_entry 0x90) (store 0x90 0 (boot_entry 0x91)
     (identity_words 1024 (clear_words 0x91 1024 (clear_words 0x90 1024 m)))))\<lparr>cr3 := page_directory, pg := True\<rparr>"

lemma paging_install_eq:
  assumes "\<not> pg m" "intr_inv s"
  shows "paging_install (m, s) =
     Some (boot_tables m, s\<lparr>interrupt_handlers := (interrupt_handlers s)[14 := Some Page_fault_handler]\<rparr>)"
proof -
  let ?m2 = "clear_words 0x91 1024 (clear_words 0x90 1024 m)"
  let ?m3 = "identity_words 1024 ?m2"
  have o: "\<not> pg ?m2" "\<forall>j < 1024. phys ?m2 0x91 j = 0" "\<not> pg ?m3"
    using assms(1) by (simp_all add: identity_words_def)
  have i: "foldM identity_entry [0..<1024] ?m2 = Some ?m3"
    using identity_entries [OF o(1,2), of 1024] by simp
  have z: "phys ?m3 0x90 j = 0" if "j < 1024" for j using that by (simp add: identity_words_def)
  have e: "set_directory_entry (page_directory + 4 * of_nat j) table q =
      Some (store 0x90 j (boot_entry (drop_bit 12 table)) q)" if "\<not> pg q" "j < 1024" "phys q 0x90 j = 0" for j table q
    using vmod_boot(1) [of _ j] that by (simp add: set_directory_entry_def boot_entry_def)
  have "set_directory_entry page_directory first_page_table ?m3 = Some (store 0x90 0 (boot_entry 0x91) ?m3)"
    using e [of ?m3 0 first_page_table] o(3) z by simp
  moreover have "set_directory_entry (page_directory + 4 * 1023) page_directory (store 0x90 0 (boot_entry 0x91) ?m3) =
      Some (store 0x90 1023 (boot_entry 0x90) (store 0x90 0 (boot_entry 0x91) ?m3))"
    using e [of "store 0x90 0 (boot_entry 0x91) ?m3" 1023 page_directory] o(3) z by simp
  moreover have "register_interrupt_handler 14 Page_fault_handler s =
      Some (s\<lparr>interrupt_handlers := (interrupt_handlers s)[14 := Some Page_fault_handler]\<rparr>)"
    using assms(2) by (simp add: register_interrupt_handler_def intr_inv_def)
  ultimately show ?thesis
    unfolding paging_install_def boot_tables_def using memset_boot [of m] memset_boot(2) [of "clear_words 0x90 1024 m"] assms(1) i
    by (simp del: upt_rec_numeral)
qed

lemma boot_tables_entries:
  "has_table (boot_tables m) d \<longleftrightarrow> d = 0 \<or> d = 1023 \<or> 1024 \<le> d \<and> has_table m d"
  "table_of (boot_tables m) 0 = 0x91" "table_of (boot_tables m) 1023 = 0x90"
  "j < 1024 \<Longrightarrow> phys (boot_tables m) 0x91 j = boot_entry (drop_bit 12 (of_nat j * 0x1000))"
proof -
  have "drop_bit 12 (boot_entry 0x91) = 0x91" "drop_bit 12 (boot_entry 0x90) = 0x90"
    using boot_entry_bits(2) [of "0x91000"] boot_entry_bits(2) [of "0x90000"] by simp_all
  then show "table_of (boot_tables m) 0 = 0x91" "table_of (boot_tables m) 1023 = 0x90"
    by (simp_all add: boot_tables_def table_of_def)
  show "has_table (boot_tables m) d \<longleftrightarrow> d = 0 \<or> d = 1023 \<or> 1024 \<le> d \<and> has_table m d"
    by (auto simp: boot_tables_def has_table_def boot_entry_bits identity_words_def)
  show "j < 1024 \<Longrightarrow> phys (boot_tables m) 0x91 j = boot_entry (drop_bit 12 (of_nat j * 0x1000))"
    by (simp add: boot_tables_def identity_words_def)
qed

lemma frame_of_nat: "j < 1024 \<Longrightarrow> drop_bit 12 (of_nat j * 0x1000 :: u32) = of_nat j"
proof -
  assume "j < 1024"
  then have "unat (of_nat (j * 0x1000) :: u32) = j * 0x1000" "unat (of_nat j :: u32) = j"
    by (simp_all only: unat_of_nat) simp_all
  then show ?thesis unfolding word_unat_eq_iff unat_drop by simp
qed

lemma boot_walk: "walk_ok (boot_tables m)"
  unfolding walk_ok_def boot_tables_entries
  using boot_tables_entries(4) [of "0x90" m] frame_of_nat [of "0x90"] boot_entry_bits(2) [of "0x90000"]
  by (simp add: boot_entry_bits) (simp add: boot_tables_def)

lemma boot_translate:
  "pdx va = 0 \<Longrightarrow> translate (boot_tables m) va = Some (drop_bit 12 va)"
  "0 < pdx va \<Longrightarrow> pdx va < 1023 \<Longrightarrow> translate (boot_tables m) va = None"
  "pdx va = 1023 \<Longrightarrow> translate (boot_tables m) va =
     (if ptx va = 0 then Some 0x91 else if ptx va = 1023 then Some 0x90 else None)"
proof -
  assume "pdx va = 0"
  then have "unat va div 2 ^ 12 < 1024" by (simp add: indices div_less_iff_less_mult)
  then have "(of_nat (ptx va) :: u32) = drop_bit 12 va"
    unfolding word_unat_eq_iff unat_drop by (simp add: unat_of_nat indices take_bit_nat_eq_self)
  then show "translate (boot_tables m) va = Some (drop_bit 12 va)"
    using boot_tables_entries(4) [OF index_bounds(2), of m va] boot_entry_bits frame_of_nat [OF index_bounds(2), of va] \<open>pdx va = 0\<close>
    unfolding translate_walk [OF boot_walk] by (simp add: boot_tables_entries)
next
  assume "0 < pdx va" "pdx va < 1023"
  then show "translate (boot_tables m) va = None"
    unfolding translate_walk [OF boot_walk] by (simp add: boot_tables_entries)
next
  assume p: "pdx va = 1023"
  have "translate (boot_tables m) va = (if has_table (boot_tables m) (ptx va) then Some (table_of (boot_tables m) (ptx va)) else None)"
    unfolding translate_walk [OF boot_walk] p boot_tables_entries(2,3)
    using boot_tables_entries(1) [of m 1023] by (simp add: has_table_def [of _ "ptx va"] table_of_def)
  then show "translate (boot_tables m) va = (if ptx va = 0 then Some 0x91 else if ptx va = 1023 then Some 0x90 else None)"
    using index_bounds(2) [of va] boot_tables_entries(2,3) [of m] by (auto simp: boot_tables_entries(1))
qed

text \<open>The last 4 MiB are the window of the recursive entry.\<close>

lemma window_indices:
  assumes "0xFFC00000 \<le> unat (va :: u32)"
  shows "pdx va = 1023" "ptx va = 0 \<longleftrightarrow> unat va < 0xFFC01000" "ptx va = 1023 \<longleftrightarrow> 0xFFFFF000 \<le> unat va"
proof -
  define q where "q = unat va div 4096"
  have n: "unat va < 2 ^ 32" using unsigned_less [of va, where 'a = nat] by simp
  have q: "1047552 \<le> q" "q < 1048576" using assms n by (simp_all add: q_def less_eq_div_iff_mult_less_eq div_less_iff_less_mult)
  have d: "unat va div 2 ^ 22 = q div 1024" by (simp add: q_def div_mult2_eq [symmetric])
  show "pdx va = 1023" unfolding indices(1) d using q by (intro div_nat_eqI) simp_all
  have p: "ptx va = q - 1047552" unfolding indices(2) using q mod_mult_self1 [of "q - 1047552" 1023 1024] by (simp add: q_def)
  show "ptx va = 0 \<longleftrightarrow> unat va < 0xFFC01000"
    using p q less_eq_div_iff_mult_less_eq [of 4096 1047553 "unat va"] by (auto simp: q_def)
  show "ptx va = 1023 \<longleftrightarrow> 0xFFFFF000 \<le> unat va"
    using p q less_eq_div_iff_mult_less_eq [of 4096 1048575 "unat va"] by (auto simp: q_def)
qed

section \<open>Properties\<close>

text \<open>
  (C16) The whole address space after \<^verbatim>\<open>paging_install\<close>: the first 4 MiB are mapped to themselves, the
  first page of the last 4 MiB is the page table and the last page is the page directory (the window
  of the recursive entry), and nothing else is mapped; page faults are dispatched to their handler.
  In particular the kernel heap, which starts at 4 MiB, is not mapped.
\<close>

theorem paging_install_identity:
  assumes "\<not> pg m" "intr_inv s"
  shows "\<exists>m' s'. paging_install (m, s) = Some (m', s') \<and> pg m' \<and>
     (\<forall>va. translate m' va =
        (if unat va < 0x400000 then Some (drop_bit 12 va)
         else if unat va < 0xFFC00000 then None
         else if unat va < 0xFFC01000 then Some (drop_bit 12 first_page_table)
         else if 0xFFFFF000 \<le> unat va then Some (drop_bit 12 page_directory)
         else None)) \<and>
     interrupt_handlers s' ! 14 = Some Page_fault_handler"
proof -
  have "pdx va = 0" if "unat va < 0x400000" for va using that by (simp add: indices)
  moreover have "0 < pdx va \<and> pdx va < 1023" if "\<not> unat va < 0x400000" "unat va < 0xFFC00000" for va
    using that by (simp add: indices div_less_iff_less_mult div_greater_zero_iff)
  ultimately have t: "translate (boot_tables m) va =
        (if unat va < 0x400000 then Some (drop_bit 12 va)
         else if unat va < 0xFFC00000 then None
         else if unat va < 0xFFC01000 then Some 0x91
         else if 0xFFFFF000 \<le> unat va then Some 0x90 else None)" for va
    using boot_translate [of va m] window_indices [of va] by simp
  have "14 < length (interrupt_handlers s)" using assms(2) by (simp add: intr_inv_def)
  moreover have "pg (boot_tables m)" by (simp add: boot_tables_def)
  ultimately show ?thesis unfolding paging_install_eq [OF assms] using t by simp
qed

definition blank_mmu :: mmu where
  "blank_mmu = \<lparr>phys = (\<lambda>_ _. 0), cr3 = 0, pg = False\<rparr>"

theorem paging_install_identity_witness:
  "\<exists>m' s'. paging_install (blank_mmu, idle_intr) = Some (m', s') \<and> translate m' 0xB8000 = Some 0xB8 \<and>
     translate m' 0x400000 = None \<and> translate m' 0xFFC00000 = Some 0x91"
proof -
  obtain m' s' where p: "paging_install (blank_mmu, idle_intr) = Some (m', s')"
    and t: "\<And>va. translate m' va =
        (if unat va < 0x400000 then Some (drop_bit 12 va)
         else if unat va < 0xFFC00000 then None
         else if unat va < 0xFFC01000 then Some (drop_bit 12 first_page_table)
         else if 0xFFFFF000 \<le> unat va then Some (drop_bit 12 page_directory)
         else None)"
    using paging_install_identity [of blank_mmu, OF _ idle_intr_inv] by (auto simp: blank_mmu_def)
  show ?thesis using p t [of "0xB8000"] t [of "0x400000"] t [of "0xFFC00000"] by simp
qed

text \<open>
  (C14) \<^verbatim>\<open>map_page\<close> does what it says: when the directory has a table for the address, or a frame for
  a new one is left, the address translates to the requested frame afterwards (or to none, without
  the present flag), every other page below the recursive window keeps its translation, and the
  invariant of the page tables and the allocator is kept.
\<close>

theorem map_page_maps:
  assumes "paging_inv m p" "pdx va < 1023" "pdx va \<noteq> 0 \<or> ptx va \<noteq> 0x90"
    "has_table m (pdx va) \<or> fst (the (pmm_alloc_block p)) \<noteq> 0"
  shows "\<exists>m' p'. map_page a va flags m p k = Some (Inr (m', p')) \<and> paging_inv m' p' \<and>
     translate m' va = (if flags AND 1 \<noteq> 0 then Some (drop_bit 12 a) else None) \<and>
     (\<forall>vb. pdx vb < 1023 \<longrightarrow> pdx vb \<noteq> pdx va \<or> ptx vb \<noteq> ptx va \<longrightarrow> translate m' vb = translate m vb)"
  using map_page_effect [OF assms] by metis

definition boot_pmm :: pmm where
  "boot_pmm = \<lparr>pmm_bitmap = replicate 5 0xFFFFFFFF @ replicate 3 0, total_blocks = 256, used_blocks = 160\<rparr>"

lemma boot_pmm_marked: "b < 256 \<Longrightarrow> marked boot_pmm b \<longleftrightarrow> b < 160"
proof -
  assume "b < 256"
  then have "b div 32 < 8" by simp
  then show ?thesis
    using all_bits_set [of "0xFFFFFFFF"] by (auto simp: marked_def boot_pmm_def nth_append nth_replicate)
qed

lemma boot_pmm_facts: "pmm_inv boot_pmm" "free_frame boot_pmm = Some 160"
proof -
  have t: "unat (total_blocks boot_pmm) = 256" "unat (used_blocks boot_pmm) = 160" "length (pmm_bitmap boot_pmm) = 8"
    by (simp_all add: boot_pmm_def)
  have "{b. b < 256 \<and> marked boot_pmm b} = {..<160}" using boot_pmm_marked by force
  then show "pmm_inv boot_pmm" using boot_pmm_marked [of 0] by (simp add: pmm_inv_def t)
  show "free_frame boot_pmm = Some 160"
    using boot_pmm_marked by (simp add: free_frame_def first_idx_Some t del: upt_rec_numeral)
qed

lemma boot_owned: "b < 160 \<Longrightarrow> of_nat b * 4096 \<in> owned_frames boot_pmm"
  using boot_pmm_marked [of b] by (auto simp: owned_frames_def boot_pmm_def)

lemma boot_tables_inv:
  assumes "pmm_inv p" "push_bit 12 (0x91 :: u32) \<in> owned_frames p" "page_directory \<in> owned_frames p"
  shows "paging_inv (boot_tables m) p"
proof -
  have only: "d = 0" if "d < 1023" "has_table (boot_tables m) d" for d using that by (simp add: boot_tables_entries)
  have "push_bit 12 (table_of (boot_tables m) d) \<in> owned_frames p \<and> table_of (boot_tables m) d \<noteq> 0x90"
    if "d < 1023" "has_table (boot_tables m) d" for d
    using only [OF that] assms(2) boot_tables_entries(2) by simp
  moreover have "d = e" if "d < 1023" "e < 1023" "has_table (boot_tables m) d" "has_table (boot_tables m) e" for d e
    using only [OF that(1,3)] only [OF that(2,4)] by simp
  ultimately show ?thesis
    unfolding paging_inv_def using boot_walk assms(1,3) by (intro conjI allI impI) blast+
qed

lemma boot_paging_inv: "paging_inv (boot_tables blank_mmu) boot_pmm"
  by (rule boot_tables_inv) (use boot_pmm_facts(1) boot_owned [of "0x91"] boot_owned [of "0x90"] in simp_all)

theorem map_page_maps_witness:
  "\<exists>m' p'. map_page 0x9F000 0x400123 3 (boot_tables blank_mmu) boot_pmm boot_console = Some (Inr (m', p')) \<and>
     translate m' 0x400123 = Some 0x9F \<and> translate m' 0xB8000 = Some 0xB8"
proof -
  have i: "pdx 0x400123 = 1" "ptx 0x400123 = 0" "pdx 0xB8000 = 0" by (simp_all add: indices)
  obtain p1 where "pmm_alloc_block boot_pmm = Some (of_nat 160 * 4096, p1)"
    using alloc_eq [OF boot_pmm_facts(1), unfolded boot_pmm_facts(2) option.case] by (elim exE conjE)
  then have "fst (the (pmm_alloc_block boot_pmm)) \<noteq> 0" by simp
  then have "has_table (boot_tables blank_mmu) (pdx 0x400123) \<or> fst (the (pmm_alloc_block boot_pmm)) \<noteq> 0" ..
  moreover have "pdx 0x400123 < 1023" "pdx 0x400123 \<noteq> 0 \<or> ptx 0x400123 \<noteq> 0x90" unfolding i by simp_all
  ultimately obtain m' p' where m: "map_page 0x9F000 0x400123 3 (boot_tables blank_mmu) boot_pmm boot_console = Some (Inr (m', p'))"
    "translate m' 0x400123 = (if (3 :: u32) AND 1 \<noteq> 0 then Some (drop_bit 12 0x9F000) else None)"
    "\<forall>vb. pdx vb < 1023 \<longrightarrow> pdx vb \<noteq> pdx 0x400123 \<or> ptx vb \<noteq> ptx 0x400123 \<longrightarrow>
        translate m' vb = translate (boot_tables blank_mmu) vb"
    using map_page_maps [OF boot_paging_inv, of "0x400123" "0x9F000" 3 boot_console] by blast
  have "translate m' 0xB8000 = Some (drop_bit 12 0xB8000)"
    using m(3) [rule_format, of "0xB8000"] boot_translate(1) [OF i(3), of blank_mmu] by (simp only: i) simp
  then show ?thesis using m(1,2) by simp
qed

text \<open>
  (C15) \<^verbatim>\<open>get_phys_addr\<close> agrees with the hardware: for every address below the recursive window it
  returns the physical address of the walk, and 0 exactly where the walk finds no page (or frame 0).
\<close>

theorem get_phys_addr_agrees:
  assumes "walk_ok m" "pdx va < 1023"
  shows "get_phys_addr va m = Some (case translate m va of None \<Rightarrow> 0 | Some f \<Rightarrow> push_bit 12 f + (va AND 0xFFF))"
  by (rule get_phys_addr_eq [OF assms])

theorem get_phys_addr_agrees_witness: "get_phys_addr 0xB8123 (boot_tables blank_mmu) = Some 0xB8123"
proof -
  have "pdx 0xB8123 = 0" by (simp add: indices)
  then show ?thesis using get_phys_addr_agrees [OF boot_walk, of "0xB8123" blank_mmu] boot_translate(1) [of "0xB8123" blank_mmu] by simp
qed

text \<open>
  (C38) \<^verbatim>\<open>unmap_page\<close> follows the frame number of the page table as if it were a virtual address: when the
  physical address of the table is not itself mapped, unmapping a page that has a table faults
  instead of clearing its entry.
\<close>

theorem unmap_page_faults:
  assumes "walk_ok m" "has_table m (pdx va)"
    "translate m (push_bit 12 (table_of m (pdx va)) + 4 * of_nat (ptx va)) = None"
  shows "unmap_page va m = None"
  unfolding unmap_page_def drop22 Let_def vread_directory [OF assms(1) index_bounds(1)]
  using assms(2,3) by (simp add: has_table_def table_of_def vmod_def)

theorem unmap_page_faults_witness:
  "unmap_page 0x800000 (store 0x90 2 (boot_entry 0x500) (boot_tables blank_mmu)) = None"
proof -
  let ?m = "store 0x90 2 (boot_entry 0x500) (boot_tables blank_mmu)"
  have w: "walk_ok ?m" by (rule walk_ok_store(1) [OF boot_walk]) simp_all
  have i: "pdx 0x800000 = 2" "ptx 0x800000 = 0" "pdx 0x500000 = 1" by (simp_all add: indices)
  have t: "table_of ?m 2 = 0x500" using boot_entry_bits(2) [of "0x500000"] by (simp add: table_store)
  have "translate ?m 0x500000 = None" using w i by (simp add: translate_walk table_store boot_tables_entries)
  then show ?thesis
    using unmap_page_faults [OF w, of "0x800000"] i t by (simp add: table_store boot_entry_bits)
qed

end
