(* ===== verification/Heap_Alloc.thy ===== *)
theory Heap_Alloc
  imports Memcore
begin

text \<open>
  The kernel heap of \<^verbatim>\<open>src/memory/heap.c\<close>: a pointer that only moves up.  The state is the 32-bit
  value of \<^verbatim>\<open>heap_ptr\<close>, and all address arithmetic wraps as in C.
\<close>

section \<open>Definitions\<close>

abbreviation (input) HEAP_START :: u32 where "HEAP_START \<equiv> 0x400000"
abbreviation (input) HEAP_END :: u32 where "HEAP_END \<equiv> 0x800000"

definition kmalloc :: "u32 \<Rightarrow> u32 \<Rightarrow> u32 \<times> u32" where
  "kmalloc sz heap_ptr =
     (if heap_ptr + sz > HEAP_END then (0, heap_ptr) else (heap_ptr, heap_ptr + sz))"

text \<open>An alignment of 0 divides by zero, which is \<^term>\<open>None\<close>.\<close>

definition alloc_aligned :: "u32 \<Rightarrow> u32 \<Rightarrow> u32 \<Rightarrow> (u32 \<times> u32) option" where
  "alloc_aligned sz alignment heap_ptr =
     (if alignment = 0 then None
      else let addr = (if heap_ptr mod alignment \<noteq> 0
                       then (heap_ptr + alignment - 1) AND NOT (alignment - 1) else heap_ptr)
           in if addr + sz > HEAP_END then Some (0, heap_ptr) else Some (addr, addr + sz))"

definition kfree :: "u32 \<Rightarrow> u32 \<Rightarrow> u32" where
  "kfree ptr heap_ptr = heap_ptr"

section \<open>Invariant\<close>

definition heap_inv :: "u32 \<Rightarrow> bool" where
  "heap_inv p \<longleftrightarrow> HEAP_START \<le> p \<and> p \<le> HEAP_END"

text \<open>Sizes below 2 GiB cannot wrap the sum with an address of the heap.\<close>

lemma unat_heap_add:
  assumes "heap_inv p" "sz < 0x80000000"
  shows "unat (p + sz) = unat p + unat sz"
proof -
  have "unat p \<le> 0x800000" "unat sz < 0x80000000"
    using assms by (simp_all add: heap_inv_def word_le_nat_alt word_less_nat_alt)
  then show ?thesis by (simp add: unat_word_ariths)
qed

lemma kmalloc_eq:
  assumes "heap_inv p" "sz < 0x80000000"
  shows "kmalloc sz p = (if unat p + unat sz \<le> 0x800000 then (p, p + sz) else (0, p))"
  using unat_heap_add [OF assms] by (simp add: kmalloc_def word_less_nat_alt not_le)

text \<open>Rounding up to a power of two.\<close>

lemma mask_complement_div:
  assumes "k < 32"
  shows "unat ((x :: u32) AND NOT (2 ^ k - 1)) = unat x - unat x mod 2 ^ k"
proof -
  have "x AND NOT (2 ^ k - 1) = push_bit k (drop_bit k x)"
    by (rule bit_word_eqI) (auto simp: bit_simps simp flip: mask_eq_exp_minus_1)
  moreover have "x = push_bit k (drop_bit k x) + take_bit k x" by (simp add: bits_ident)
  ultimately have "x AND NOT (2 ^ k - 1) = x - take_bit k x" by (metis add_diff_cancel_right')
  moreover have "take_bit k x \<le> x" unfolding word_le_nat_alt unsigned_take_bit_eq by (rule take_bit_nat_less_eq_self)
  ultimately show ?thesis by (simp only: unat_sub unsigned_take_bit_eq) (simp only: take_bit_eq_mod)
qed

lemma unat_exp: "k < 32 \<Longrightarrow> unat (2 ^ k :: u32) = 2 ^ k"
proof -
  assume "k < 32"
  then have "(2 :: nat) ^ k < 2 ^ 32" by (intro power_strict_increasing) simp_all
  then have "unat (of_nat (2 ^ k) :: u32) = 2 ^ k" by (simp only: unat_of_nat) simp
  then show ?thesis by simp
qed

lemma alloc_aligned_eq:
  assumes "heap_inv p" "sz < 0x80000000" "k \<le> 22"
  obtains a where "unat a mod 2 ^ k = 0" "unat p \<le> unat a" "unat a < unat p + 2 ^ k" "unat (a + sz) = unat a + unat sz"
    "alloc_aligned sz (2 ^ k) p = Some (if unat a + unat sz \<le> 0x800000 then (a, a + sz) else (0, p))"
proof -
  have p: "unat p \<le> 0x800000" "unat sz < 0x80000000"
    using assms(1,2) by (simp_all add: heap_inv_def word_le_nat_alt word_less_nat_alt)
  have k: "(2 :: nat) ^ k \<le> 2 ^ 22" using assms(3) by (intro power_increasing) simp_all
  have uk: "unat (2 ^ k :: u32) = 2 ^ k" using assms(3) by (intro unat_exp) simp
  then have nz: "(2 :: u32) ^ k \<noteq> 0" unfolding unat_eq_zero [symmetric] by simp
  define a where "a = (if p mod 2 ^ k \<noteq> 0 then (p + 2 ^ k - 1) AND NOT (2 ^ k - 1) else p)"
  have pk: "p mod 2 ^ k = 0 \<longleftrightarrow> unat p mod 2 ^ k = 0" 
    unfolding unat_eq_zero [symmetric] unat_mod uk ..
  have "unat (p + 2 ^ k) = unat p + 2 ^ k" using p k uk by (simp add: unat_word_ariths)
  moreover from this have "1 \<le> p + 2 ^ k" by (simp add: word_le_nat_alt Suc_le_eq)
  ultimately have "unat (p + 2 ^ k - 1) = unat p + 2 ^ k - 1" by (simp add: unat_sub)
  then have up: "unat ((p + 2 ^ k - 1) AND NOT (2 ^ k - 1)) = (unat p + 2 ^ k - 1) - (unat p + 2 ^ k - 1) mod 2 ^ k"
    using assms(3) by (subst mask_complement_div) simp_all
  let ?m = "unat p + 2 ^ k - 1"
  have m: "?m - ?m mod 2 ^ k = 2 ^ k * (?m div 2 ^ k)" by (rule minus_mod_eq_mult_div)
  have a: "unat a mod 2 ^ k = 0 \<and> unat p \<le> unat a \<and> unat a < unat p + 2 ^ k"
  proof (cases "unat p mod 2 ^ k = 0")
    case False
    have l: "?m mod 2 ^ k < 2 ^ k" by simp
    have "0 < (2 :: nat) ^ k" by simp
    then have "?m - ?m mod 2 ^ k < unat p + 2 ^ k" "unat p \<le> ?m - ?m mod 2 ^ k" using l by linarith+
    moreover have "unat a = 2 ^ k * (?m div 2 ^ k)" using False pk up m by (simp add: a_def)
    ultimately show ?thesis unfolding m by simp
  qed (simp add: a_def pk)
  have s: "unat (a + sz) = unat a + unat sz" using a p k by (simp add: unat_word_ariths)
  have "alloc_aligned sz (2 ^ k) p = (if a + sz > 0x800000 then Some (0, p) else Some (a, a + sz))"
    by (simp only: alloc_aligned_def Let_def a_def [symmetric] nz if_False)
  moreover have "a + sz > 0x800000 \<longleftrightarrow> \<not> unat a + unat sz \<le> 0x800000"
    using s by (simp add: word_less_nat_alt not_le)
  ultimately show ?thesis using that [of a] a s by simp
qed

section \<open>Sequences of allocations\<close>

datatype heap_op = Malloc u32 | Aligned u32 nat

fun heap_call :: "heap_op \<Rightarrow> u32 \<Rightarrow> (u32 \<times> u32) option" where
  "heap_call (Malloc sz) p = Some (kmalloc sz p)"
| "heap_call (Aligned sz k) p = alloc_aligned sz (2 ^ k) p"

fun op_size :: "heap_op \<Rightarrow> nat" where
  "op_size (Malloc sz) = unat sz"
| "op_size (Aligned sz k) = unat sz"

fun heap_ok :: "heap_op \<Rightarrow> bool" where
  "heap_ok (Malloc sz) = (sz < 0x80000000)"
| "heap_ok (Aligned sz k) = (sz < 0x80000000 \<and> k \<le> 22)"

text \<open>The blocks that a sequence of calls obtains, as address and size, without the failed calls.\<close>

fun regions :: "('o \<Rightarrow> 's \<Rightarrow> (u32 \<times> 's) option) \<Rightarrow> ('o \<Rightarrow> nat) \<Rightarrow> 'o list \<Rightarrow> 's \<Rightarrow> ((nat \<times> nat) list \<times> 's) option" where
  "regions call size_of [] s = Some ([], s)"
| "regions call size_of (q # qs) s =
     do { (a, s1) \<leftarrow> call q s; (rs, s2) \<leftarrow> regions call size_of qs s1;
          Some (if a = 0 then rs else (unat a, size_of q) # rs, s2) }"

fun stacked :: "nat \<Rightarrow> (nat \<times> nat) list \<Rightarrow> nat \<Rightarrow> bool" where
  "stacked lo [] hi = (lo \<le> hi)"
| "stacked lo ((a, n) # rs) hi = (lo \<le> a \<and> stacked (a + n) rs hi)"

locale bump_source =
  fixes call :: "'o \<Rightarrow> 's \<Rightarrow> (u32 \<times> 's) option" and size_of :: "'o \<Rightarrow> nat" and ok :: "'o \<Rightarrow> bool"
    and inv :: "'s \<Rightarrow> bool" and top :: "'s \<Rightarrow> nat"
  assumes call: "inv s \<Longrightarrow> ok q \<Longrightarrow> \<exists>a s'. call q s = Some (a, s') \<and> inv s' \<and>
      (if a = 0 then top s' = top s else top s \<le> unat a \<and> unat a + size_of q = top s')"
begin

lemma stacked_weaken: "stacked lo rs hi \<Longrightarrow> lo' \<le> lo \<Longrightarrow> stacked lo' rs hi"
  by (cases rs) auto

lemma regions_stacked:
  "inv s \<Longrightarrow> list_all ok qs \<Longrightarrow>
   \<exists>rs s'. regions call size_of qs s = Some (rs, s') \<and> inv s' \<and> stacked (top s) rs (top s')"
proof (induction qs arbitrary: s)
  case (Cons q qs)
  then obtain a s1 where a: "call q s = Some (a, s1)" "inv s1"
    "if a = 0 then top s1 = top s else top s \<le> unat a \<and> unat a + size_of q = top s1"
    using call [of s q] by auto
  obtain rs s' where "regions call size_of qs s1 = Some (rs, s')" "inv s'" "stacked (top s1) rs (top s')"
    using Cons.IH [OF a(2)] Cons.prems by auto
  then show ?case using a by (cases "a = 0") auto
qed simp

end

lemma stacked_disjoint:
  "stacked lo rs hi \<Longrightarrow> i < j \<Longrightarrow> j < length rs \<Longrightarrow> fst (rs ! i) + snd (rs ! i) \<le> fst (rs ! j)"
proof (induction rs arbitrary: lo i j)
  case (Cons r rs)
  obtain a n where r: "r = (a, n)" by (cases r)
  have low: "stacked l xs hi \<Longrightarrow> k < length xs \<Longrightarrow> l \<le> fst (xs ! k)" for l xs k
  proof (induction xs arbitrary: l k)
    case (Cons x xs)
    then show ?case by (cases x; cases k) fastforce+
  qed simp
  show ?case
  proof (cases i)
    case 0
    then show ?thesis using Cons.prems low [of "a + n" rs "j - 1"] r by (cases j) auto
  next
    case (Suc i')
    then show ?thesis using Cons.prems Cons.IH [of "a + n" i' "j - 1"] r by (cases j) auto
  qed
qed simp

lemma stacked_bounds:
  "stacked lo rs hi \<Longrightarrow> j < length rs \<Longrightarrow> lo \<le> fst (rs ! j) \<and> fst (rs ! j) + snd (rs ! j) \<le> hi"
proof (induction rs arbitrary: lo j)
  case (Cons r rs)
  obtain a n where r: "r = (a, n)" by (cases r)
  have "stacked l xs hi \<Longrightarrow> l \<le> hi" for l xs
  proof (induction xs arbitrary: l)
    case (Cons x xs)
    then show ?case by (cases x) fastforce
  qed simp
  then show ?case using Cons.prems Cons.IH [of "a + n" "j - 1"] r by (cases j) fastforce+
qed simp

lemma heap_call_step:
  assumes "heap_inv p" "heap_ok q"
  shows "\<exists>a p'. heap_call q p = Some (a, p') \<and> heap_inv p' \<and>
    (if a = 0 then unat p' = unat p else unat p \<le> unat a \<and> unat a + op_size q = unat p')"
proof (cases q)
  case (Malloc sz)
  have "p \<noteq> 0" using assms(1) by (auto simp: heap_inv_def)
  then show ?thesis
    using kmalloc_eq [OF assms(1), of sz] unat_heap_add [OF assms(1), of sz] assms Malloc
    by (auto simp: heap_inv_def word_le_nat_alt)
next
  case (Aligned sz k)
  obtain a where a: "unat p \<le> unat a" "unat (a + sz) = unat a + unat sz"
    "alloc_aligned sz (2 ^ k) p = Some (if unat a + unat sz \<le> 0x800000 then (a, a + sz) else (0, p))"
    using alloc_aligned_eq [OF assms(1), of sz k] assms(2) Aligned by auto
  have "a \<noteq> 0" using a(1) assms(1) by (auto simp: heap_inv_def word_le_nat_alt)
  then show ?thesis using a assms(1) Aligned by (auto simp: heap_inv_def word_le_nat_alt)
qed

interpretation heap: bump_source heap_call op_size heap_ok heap_inv unat
  by unfold_locales (rule heap_call_step)

section \<open>Properties\<close>

text \<open>
  (C20) Blocks of the kernel heap do not overlap: for every sequence of \<^verbatim>\<open>kmalloc\<close> and
  \<^verbatim>\<open>alloc_aligned\<close> calls with sizes below 2 GiB and power-of-two alignments up to 4 MiB, the blocks
  returned lie in the heap and each one starts behind the end of all earlier ones.
\<close>

theorem heap_blocks_disjoint:
  assumes "heap_inv p" "list_all heap_ok qs"
  shows "\<exists>rs p'. regions heap_call op_size qs p = Some (rs, p') \<and>
     (\<forall>i < length rs. 0x400000 \<le> fst (rs ! i) \<and> fst (rs ! i) + snd (rs ! i) \<le> 0x800000) \<and>
     (\<forall>j < length rs. \<forall>i < j. fst (rs ! i) + snd (rs ! i) \<le> fst (rs ! j))"
proof -
  obtain rs p' where r: "regions heap_call op_size qs p = Some (rs, p')" "heap_inv p'"
    "stacked (unat p) rs (unat p')" using heap.regions_stacked [OF assms] by blast
  have "0x400000 \<le> unat p" "unat p' \<le> 0x800000"
    using assms(1) r(2) by (simp_all add: heap_inv_def word_le_nat_alt)
  then show ?thesis
    using r stacked_bounds [OF r(3)] stacked_disjoint [OF r(3)] by (meson order_trans)
qed

theorem heap_blocks_disjoint_witness:
  "\<exists>rs p'. regions heap_call op_size [Malloc 10, Aligned 100 4, Malloc 4096] 0x400000 = Some (rs, p') \<and>
     (\<forall>j < length rs. \<forall>i < j. fst (rs ! i) + snd (rs ! i) \<le> fst (rs ! j))"
  using heap_blocks_disjoint [of "0x400000" "[Malloc 10, Aligned 100 4, Malloc 4096]"]
  by (auto simp: heap_inv_def)

text \<open>
  The bound check of \<^verbatim>\<open>kmalloc\<close> wraps: a request so large that the sum overflows succeeds,
  moves the heap pointer down, and a following request returns memory that is already in use.
\<close>

theorem kmalloc_wraps:
  assumes "heap_inv p" "2 ^ 32 - unat p \<le> unat sz"
  shows "fst (kmalloc sz p) = p \<and> unat (snd (kmalloc sz p)) = unat p + unat sz - 2 ^ 32 \<and>
     unat (snd (kmalloc sz p)) < unat p"
proof -
  have p: "unat p \<le> 0x800000" "0x400000 \<le> unat p" using assms(1) by (simp_all add: heap_inv_def word_le_nat_alt)
  have s: "unat sz < 2 ^ 32" using unsigned_less [of sz, where 'a = nat] by simp
  have "unat (p + sz) = (unat p + unat sz) mod 2 ^ 32" by (simp add: unat_word_ariths)
  also have "\<dots> = unat p + unat sz - 2 ^ 32" using assms(2) p s by (simp add: mod_if)
  finally have "unat (p + sz) = unat p + unat sz - 2 ^ 32" .
  moreover from this have "unat (p + sz) < unat p" using p s by linarith
  ultimately show ?thesis using p by (simp add: kmalloc_def word_less_nat_alt)
qed

theorem kmalloc_wraps_witness:
  "fst (kmalloc 0xFFFFF000 0x401000) = 0x401000 \<and> unat (snd (kmalloc 0xFFFFF000 0x401000)) < unat (0x401000 :: u32)"
  using kmalloc_wraps [of "0x401000" "0xFFFFF000"] by (simp add: heap_inv_def)

end
