(* ===== verification/Network.thy ===== *)
theory Network
  imports Paging Heap_Alloc
begin

text \<open>
  The PCI bus scan (\<^verbatim>\<open>src/network/pci.c\<close>) and the initialisation of the E1000 network card
  (\<^verbatim>\<open>src/network/e1000.c\<close>).  The machine state joins the memory management unit, the frame
  allocator, the heap pointer, the console and the static variables of the driver.  The card's
  registers and its descriptor rings are words of memory that go through the page tables; what the
  configuration space answers is decided by the \<open>device\<close> parameter.  A result is \<^term>\<open>None\<close> for a page
  fault and \<open>Inl\<close> for the endless loop in which \<^verbatim>\<open>map_page\<close> ends when no frame is left.

  The theorem follows the initialisation of a card through all its page mappings: it maps the
  register window, fills both rings with fresh frames, and hands the receive ring to the card in
  the very frame that is also the first receive buffer.
\<close>

section \<open>Definitions\<close>

record machine =
  mm :: mmu
  pm :: pmm
  heap_ptr :: u32
  con :: console
  e1000_regs :: u32
  rx_ring :: u32
  rx_buffers :: "u32 list"
  tx_ring :: u32
  tx_buffers :: "u32 list"

subsection \<open>Results\<close>

definition and_then :: "('e + 'a) option \<Rightarrow> ('a \<Rightarrow> ('e + 'b) option) \<Rightarrow> ('e + 'b) option" where
  "and_then r f = do { x \<leftarrow> r; case x of Inl e \<Rightarrow> Some (Inl e) | Inr a \<Rightarrow> f a }"

fun for_each :: "('x \<Rightarrow> 's \<Rightarrow> ('e + 's) option) \<Rightarrow> 'x list \<Rightarrow> 's \<Rightarrow> ('e + 's) option" where
  "for_each f [] s = Some (Inr s)"
| "for_each f (x # xs) s = and_then (f x s) (for_each f xs)"

definition con_step :: "(console \<Rightarrow> console option) \<Rightarrow> machine \<Rightarrow> machine option" where
  "con_step f s = do { k \<leftarrow> f (con s); Some (s\<lparr>con := k\<rparr>) }"

definition mem_step :: "(mmu \<Rightarrow> mmu option) \<Rightarrow> machine \<Rightarrow> machine option" where
  "mem_step f s = do { m \<leftarrow> f (mm s); Some (s\<lparr>mm := m\<rparr>) }"

definition mach_map :: "u32 \<Rightarrow> u32 \<Rightarrow> u32 \<Rightarrow> machine \<Rightarrow> (console + machine) option" where
  "mach_map pa va flags s =
     and_then (map_page pa va flags (mm s) (pm s) (con s)) (\<lambda>(m, p). Some (Inr (s\<lparr>mm := m, pm := p\<rparr>)))"

subsection \<open>Configuration space\<close>

definition config_address :: "byte \<Rightarrow> byte \<Rightarrow> byte \<Rightarrow> byte \<Rightarrow> u32" where
  "config_address bus device func offset =
     push_bit 31 1 OR push_bit 16 (ucast bus) OR push_bit 11 (ucast device) OR push_bit 8 (ucast func) OR (ucast offset AND 0xFC)"

definition pci_config_read :: "device \<Rightarrow> byte \<Rightarrow> byte \<Rightarrow> byte \<Rightarrow> byte \<Rightarrow> console \<Rightarrow> u32 \<times> console" where
  "pci_config_read dev bus device func offset k =
     (let (v, h) = inl dev 0xCFC (outl 0xCF8 (config_address bus device func offset) (ports k)) in (v, k\<lparr>ports := h\<rparr>))"

subsection \<open>The card\<close>

definition e1000_write :: "u16 \<Rightarrow> u32 \<Rightarrow> machine \<Rightarrow> machine option" where
  "e1000_write offset v s = mem_step (vmod (e1000_regs s + 4 * (ucast offset div 4)) (\<lambda>_. v)) s"

definition map_window :: "u32 \<Rightarrow> nat \<Rightarrow> machine \<Rightarrow> (console + machine) option" where
  "map_window mmio_base i s =
     (let a = mmio_base + 0x1000 * of_nat i in mach_map a a (1 OR 2) s)"

text \<open>
  One pass of a ring loop: a frame, a buffer, its mapping, then the descriptor's 64-bit address
  (the compiler extends a pointer by its sign) and the byte that is cleared, which the argument
  \<open>keep\<close> masks out of the word at \<open>off\<close>.
\<close>

definition fill_slot :: "u32 \<Rightarrow> nat \<Rightarrow> u32 \<Rightarrow> u32 \<Rightarrow> machine \<Rightarrow> (console + u32 \<times> machine) option" where
  "fill_slot ring i off keep s =
     do { (phys_addr, p) \<leftarrow> pmm_alloc_block (pm s);
          let (buffer, h) = kmalloc 4096 (heap_ptr s);
          let desc = ring + 16 * of_nat i;
          and_then (mach_map phys_addr buffer (1 OR 2) (s\<lparr>pm := p, heap_ptr := h\<rparr>)) (\<lambda>s1.
            do { s2 \<leftarrow> mem_step (vmod desc (\<lambda>_. phys_addr)) s1;
                 s3 \<leftarrow> mem_step (vmod (desc + 4) (\<lambda>_. if bit phys_addr 31 then -1 else 0)) s2;
                 s4 \<leftarrow> mem_step (vmod (desc + off) (\<lambda>w. w AND keep)) s3;
                 Some (Inr (buffer, s4)) }) }"

definition rx_slot :: "nat \<Rightarrow> machine \<Rightarrow> (console + machine) option" where
  "rx_slot i s = and_then (fill_slot (rx_ring s) i 12 0xFFFFFF00 s) (\<lambda>(b, s').
     do { bs \<leftarrow> wr (rx_buffers s') i b; Some (Inr (s'\<lparr>rx_buffers := bs\<rparr>)) })"

definition tx_slot :: "nat \<Rightarrow> machine \<Rightarrow> (console + machine) option" where
  "tx_slot i s = and_then (fill_slot (tx_ring s) i 8 0x00FFFFFF s) (\<lambda>(b, s').
     do { bs \<leftarrow> wr (tx_buffers s') i b; Some (Inr (s'\<lparr>tx_buffers := bs\<rparr>)) })"

definition rx_enable :: "machine \<Rightarrow> machine option" where
  "rx_enable s =
     do { ring \<leftarrow> get_phys_addr (rx_ring s) (mm s);
          s1 \<leftarrow> e1000_write 0x2800 ring s;
          ring' \<leftarrow> get_phys_addr (rx_ring s1) (mm s1);
          s2 \<leftarrow> e1000_write 0x2804 (ucast (drop_bit 32 (ucast ring' :: u64))) s1;
          s3 \<leftarrow> e1000_write 0x2808 (32 * 16) s2;
          s4 \<leftarrow> e1000_write 0x2810 0 s3;
          s5 \<leftarrow> e1000_write 0x2818 (32 - 1) s4;
          e1000_write 0x0100 (push_bit 1 1 OR push_bit 15 1 OR push_bit 26 1) s5 }"

definition tx_enable :: "machine \<Rightarrow> machine option" where
  "tx_enable s =
     do { ring \<leftarrow> get_phys_addr (tx_ring s) (mm s);
          s1 \<leftarrow> e1000_write 0x3800 ring s;
          ring' \<leftarrow> get_phys_addr (tx_ring s1) (mm s1);
          s2 \<leftarrow> e1000_write 0x3804 (ucast (drop_bit 32 (ucast ring' :: u64))) s1;
          s3 \<leftarrow> e1000_write 0x3808 (8 * 16) s2;
          s4 \<leftarrow> e1000_write 0x3810 0 s3;
          s5 \<leftarrow> e1000_write 0x3818 0 s4;
          e1000_write 0x0400 (push_bit 1 1 OR push_bit 3 1) s5 }"

text \<open>The stages of \<^verbatim>\<open>e1000_init\<close>: the messages, the receive ring, the transmit ring.\<close>

definition e1000_report :: "u32 \<Rightarrow> machine \<Rightarrow> machine option" where
  "e1000_report mmio_base s =
     do { s3 \<leftarrow> con_step (print (lit ''E1000 MMIO Base: '') 0x07) s;
          s4 \<leftarrow> con_step (print_hex mmio_base 0x07) s3;
          s5 \<leftarrow> con_step (print (line '''') 0x07) s4;
          status \<leftarrow> vread (e1000_regs s5 + 4 * 2) (mm s5);
          s6 \<leftarrow> con_step (print (lit ''E1000 Status: '') 0x07) s5;
          s7 \<leftarrow> con_step (print_hex status 0x07) s6;
          con_step (print (line '''') 0x07) s7 }"

definition rx_setup :: "machine \<Rightarrow> (console + machine) option" where
  "rx_setup s =
     do { (rx, h) \<leftarrow> alloc_aligned (16 * 32) 16 (heap_ptr s);
          and_then (for_each rx_slot [0..<32] (s\<lparr>rx_ring := rx, heap_ptr := h\<rparr>)) (\<lambda>s'. map_option Inr (rx_enable s')) }"

definition tx_setup :: "machine \<Rightarrow> (console + machine) option" where
  "tx_setup s =
     do { (tx, h) \<leftarrow> alloc_aligned (16 * 8) 16 (heap_ptr s);
          and_then (for_each tx_slot [0..<8] (s\<lparr>tx_ring := tx, heap_ptr := h\<rparr>)) (\<lambda>s1.
            do { s2 \<leftarrow> tx_enable s1; s3 \<leftarrow> con_step (print (line ''TX ring enabled.'') 0x07) s2; Some (Inr s3) }) }"

definition e1000_init :: "device \<Rightarrow> byte \<Rightarrow> byte \<Rightarrow> byte \<Rightarrow> machine \<Rightarrow> (console + bool \<times> machine) option" where
  "e1000_init dev bus d func s =
     (let (bar0_raw, k) = pci_config_read dev bus d func 0x10 (con s); s0 = s\<lparr>con := k\<rparr> in
      if bar0_raw AND 1 \<noteq> 0 then Some (Inr (False, s0))
      else let mmio_base = bar0_raw AND 0xFFFFFFF0 in
        and_then (for_each (map_window mmio_base) [0..<16] s0) (\<lambda>s1.
          do { s2 \<leftarrow> e1000_report mmio_base (s1\<lparr>e1000_regs := mmio_base\<rparr>);
               and_then (rx_setup s2) (\<lambda>s3. and_then (tx_setup s3) (\<lambda>s4. Some (Inr (True, s4)))) }))"

subsection \<open>The bus\<close>

definition pci_functions :: "(byte \<times> byte \<times> byte) list" where
  "pci_functions = concat (map (\<lambda>b. concat (map (\<lambda>d. map (\<lambda>f. (of_nat b, of_nat d, of_nat f)) [0..<8]) [0..<32])) [0..<256])"

definition pci_scan_one :: "device \<Rightarrow> byte \<times> byte \<times> byte \<Rightarrow> machine \<Rightarrow> (console + machine) option" where
  "pci_scan_one dev = (\<lambda>(bus, d, func) s.
     let (vendor_device, k) = pci_config_read dev bus d func 0x00 (con s); vendor_id = (ucast (vendor_device AND 0xFFFF) :: u16) in
     if vendor_id = 0xFFFF then Some (Inr (s\<lparr>con := k\<rparr>))
     else let (class_code, k1) = pci_config_read dev bus d func 0x08 k;
              class_id = (ucast (drop_bit 24 class_code AND 0xFF) :: byte);
              subclass = (ucast (drop_bit 16 class_code AND 0xFF) :: byte) in
       if class_id = 0x02 \<and> subclass = 0x00
       then do { k2 \<leftarrow> print (lit ''PCI Ethernet @ Bus '') 0x07 k1;
                 k3 \<leftarrow> print_int (ucast bus) 0x07 k2;
                 k4 \<leftarrow> print (lit '', Device '') 0x07 k3;
                 k5 \<leftarrow> print_int (ucast d) 0x07 k4;
                 k6 \<leftarrow> print (lit '', Func '') 0x07 k5;
                 k7 \<leftarrow> print_int (ucast func) 0x07 k6;
                 k8 \<leftarrow> print (line '''') 0x07 k7;
                 and_then (e1000_init dev bus d func (s\<lparr>con := k8\<rparr>)) (\<lambda>(_, s'). Some (Inr s')) }
       else Some (Inr (s\<lparr>con := k1\<rparr>)))"

definition pci_scan_all :: "device \<Rightarrow> machine \<Rightarrow> (console + machine) option" where
  "pci_scan_all dev s = for_each (pci_scan_one dev) pci_functions s"

definition pci_list_one :: "device \<Rightarrow> byte \<times> byte \<times> byte \<Rightarrow> console \<Rightarrow> console option" where
  "pci_list_one dev = (\<lambda>(bus, d, func) k.
     let (vendor_device, k1) = pci_config_read dev bus d func 0x00 k; vendor_id = (ucast (vendor_device AND 0xFFFF) :: u16) in
     if vendor_id = 0xFFFF then Some k1
     else let (class_code, k2) = pci_config_read dev bus d func 0x08 k1;
              class_id = (ucast (drop_bit 24 class_code AND 0xFF) :: byte);
              subclass = (ucast (drop_bit 16 class_code AND 0xFF) :: byte) in
       kprintf (line ''  Bus %d, Dev %d, Func %d: Vendor %x, Class %x, Subclass %x'')
         [KInt (ucast bus), KInt (ucast d), KInt (ucast func), KInt (ucast vendor_id), KInt (ucast class_id), KInt (ucast subclass)] k2)"

definition pci_list_devices :: "device \<Rightarrow> console \<Rightarrow> console option" where
  "pci_list_devices dev k =
     do { k1 \<leftarrow> print (line ''PCI Devices:'') 0x07 k; foldM (pci_list_one dev) pci_functions k1 }"

section \<open>Frames that are not page tables\<close>

definition frames_left :: "pmm \<Rightarrow> nat" where
  "frames_left p = card {b. b < 32 * (unat (total_blocks p) div 32) \<and> \<not> marked p b}"

lemma alloc_left:
  assumes "pmm_inv p" "0 < frames_left p"
  obtains a p' where "pmm_alloc_block p = Some (a, p')" "a \<noteq> 0" "pmm_inv p'" "owned_frames p' = insert a (owned_frames p)"
    "a \<notin> owned_frames p" "push_bit 12 (drop_bit 12 a) = a" "frames_left p' = frames_left p - 1"
    "total_blocks p' = total_blocks p" "unat (drop_bit 12 a) < unat (total_blocks p)"
proof -
  let ?n = "32 * (unat (total_blocks p) div 32)"
  have "{b. b < ?n \<and> \<not> marked p b} \<noteq> {}" using assms(2) by (auto simp: frames_left_def card_gt_0_iff)
  then obtain b where b: "free_frame p = Some b" using free_frame_None [of p] by (cases "free_frame p") auto
  obtain p' where p': "pmm_alloc_block p = Some (of_nat b * 4096, p')" "pmm_inv p'" "0 < b" "b < 2 ^ 20"
    "total_blocks p' = total_blocks p" "\<forall>c < unat (total_blocks p). marked p' c \<longleftrightarrow> c = b \<or> marked p c"
    using alloc_eq [OF assms(1)] b by auto
  note u = unat_frame_addr [OF p'(4)]
  have nz: "(of_nat b * 4096 :: u32) \<noteq> 0" using u p'(3) by (metis mult_is_0 neq0_conv unsigned_0 zero_neq_numeral)
  have bn: "b < ?n" "\<not> marked p b" using b by (auto simp: free_frame_def first_idx_Some)
  have "{c. c < ?n \<and> \<not> marked p c} = insert b {c. c < ?n \<and> \<not> marked p' c}" using bn p'(6) by auto
  moreover have "b \<notin> {c. c < ?n \<and> \<not> marked p' c}" using p'(6) bn by auto
  ultimately have "frames_left p' = frames_left p - 1" by (simp add: frames_left_def p'(5))
  moreover have "unat (drop_bit 12 (of_nat b * 4096 :: u32)) < unat (total_blocks p)"
    using bn(1) by (simp add: unat_drop u)
  ultimately show ?thesis using that [OF p'(1) nz] owned_mono [OF assms(1) p'(1) nz] p'(2,5) by blast
qed

definition data_frame :: "mmu \<Rightarrow> pmm \<Rightarrow> u32 \<Rightarrow> bool" where
  "data_frame m p f \<longleftrightarrow> f \<noteq> 0x90 \<and> (\<forall>d < 1023. has_table m d \<longrightarrow> table_of m d \<noteq> f) \<and>
     (push_bit 12 f \<in> owned_frames p \<or> unat (total_blocks p) \<le> unat f)"

lemma data_frameD: "data_frame m p f \<Longrightarrow> f \<noteq> 0x90" "data_frame m p f \<Longrightarrow> d < 1023 \<Longrightarrow> has_table m d \<Longrightarrow> table_of m d \<noteq> f"
  unfolding data_frame_def by blast+

lemma data_store:
  assumes "paging_inv m p" "data_frame m p f"
  shows "paging_inv (store f i v m) p" "pdx va < 1023 \<Longrightarrow> translate (store f i v m) va = translate m va"
    "data_frame (store f i v m) p g = data_frame m p g"
proof -
  note i = assms(1) [unfolded paging_inv_def] and d = paging_invD [OF assms(1)] and f = data_frameD [OF assms(2)]
  let ?m = "store f i v m"
  have same: "table_of ?m e = table_of m e" "has_table ?m e = has_table m e" for e using f(1) by (simp_all add: table_store)
  have "f \<noteq> table_of m 0" using f(2) [of 0] d(3) by auto
  then have w: "walk_ok ?m" using d(1) f(1) by (intro walk_ok_store(2)) auto
  show "paging_inv ?m p" using i w unfolding paging_inv_def same by blast
  show "data_frame ?m p g = data_frame m p g" unfolding data_frame_def same ..
  show "translate ?m va = translate m va" if "pdx va < 1023"
    using f(2) [OF that] unfolding translate_walk [OF w] translate_walk [OF d(1)] same by (auto simp del: not_less)
qed

lemma vmod_data: "translate m va = Some f \<Longrightarrow> vmod va g m = Some (store f (wordx va) (g (phys m f (wordx va))) m)"
  by (simp add: vmod_def)

text \<open>Mapping a page never touches a frame that is not a page table.\<close>

lemma map_page_full:
  assumes "paging_inv m p" "0 < pdx va" "pdx va < 1023" "0 < frames_left p"
  obtains m' p' where "map_page a va (1 OR 2) m p k = Some (Inr (m', p'))" "paging_inv m' p'"
    "translate m' va = Some (drop_bit 12 a)"
    "\<And>vb. pdx vb < 1023 \<Longrightarrow> pdx vb \<noteq> pdx va \<or> ptx vb \<noteq> ptx va \<Longrightarrow> translate m' vb = translate m vb"
    "\<And>f. data_frame m p f \<Longrightarrow> data_frame m' p' f \<and> phys m' f = phys m f"
    "frames_left p \<le> frames_left p' + 1" "total_blocks p' = total_blocks p"
proof -
  note i = paging_invD [OF assms(1)]
  obtain b q where b: "pmm_alloc_block p = Some (b, q)" "b \<noteq> 0" "owned_frames q = insert b (owned_frames p)"
    "b \<notin> owned_frames p" "push_bit 12 (drop_bit 12 b) = b" "frames_left q = frames_left p - 1"
    "total_blocks q = total_blocks p" "unat (drop_bit 12 b) < unat (total_blocks p)"
    using alloc_left [OF i(2) assms(4)] by metis
  have ok: "pdx va \<noteq> 0 \<or> ptx va \<noteq> 0x90" "has_table m (pdx va) \<or> fst (the (pmm_alloc_block p)) \<noteq> 0"
    using assms(2) b(1,2) by simp_all
  have flag: "(1 OR 2 :: u32) AND 1 \<noteq> 0" by simp
  obtain m' p' where e: "map_page a va (1 OR 2) m p k = Some (Inr (m', p'))" "paging_inv m' p'"
    "translate m' va = Some (drop_bit 12 a)"
    "\<And>vb. pdx vb < 1023 \<Longrightarrow> pdx vb \<noteq> pdx va \<or> ptx vb \<noteq> ptx va \<Longrightarrow> translate m' vb = translate m vb"
    using map_page_effect [OF assms(1,3) ok, of a "1 OR 2" k] unfolding if_P [OF flag] by metis
  show ?thesis
  proof (cases "has_table m (pdx va)")
    case True
    let ?t = "table_of m (pdx va)"
    have "?t \<noteq> 0x90" "pdx va \<noteq> 0 \<Longrightarrow> ?t \<noteq> table_of m 0" using i(4,5) [OF assms(3) True] by blast+
    then have m': "m' = store ?t (ptx va) (entry a (1 OR 2) (phys m ?t (ptx va))) m" "p' = p"
      using map_existing [OF i(1) True _ ok(1), of a "1 OR 2" p k] e(1) by simp_all
    have same: "table_of m' d = table_of m d" "has_table m' d = has_table m d" for d
      unfolding m' using \<open>?t \<noteq> 0x90\<close> by (simp_all add: table_store)
    have "data_frame m' p' f \<and> phys m' f = phys m f" if "data_frame m p f" for f
    proof
      show "data_frame m' p' f" using that unfolding data_frame_def same m'(2) .
      show "phys m' f = phys m f" using data_frameD(2) [OF that assms(3) True] by (auto simp: m' fun_eq_iff)
    qed
    then show ?thesis using that [OF e] m'(2) by simp
  next
    case False
    note n = paging_inv_new [OF assms(1-3) False b(1,2)]
    let ?m = "clear_words (drop_bit 12 b) 1024 (store 0x90 (pdx va) (table_entry b (phys m 0x90 (pdx va))) m)"
    have m': "m' = store (drop_bit 12 b) (ptx va) (entry a (1 OR 2) 0) ?m" "p' = q"
      using map_missing [OF i(1) assms(2,3) False b(1,2) n(5,6), of a "1 OR 2" k] e(1) by simp_all
    have t: "table_of m' d = (if d = pdx va then drop_bit 12 b else table_of m d)" "has_table m' d = (d = pdx va \<or> has_table m d)" for d
      using n(5) by (simp_all add: m' clear_words_tables table_store table_entry_bits)
    have "data_frame m' p' f \<and> phys m' f = phys m f" if "data_frame m p f" for f
    proof -
      have fb: "f \<noteq> drop_bit 12 b" using that b(4,5,8) unfolding data_frame_def by auto
      have "data_frame m' p' f" using that fb unfolding data_frame_def t m'(2) b(3,7) by auto
      moreover have "phys m' f = phys m f" using fb data_frameD(1) [OF that] by (auto simp: m' fun_eq_iff)
      ultimately show ?thesis ..
    qed
    then show ?thesis using that [OF e] m'(2) b(6,7) by simp
  qed
qed

section \<open>Addresses\<close>

lemma heap_address:
  assumes "n < 0x400000"
  shows "pdx (of_nat (0x400000 + n)) = 1" "ptx (of_nat (0x400000 + n)) = n div 4096"
    "wordx (of_nat (0x400000 + n)) = n div 4 mod 1024"
proof -
  have u: "unat (of_nat (0x400000 + n) :: u32) = 0x400000 + n" using assms by (intro unat_of_nat_u32) simp
  have "(0x400000 + n) div 2 ^ 22 = 1" using assms by (intro div_nat_eqI) simp_all
  moreover have "(0x400000 + n) div 2 ^ 12 = 1024 + n div 4096" "(0x400000 + n) div 2 ^ 2 = 1024 * 1024 + n div 4"
    using div_mult_self3 [of 4096 1024 n] div_mult_self3 [of 4 "1024 * 1024" n] by simp_all
  moreover have "n div 4096 < 1024" using assms by (simp add: div_less_iff_less_mult)
  moreover have "(1024 * 1024 + n div 4) mod 1024 = n div 4 mod 1024" by (rule mod_mult_self4)
  ultimately show "pdx (of_nat (0x400000 + n)) = 1" "ptx (of_nat (0x400000 + n)) = n div 4096"
    "wordx (of_nat (0x400000 + n)) = n div 4 mod 1024" unfolding indices u by simp_all
qed

lemma translate_page:
  "pdx va = pdx vb \<Longrightarrow> ptx va = ptx vb \<Longrightarrow> translate m va = translate m vb" if "pg m"
  using that by (simp add: translate_def Let_def)

lemma slot_arith:
  "(d :: nat) < 16 \<Longrightarrow> (16 * q + d) div 4096 = q div 256"
  "(d :: nat) < 16 \<Longrightarrow> (16 * q + d) div 4 mod 1024 = 4 * (q mod 256) + d div 4"
proof -
  assume d: "d < 16"
  have "(16 * q + d) div (16 * 256) = (16 * q + d) div 16 div 256" by (rule div_mult2_eq)
  then show "(16 * q + d) div 4096 = q div 256" using d by simp
  have "(16 * q + d) div 4 = 4 * q + d div 4" using div_mult_self3 [of 4 "4 * q" d] by (simp add: add.commute)
  also have "\<dots> = 1024 * (q div 256) + (4 * (q mod 256) + d div 4)" using mult_div_mod_eq [of 256 q] by linarith
  finally have "(16 * q + d) div 4 mod 1024 = (4 * (q mod 256) + d div 4) mod 1024" by simp
  moreover have "q mod 256 < 256" "d div 4 < 4" using d by auto
  then have "4 * (q mod 256) + d div 4 < 1024" by linarith
  ultimately show "(16 * q + d) div 4 mod 1024 = 4 * (q mod 256) + d div 4" by simp
qed

lemma heap_page: "paging_inv m p \<Longrightarrow> x < 0x400000 \<Longrightarrow> y < 0x400000 \<Longrightarrow> x div 4096 = y div 4096 \<Longrightarrow>
    translate m (of_nat (0x400000 + x)) = translate m (of_nat (0x400000 + y))"
  by (rule translate_page) (use paging_invD(1) in \<open>simp_all only: walk_ok_def heap_address\<close>)

section \<open>One descriptor\<close>

text \<open>
  What filling a descriptor does to memory: the page of the buffer now leads to a frame that was in
  no use before, every other page and every other frame is as before, and the descriptor holds the
  frame's address.
\<close>

definition slot_effect :: "nat \<Rightarrow> nat \<Rightarrow> u32 \<Rightarrow> u32 \<Rightarrow> mmu \<Rightarrow> pmm \<Rightarrow> mmu \<Rightarrow> pmm \<Rightarrow> bool" where
  "slot_effect n w a fR m p m' p' \<longleftrightarrow> paging_inv m' p' \<and> total_blocks p' = total_blocks p \<and> frames_left p \<le> frames_left p' + 2 \<and>
     (\<forall>x < 0x400000. translate m' (of_nat (0x400000 + x)) =
        (if x div 4096 = n div 4096 then Some a else translate m (of_nat (0x400000 + x)))) \<and>
     (\<forall>va. pdx va \<noteq> 1 \<longrightarrow> pdx va < 1023 \<longrightarrow> translate m' va = translate m va) \<and>
     \<not> data_frame m p a \<and> data_frame m' p' a \<and> (\<forall>f. data_frame m p f \<longrightarrow> data_frame m' p' f) \<and>
     (\<forall>f. data_frame m p f \<longrightarrow> f \<noteq> fR \<longrightarrow> phys m' f = phys m f) \<and>
     phys m' fR w = push_bit 12 a \<and> (\<forall>v. data_frame m p fR \<longrightarrow> v < w \<longrightarrow> phys m' fR v = phys m fR v)"

lemma slot_effectD:
  assumes "slot_effect n w a fR m p m' p'"
  shows "paging_inv m' p'" "total_blocks p' = total_blocks p" "frames_left p \<le> frames_left p' + 2"
    "x < 0x400000 \<Longrightarrow> translate m' (of_nat (0x400000 + x)) =
        (if x div 4096 = n div 4096 then Some a else translate m (of_nat (0x400000 + x)))"
    "pdx va \<noteq> 1 \<Longrightarrow> pdx va < 1023 \<Longrightarrow> translate m' va = translate m va"
    "\<not> data_frame m p a" "data_frame m' p' a" "data_frame m p f \<Longrightarrow> data_frame m' p' f"
    "data_frame m p f \<Longrightarrow> f \<noteq> fR \<Longrightarrow> phys m' f = phys m f" "phys m' fR w = push_bit 12 a"
    "data_frame m p fR \<Longrightarrow> v < w \<Longrightarrow> phys m' fR v = phys m fR v"
  using assms unfolding slot_effect_def by blast+

lemma slot_stores:
  assumes "paging_inv m p" "data_frame m p f" "r + 16 \<le> 0x400000" "r mod 16 = 0" "off \<in> {8, 12}"
    and t: "translate m (of_nat (0x400000 + r)) = Some f"
  obtains m' where
    "\<And>s. mm s = m \<Longrightarrow> do { s2 \<leftarrow> mem_step (vmod (of_nat (0x400000 + r)) (\<lambda>_. x)) s;
       s3 \<leftarrow> mem_step (vmod (of_nat (0x400000 + r) + 4) (\<lambda>_. y)) s2;
       s4 \<leftarrow> mem_step (vmod (of_nat (0x400000 + r) + of_nat off) (\<lambda>w. w AND keep)) s3;
       Some (Inr (c, s4)) } = Some (Inr (c, s\<lparr>mm := m'\<rparr>))"
    "paging_inv m' p" "\<And>va. pdx va < 1023 \<Longrightarrow> translate m' va = translate m va" "\<And>g. data_frame m' p g = data_frame m p g"
    "\<And>g. g \<noteq> f \<Longrightarrow> phys m' g = phys m g" "phys m' f (r div 4 mod 1024) = x" "\<And>v. v < r div 4 mod 1024 \<Longrightarrow> phys m' f v = phys m f v"
proof -
  define w where "w = r div 4 mod 1024"
  have w: "(r + d) div 4 mod 1024 = w + d div 4" "(r + d) div 4096 = r div 4096" "r + d < 0x400000"
    if "d \<in> {0, 4, 8, 12}" for d
  proof -
    obtain q where q: "r = 16 * q" using assms(4) by auto
    have d: "d < 16" using that by auto
    show "(r + d) div 4 mod 1024 = w + d div 4" using slot_arith(2) [OF d, of q] slot_arith(2) [of 0 q] by (simp add: w_def q)
    show "(r + d) div 4096 = r div 4096" using slot_arith(1) [OF d, of q] slot_arith(1) [of 0 q] by (simp add: q)
    show "r + d < 0x400000" using d assms(3) by simp
  qed
  have a: "of_nat (0x400000 + r) + of_nat d = (of_nat (0x400000 + (r + d)) :: u32)" for d by (simp add: algebra_simps)
  have store: "vmod (of_nat (0x400000 + (r + d))) g m1 = Some (store f (w + d div 4) (g (phys m1 f (w + d div 4))) m1)"
    if "paging_inv m1 p" "translate m1 (of_nat (0x400000 + r)) = Some f" "d \<in> {0, 4, 8, 12}" for m1 g d
  proof -
    have "translate m1 (of_nat (0x400000 + (r + d))) = Some f"
      using heap_page [OF that(1) w(3) w(3) [of 0], of d] w(2) [OF that(3)] that(2,3) by simp
    then show ?thesis using vmod_data heap_address(3) [OF w(3) [OF that(3)]] w(1) [OF that(3)] by metis
  qed
  let ?m1 = "store f w x m" and ?o = "w + off div 4"
  let ?m2 = "store f (w + 1) y ?m1"
  let ?m3 = "store f ?o (phys ?m2 f ?o AND keep) ?m2"
  have r: "pdx (of_nat (0x400000 + r)) < 1023" using heap_address(1) [of r] assms(3) by simp
  note d1 = data_store [OF assms(1,2), where i = w and v = x]
  have f1: "data_frame ?m1 p f" using d1(3) assms(2) by simp
  note d2 = data_store [OF d1(1) f1, where i = "w + 1" and v = y]
  have f2: "data_frame ?m2 p f" using d2(3) f1 by simp
  note d3 = data_store [OF d2(1) f2, where i = ?o and v = "phys ?m2 f ?o AND keep"]
  have o: "off \<in> {0, 4, 8, 12}" "off div 4 \<ge> 2" using assms(5) by auto
  have t1: "translate ?m1 (of_nat (0x400000 + r)) = Some f" "translate ?m2 (of_nat (0x400000 + r)) = Some f"
    using d1(2) [OF r] d2(2) [OF r] t by (simp_all only:)
  have v: "vmod (of_nat (0x400000 + r)) (\<lambda>_. x) m = Some ?m1" using store [OF assms(1) t, of 0] by simp
  have v2: "vmod (of_nat (0x400000 + r) + of_nat 4) (\<lambda>_. y) ?m1 = Some ?m2"
    unfolding a using store [OF d1(1) t1(1), of 4 "\<lambda>_. y"] by simp
  have v3: "vmod (of_nat (0x400000 + r) + of_nat off) (\<lambda>w. w AND keep) ?m2 = Some ?m3"
    unfolding a by (rule store [OF d2(1) t1(2) o(1)])
  show ?thesis
  proof (rule that [of ?m3])
    show "do { s2 \<leftarrow> mem_step (vmod (of_nat (0x400000 + r)) (\<lambda>_. x)) s;
       s3 \<leftarrow> mem_step (vmod (of_nat (0x400000 + r) + 4) (\<lambda>_. y)) s2;
       s4 \<leftarrow> mem_step (vmod (of_nat (0x400000 + r) + of_nat off) (\<lambda>w. w AND keep)) s3;
       Some (Inr (c, s4)) } = Some (Inr (c, s\<lparr>mm := ?m3\<rparr>))" if "mm s = m" for s
      using v v2 v3 that by (simp only: mem_step_def of_nat_numeral Option.bind.simps machine.simps refl) simp
    show "paging_inv ?m3 p" by (rule d3(1))
    show "translate ?m3 va = translate m va" if "pdx va < 1023" for va using d1(2) d2(2) d3(2) that by simp
    show "data_frame ?m3 p g = data_frame m p g" for g using d1(3) d2(3) d3(3) by simp
    show "phys ?m3 g = phys m g" if "g \<noteq> f" for g using that by (simp add: fun_eq_iff)
    show "phys ?m3 f (r div 4 mod 1024) = x" using o(2) by (simp add: w_def [symmetric])
    show "phys ?m3 f v = phys m f v" if "v < r div 4 mod 1024" for v using that o(2) by (simp add: w_def [symmetric])
  qed
qed

lemma heap_top: "n \<le> 0x400000 \<Longrightarrow> unat (of_nat (0x400000 + n) :: u32) = 0x400000 + n"
  by (intro unat_of_nat_u32) simp

lemma kmalloc_heap:
  assumes "n + k \<le> 0x400000"
  shows "kmalloc (of_nat k) (of_nat (0x400000 + n)) = (of_nat (0x400000 + n), of_nat (0x400000 + (n + k)))"
proof -
  have e: "of_nat (0x400000 + n) + of_nat k = (of_nat (0x400000 + (n + k)) :: u32)" by (simp add: algebra_simps)
  have "\<not> (of_nat (0x400000 + (n + k)) :: u32) > 0x800000" using heap_top [OF assms] assms by (simp add: word_less_nat_alt del: of_nat_add)
  then show ?thesis unfolding kmalloc_def e by (simp only: if_False)
qed

lemma alloc_heap:
  assumes "n + k \<le> 0x400000" "n mod 16 = 0"
  shows "alloc_aligned (of_nat k) 16 (of_nat (0x400000 + n)) = Some (of_nat (0x400000 + n), of_nat (0x400000 + (n + k)))"
proof -
  have e: "of_nat (0x400000 + n) + of_nat k = (of_nat (0x400000 + (n + k)) :: u32)" by (simp add: algebra_simps)
  have "\<not> (of_nat (0x400000 + (n + k)) :: u32) > 0x800000" using heap_top [OF assms(1)] assms(1) by (simp add: word_less_nat_alt del: of_nat_add)
  moreover have "unat (of_nat (0x400000 + n) mod 16 :: u32) = 0"
    using heap_top [of n] assms by (simp add: unat_mod mod_add_eq [symmetric] del: of_nat_add)
  then have "of_nat (0x400000 + n) mod (16 :: u32) = 0" by (simp only: unat_eq_zero)
  ultimately show ?thesis unfolding alloc_aligned_def Let_def e by (simp add: e del: of_nat_add)
qed

lemma fresh_data_frame:
  assumes "paging_inv m p" "pmm_alloc_block p = Some (a, p')" "a \<noteq> 0" "owned_frames p' = insert a (owned_frames p)"
    "a \<notin> owned_frames p" "push_bit 12 (drop_bit 12 a) = a" "pmm_inv p'" "total_blocks p' = total_blocks p"
    "unat (drop_bit 12 a) < unat (total_blocks p)"
  shows "paging_inv m p'" "data_frame m p' (drop_bit 12 a)" "\<not> data_frame m p (drop_bit 12 a)"
    "data_frame m p f \<Longrightarrow> data_frame m p' f"
proof -
  note i = assms(1) [unfolded paging_inv_def]
  have mono: "x \<in> owned_frames p \<Longrightarrow> x \<in> owned_frames p'" for x using assms(4) by simp
  show "paging_inv m p'" using i assms(7) mono unfolding paging_inv_def by blast
  show "\<not> data_frame m p (drop_bit 12 a)" using assms(5,6,9) by (simp add: data_frame_def)
  show "data_frame m p f \<Longrightarrow> data_frame m p' f" using mono assms(8) unfolding data_frame_def by auto
  have "drop_bit 12 a \<noteq> 0x90"
  proof
    assume "drop_bit 12 a = 0x90"
    then have "a = page_directory" using assms(6) by simp
    then show False using i assms(5) by simp
  qed
  moreover have "table_of m d \<noteq> drop_bit 12 a" if "d < 1023" "has_table m d" for d using i that assms(5,6) by metis
  ultimately show "data_frame m p' (drop_bit 12 a)" using assms(4,6) unfolding data_frame_def by auto
qed

lemma fill_slot_eq:
  assumes inv: "paging_inv (mm s) (pm s)" "2 \<le> frames_left (pm s)"
    and h: "heap_ptr s = of_nat (0x400000 + n)" "n + 4096 \<le> 0x400000"
    and r: "r0 mod 16 = 0" "r = r0 + 16 * i" "r + 16 \<le> 0x400000" "off \<in> {8, 12}"
    and t: "r div 4096 \<noteq> n div 4096 \<Longrightarrow> translate (mm s) (of_nat (0x400000 + r)) = Some f \<and> data_frame (mm s) (pm s) f"
  obtains a fR m' p' where
    "fill_slot (of_nat (0x400000 + r0)) i (of_nat off) keep s =
       Some (Inr (of_nat (0x400000 + n), s\<lparr>heap_ptr := of_nat (0x400000 + (n + 4096)), pm := p', mm := m'\<rparr>))"
    "slot_effect n (r div 4 mod 1024) a fR (mm s) (pm s) m' p'" "fR = (if r div 4096 = n div 4096 then a else f)"
proof -
  obtain b p1 where b: "pmm_alloc_block (pm s) = Some (b, p1)" "b \<noteq> 0" "pmm_inv p1" "owned_frames p1 = insert b (owned_frames (pm s))"
    "b \<notin> owned_frames (pm s)" "push_bit 12 (drop_bit 12 b) = b" "frames_left p1 = frames_left (pm s) - 1"
    "total_blocks p1 = total_blocks (pm s)" "unat (drop_bit 12 b) < unat (total_blocks (pm s))"
    by (rule alloc_left [OF paging_invD(2) [OF inv(1)]]) (use inv(2) in simp)
  note fresh = fresh_data_frame [OF inv(1) b(1,2,4-6,3,8,9)]
  let ?v = "of_nat (0x400000 + n) :: u32" and ?R = "of_nat (0x400000 + r) :: u32"
  define a where "a = drop_bit 12 b"
  have n: "n < 0x400000" using h(2) by simp
  note va = heap_address [OF n]
  have pre: "0 < pdx ?v" "pdx ?v < 1023" "0 < frames_left p1" using va(1) b(7) inv(2) by simp_all
  obtain m1 p2 where m1: "map_page b ?v (1 OR 2) (mm s) p1 (con s) = Some (Inr (m1, p2))" "paging_inv m1 p2"
    "translate m1 ?v = Some (drop_bit 12 b)"
    "\<And>vb. pdx vb < 1023 \<Longrightarrow> pdx vb \<noteq> pdx ?v \<or> ptx vb \<noteq> ptx ?v \<Longrightarrow> translate m1 vb = translate (mm s) vb"
    "\<And>f. data_frame (mm s) p1 f \<Longrightarrow> data_frame m1 p2 f \<and> phys m1 f = phys (mm s) f"
    "frames_left p1 \<le> frames_left p2 + 1" "total_blocks p2 = total_blocks p1"
    using map_page_full [OF fresh(1) pre, of b "con s"] by metis
  note m1 = m1 [folded a_def]
  define fR where "fR = (if r div 4096 = n div 4096 then a else f)"
  have r': "r < 0x400000" "r mod 16 = 0" using r(1-3) by simp_all
  have data: "data_frame m1 p2 a" "data_frame (mm s) (pm s) g \<Longrightarrow> data_frame m1 p2 g \<and> phys m1 g = phys (mm s) g" for g
    using m1(5) fresh(2,4) by (simp_all add: a_def)
  have heap_tr: "translate m1 (of_nat (0x400000 + x)) = (if x div 4096 = n div 4096 then Some a else translate (mm s) (of_nat (0x400000 + x)))"
    if "x < 0x400000" for x
    using heap_page [OF m1(2) that n] m1(3) m1(4) [of "of_nat (0x400000 + x)"] heap_address [OF that] va by simp
  have R: "translate m1 ?R = Some fR" "data_frame m1 p2 fR"
    using heap_tr [OF r'(1)] t data by (auto simp: fR_def)
  obtain m' where m': "\<And>s. mm s = m1 \<Longrightarrow> do { s2 \<leftarrow> mem_step (vmod ?R (\<lambda>_. b)) s;
       s3 \<leftarrow> mem_step (vmod (?R + 4) (\<lambda>_. if bit b 31 then -1 else 0)) s2;
       s4 \<leftarrow> mem_step (vmod (?R + of_nat off) (\<lambda>w. w AND keep)) s3;
       Some (Inr (?v, s4) :: console + _) } = Some (Inr (?v, s\<lparr>mm := m'\<rparr>))"
    "paging_inv m' p2" "\<And>va. pdx va < 1023 \<Longrightarrow> translate m' va = translate m1 va" "\<And>g. data_frame m' p2 g = data_frame m1 p2 g"
    "\<And>g. g \<noteq> fR \<Longrightarrow> phys m' g = phys m1 g" "phys m' fR (r div 4 mod 1024) = b"
    "\<And>v. v < r div 4 mod 1024 \<Longrightarrow> phys m' fR v = phys m1 fR v"
    using slot_stores [OF m1(2) R(2) r(3) r'(2) r(4) R(1), of b "if bit b 31 then -1 else 0" keep ?v] by blast
  have desc: "of_nat (0x400000 + r0) + 16 * of_nat i = ?R" by (simp add: r(2))
  have "fill_slot (of_nat (0x400000 + r0)) i (of_nat off) keep s =
      Some (Inr (?v, s\<lparr>heap_ptr := of_nat (0x400000 + (n + 4096)), pm := p2, mm := m'\<rparr>))"
    unfolding fill_slot_def b(1) h(1) Let_def mach_map_def and_then_def desc
    using kmalloc_heap [OF h(2)] m1(1) m'(1) [of "s\<lparr>heap_ptr := of_nat (0x400000 + (n + 4096)), mm := m1, pm := p2\<rparr>"]
    by (simp del: of_nat_add split del: if_split)
  moreover have "slot_effect n (r div 4 mod 1024) a fR (mm s) (pm s) m' p2"
    unfolding slot_effect_def
  proof (intro conjI allI impI)
    show "translate m' (of_nat (0x400000 + x)) = (if x div 4096 = n div 4096 then Some a else translate (mm s) (of_nat (0x400000 + x)))"
      if "x < 0x400000" for x using heap_tr [OF that] m'(3) heap_address(1) [OF that] by simp
    show "translate m' va = translate (mm s) va" if "pdx va \<noteq> 1" "pdx va < 1023" for va
      using m'(3) [OF that(2)] m1(4) [OF that(2)] that(1) va(1) by simp
    show "phys m' g = phys (mm s) g" if "data_frame (mm s) (pm s) g" "g \<noteq> fR" for g using data(2) [OF that(1)] m'(5) [OF that(2)] by simp
    show "phys m' fR v = phys (mm s) fR v" if "data_frame (mm s) (pm s) fR" "v < r div 4 mod 1024" for v
      using data(2) [OF that(1)] m'(7) [OF that(2)] by simp
    show "phys m' fR (r div 4 mod 1024) = push_bit 12 a" using m'(6) b(6) by (simp add: a_def)
    show "\<not> data_frame (mm s) (pm s) a" using fresh(3) by (simp add: a_def)
  qed (use m'(2,4) data m1(6,7) b(7,8) inv(2) in auto)
  ultimately show ?thesis using that fR_def by blast
qed

section \<open>The register window\<close>

lemma high_data_frame:
  assumes "paging_inv m p" "unat (total_blocks p) \<le> unat f"
  shows "data_frame m p f"
proof -
  note i = assms(1) [unfolded paging_inv_def]
  have t: "unat (total_blocks p) \<le> 2 ^ 20" using paging_invD(2) [OF assms(1)] by (simp add: pmm_inv_def)
  have low: "unat g < unat (total_blocks p)" if "push_bit 12 g \<in> owned_frames p" "unat g < 2 ^ 20" for g :: u32
  proof -
    note own = that
    obtain b where b: "b < unat (total_blocks p)" "push_bit 12 g = of_nat b * 4096" using own(1) unfolding owned_frames_def by blast
    have "unat g * 4096 = unat (of_nat b * 4096 :: u32)"
      using that(2) unfolding b(2) [symmetric] by (simp add: push_bit_eq_mult unat_word_ariths)
    then show ?thesis using unat_frame_addr [of b] b(1) t by simp
  qed
  have "unat (drop_bit 12 (x :: u32)) < 2 ^ 20" for x
    using unsigned_less [of x, where 'a = nat] by (simp add: unat_drop div_less_iff_less_mult)
  then have "table_of m d \<noteq> f" if "d < 1023" "has_table m d" for d
    using low [of "table_of m d"] i that assms(2) by (fastforce simp: table_of_def)
  moreover have "unat (0x90 :: u32) < unat (total_blocks p)" using low [of "0x90"] i by simp
  then have "f \<noteq> 0x90" using assms(2) by auto
  ultimately show ?thesis using assms(2) by (simp add: data_frame_def)
qed

definition window_at :: "nat \<Rightarrow> bool" where
  "window_at N \<longleftrightarrow> N mod 0x10000 = 0 \<and> 0x800000 \<le> N \<and> N + 0x10000 \<le> 0xFFC00000"

lemma window_address:
  assumes "window_at N" "x < 0x10000"
  shows "pdx (of_nat (N + x)) = N div 2 ^ 22" "2 \<le> N div 2 ^ 22" "N div 2 ^ 22 < 1023"
    "ptx (of_nat (N + x)) = (N div 4096) mod 1024 + x div 4096" "wordx (of_nat (N + x)) = x div 4 mod 1024"
    "unat (of_nat ((N + x) div 4096) :: u32) = N div 4096 + x div 4096" "drop_bit 12 (of_nat (N + x) :: u32) = of_nat ((N + x) div 4096)"
proof -
  obtain q where q: "N = 65536 * q" using assms(1) by (auto simp: window_at_def)
  have q2: "128 \<le> q" "q < 65472" using assms(1) by (auto simp: window_at_def q)
  have u: "unat (of_nat (N + x) :: u32) = N + x" using q2 assms(2) by (intro unat_of_nat_u32) (simp add: q)
  have "(65536 * q + x) div (65536 * 64) = (65536 * q + x) div 65536 div 64" by (rule div_mult2_eq)
  then have d: "(N + x) div 2 ^ 22 = q div 64" "N div 2 ^ 22 = q div 64"
    using assms(2) div_mult2_eq [of "65536 * q" 65536 64] by (simp_all add: q)
  have e: "(N + x) div 4096 = 16 * q + x div 4096" "(N + x) div 4 = 1024 * (16 * q) + x div 4" "N div 4096 = 16 * q"
    using div_mult_self3 [of 4096 "16 * q" x] div_mult_self3 [of 4 "16384 * q" x] by (simp_all add: q algebra_simps)
  have "16 * q mod 1024 = 16 * (q mod 64)" using mult_mod_right [of 16 q 64] by simp
  moreover have "x div 4096 < 16" using assms(2) by (simp add: div_less_iff_less_mult)
  moreover have "q mod 64 < 64" by simp
  then have "16 * (q mod 64) + x div 4096 < 1024" using \<open>x div 4096 < 16\<close> by linarith
  ultimately have "(16 * q + x div 4096) mod 1024 = 16 * q mod 1024 + x div 4096" by (metis mod_add_left_eq mod_less)
  then show "pdx (of_nat (N + x)) = N div 2 ^ 22" "ptx (of_nat (N + x)) = (N div 4096) mod 1024 + x div 4096"
    "wordx (of_nat (N + x)) = x div 4 mod 1024"
    unfolding indices u d using e mod_mult_self4 [of 1024 "16 * q" "x div 4"] by simp_all
  show "2 \<le> N div 2 ^ 22" "N div 2 ^ 22 < 1023" using q2 unfolding d by linarith+
  show f: "unat (of_nat ((N + x) div 4096) :: u32) = N div 4096 + x div 4096"
    unfolding e using q2 \<open>x div 4096 < 16\<close> by (intro unat_of_nat_u32) simp
  show "drop_bit 12 (of_nat (N + x) :: u32) = of_nat ((N + x) div 4096)"
    unfolding word_unat_eq_iff unat_drop u f using e by simp
qed

text \<open>The state of the driver: the register window is mapped to itself and lies above the RAM.\<close>

definition nic :: "nat \<Rightarrow> machine \<Rightarrow> bool" where
  "nic N s \<longleftrightarrow> paging_inv (mm s) (pm s) \<and> con_inv (con s) \<and> unat (total_blocks (pm s)) * 4096 \<le> N \<and> e1000_regs s = of_nat N \<and>
     (\<forall>x < 0x10000. translate (mm s) (of_nat (N + x)) = Some (of_nat ((N + x) div 4096)))"

lemma for_each_inv:
  assumes "P 0 s" "\<And>i s. i < n \<Longrightarrow> P i s \<Longrightarrow> \<exists>s'. f i s = Some (Inr s') \<and> P (Suc i) s'"
  shows "\<exists>s'. for_each f [0..<n] s = Some (Inr s') \<and> P n s'"
proof -
  have snoc: "for_each f (xs @ [x]) s = and_then (for_each f xs s) (f x)" for xs x and s
  proof (induction xs arbitrary: s)
    case Nil
    then show ?case by (auto simp: and_then_def split: bind_splits sum.splits)
  qed (auto simp: and_then_def split: bind_splits sum.splits)
  have "m \<le> n \<Longrightarrow> \<exists>s'. for_each f [0..<m] s = Some (Inr s') \<and> P m s'" for m
  proof (induction m)
    case (Suc m)
    then obtain s1 where "for_each f [0..<m] s = Some (Inr s1)" "P m s1" by auto
    then show ?case using assms(2) [of m s1] Suc.prems by (auto simp: snoc and_then_def)
  qed (use assms(1) in simp)
  then show ?thesis by simp
qed

lemma nicD:
  assumes "nic N s"
  shows "paging_inv (mm s) (pm s)" "con_inv (con s)" "unat (total_blocks (pm s)) * 4096 \<le> N" "e1000_regs s = of_nat N"
    "x < 0x10000 \<Longrightarrow> translate (mm s) (of_nat (N + x)) = Some (of_nat ((N + x) div 4096))"
  using assms unfolding nic_def by blast+

lemma window_frame:
  assumes "window_at N" "x < 0x10000" "paging_inv m p" "unat (total_blocks p) * 4096 \<le> N"
  shows "data_frame m p (of_nat ((N + x) div 4096))"
proof (rule high_data_frame [OF assms(3)])
  have "unat (total_blocks p) \<le> N div 4096" using assms(4) by (simp add: less_eq_div_iff_mult_less_eq)
  then show "unat (total_blocks p) \<le> unat (of_nat ((N + x) div 4096) :: u32)" using window_address(6) [OF assms(1,2)] by simp
qed

lemma map_windows:
  assumes "window_at N" "paging_inv (mm s) (pm s)" "16 \<le> frames_left (pm s)"
  shows "\<exists>m p. for_each (map_window (of_nat N)) [0..<16] s = Some (Inr (s\<lparr>mm := m, pm := p\<rparr>)) \<and> paging_inv m p \<and>
    total_blocks p = total_blocks (pm s) \<and> frames_left (pm s) \<le> frames_left p + 16 \<and>
    (\<forall>x < 0x10000. translate m (of_nat (N + x)) = Some (of_nat ((N + x) div 4096)))"
proof -
  define P where "P = (\<lambda>i s'. \<exists>m p. s' = s\<lparr>mm := m, pm := p\<rparr> \<and> paging_inv m p \<and> total_blocks p = total_blocks (pm s) \<and>
    frames_left (pm s) \<le> frames_left p + i \<and> (\<forall>x < 4096 * i. translate m (of_nat (N + x)) = Some (of_nat ((N + x) div 4096))))"
  have "\<exists>s'. for_each (map_window (of_nat N)) [0..<16] s = Some (Inr s') \<and> P 16 s'"
  proof (rule for_each_inv)
    show "P 0 s" unfolding P_def using assms(2) by (intro exI [of _ "mm s"] exI [of _ "pm s"]) simp
  next
    fix i s' assume "i < 16" "P i s'"
    then obtain m p where s': "s' = s\<lparr>mm := m, pm := p\<rparr>" "paging_inv m p" "total_blocks p = total_blocks (pm s)"
      "frames_left (pm s) \<le> frames_left p + i" "\<And>x. x < 4096 * i \<Longrightarrow> translate m (of_nat (N + x)) = Some (of_nat ((N + x) div 4096))"
      unfolding P_def by blast
    let ?a = "of_nat (N + 4096 * i) :: u32"
    have i: "4096 * i < 0x10000" "0 < frames_left p" using \<open>i < 16\<close> s'(4) assms(3) by simp_all
    note w = window_address [OF assms(1) i(1)]
    have pre: "0 < pdx ?a" "pdx ?a < 1023" using w(1-3) by linarith+
    obtain m' p' where m': "map_page ?a ?a (1 OR 2) m p (con s) = Some (Inr (m', p'))" "paging_inv m' p'"
      "translate m' ?a = Some (drop_bit 12 ?a)"
      "\<And>vb. pdx vb < 1023 \<Longrightarrow> pdx vb \<noteq> pdx ?a \<or> ptx vb \<noteq> ptx ?a \<Longrightarrow> translate m' vb = translate m vb"
      "frames_left p \<le> frames_left p' + 1" "total_blocks p' = total_blocks p"
      using map_page_full [OF s'(2) pre i(2), of ?a "con s"] by metis
    have tr: "translate m' (of_nat (N + x)) = Some (of_nat ((N + x) div 4096))" if "x < 4096 * Suc i" for x
    proof -
      have x: "x < 0x10000" using that \<open>i < 16\<close> by simp
      note wx = window_address [OF assms(1) x]
      show ?thesis
      proof (cases "x < 4096 * i")
        case True
        then have "x div 4096 < i" by (simp add: div_less_iff_less_mult mult.commute)
        then have "ptx (of_nat (N + x)) \<noteq> ptx ?a" using wx(4) w(4) by simp
        then show ?thesis using m'(4) s'(5) [OF True] wx(1,3) by simp
      next
        case False
        then have "x div 4096 = i" using that by (intro div_nat_eqI) simp_all
        moreover from this have "translate m' (of_nat (N + x)) = translate m' ?a"
          using wx(1,4) w(1,4) m'(2) by (intro translate_page) (simp_all add: walk_ok_def paging_inv_def)
        moreover have "(N + 4096 * i) div 4096 = (N + x) div 4096"
          using wx(6) w(6) \<open>x div 4096 = i\<close> assms(1) by (auto simp: window_at_def)
        ultimately show ?thesis using m'(3) w(7) by simp
      qed
    qed
    have "map_window (of_nat N) i s' = Some (Inr (s\<lparr>mm := m', pm := p'\<rparr>))"
      using m'(1) by (simp add: map_window_def mach_map_def and_then_def s'(1) Let_def mult.commute)
    moreover have "P (Suc i) (s\<lparr>mm := m', pm := p'\<rparr>)"
      unfolding P_def using m'(2,5,6) s'(3,4) tr by (intro exI [of _ m'] exI [of _ p']) auto
    ultimately show "\<exists>s''. map_window (of_nat N) i s' = Some (Inr s'') \<and> P (Suc i) s''" by blast
  qed
  then show ?thesis unfolding P_def by auto
qed

lemma register_write:
  fixes v :: u32 and x :: nat
  assumes "window_at N" "nic N s" "x < 0x10000" "4 * (ucast offset div 4) = (of_nat x :: u32)"
  defines "s' \<equiv> s\<lparr>mm := store (of_nat ((N + x) div 4096)) (x div 4 mod 1024) v (mm s)\<rparr>"
  shows "e1000_write offset v s = Some s'" "nic N s'"
    "pdx va < 1023 \<Longrightarrow> translate (mm s') va = translate (mm s) va" "data_frame (mm s') (pm s') f = data_frame (mm s) (pm s) f"
    "f \<noteq> of_nat ((N + x) div 4096) \<Longrightarrow> phys (mm s') f = phys (mm s) f"
proof -
  note n = nicD [OF assms(2)]
  note d = data_store [OF n(1) window_frame [OF assms(1,3) n(1,3)], where i = "x div 4 mod 1024" and v = v]
  have "e1000_regs s + 4 * (ucast offset div 4) = of_nat (N + x)" using n(4) assms(4) by simp
  then show "e1000_write offset v s = Some s'"
    unfolding e1000_write_def mem_step_def using vmod_data [OF n(5) [OF assms(3)]] window_address(5) [OF assms(1,3)]
    by (simp add: s'_def del: of_nat_add)
  show tr: "translate (mm s') va = translate (mm s) va" if "pdx va < 1023" for va using d(2) [OF that] by (simp add: s'_def)
  have "pdx (of_nat (N + y)) < 1023" if "y < 0x10000" for y using window_address(1,3) [OF assms(1) that] by simp
  then show "nic N s'" using n d(1) tr unfolding nic_def by (simp add: s'_def)
  show "data_frame (mm s') (pm s') f = data_frame (mm s) (pm s) f" using d(3) by (simp add: s'_def)
  show "phys (mm s') f = phys (mm s) f" if "f \<noteq> of_nat ((N + x) div 4096)" using that by (auto simp: s'_def fun_eq_iff)
qed

section \<open>The rings\<close>

text \<open>The receive ring after \<open>i\<close> passes: the frames \<open>fs\<close>, their pages and their descriptors.\<close>

definition rx_state :: "nat \<Rightarrow> u32 list \<Rightarrow> machine \<Rightarrow> bool" where
  "rx_state i fs s \<longleftrightarrow> rx_ring s = of_nat 0x400000 \<and> length (rx_buffers s) = 32 \<and> length fs = i \<and> distinct fs \<and>
     (\<forall>j < i. unat (fs ! j) < unat (total_blocks (pm s)) \<and> data_frame (mm s) (pm s) (fs ! j) \<and> translate (mm s) (of_nat (0x400000 + 4096 * j)) = Some (fs ! j) \<and>
        phys (mm s) (fs ! 0) (4 * j) = push_bit 12 (fs ! j) \<and> rx_buffers s ! j = of_nat (0x400000 + (0x200 + 4096 * j)))"

lemma rx_stateD:
  assumes "rx_state i fs s"
  shows "rx_ring s = of_nat 0x400000" "length (rx_buffers s) = 32" "length fs = i" "distinct fs"
    "j < i \<Longrightarrow> data_frame (mm s) (pm s) (fs ! j)" "j < i \<Longrightarrow> translate (mm s) (of_nat (0x400000 + 4096 * j)) = Some (fs ! j)"
    "j < i \<Longrightarrow> phys (mm s) (fs ! 0) (4 * j) = push_bit 12 (fs ! j)" "j < i \<Longrightarrow> rx_buffers s ! j = of_nat (0x400000 + (0x200 + 4096 * j))"
    "j < i \<Longrightarrow> unat (fs ! j) < unat (total_blocks (pm s))"
  using assms unfolding rx_state_def by blast+

lemma nic_slot:
  assumes "window_at N" "nic N s" "slot_effect n w a fR (mm s) (pm s) m' p'"
  shows "nic N (s\<lparr>heap_ptr := h, pm := p', mm := m', rx_buffers := bs, tx_buffers := cs\<rparr>)"
proof -
  note n = nicD [OF assms(2)] and e = slot_effectD [OF assms(3)]
  have "translate m' (of_nat (N + x)) = Some (of_nat ((N + x) div 4096))" if "x < 0x10000" for x
    using e(5) [of "of_nat (N + x)"] n(5) [OF that] window_address(1-3) [OF assms(1) that] by simp
  then show ?thesis using n e(1,2) unfolding nic_def by simp
qed

lemma slot_low: "paging_inv m p \<Longrightarrow> slot_effect n w a fR m p m' p' \<Longrightarrow> unat a < unat (total_blocks p)"
  using high_data_frame [of m p a] slot_effectD(6) not_le by metis

lemma rx_step:
  assumes "window_at N" "nic N s" "rx_state i fs s" "i < 32" "2 \<le> frames_left (pm s)"
    "heap_ptr s = of_nat (0x400000 + (0x200 + 4096 * i))"
  obtains s' a where "rx_slot i s = Some (Inr s')" "nic N s'" "rx_state (Suc i) (fs @ [a]) s'"
    "frames_left (pm s) \<le> frames_left (pm s') + 2" "heap_ptr s' = of_nat (0x400000 + (0x200 + 4096 * Suc i))"
    "tx_buffers s' = tx_buffers s"
proof -
  note n = nicD [OF assms(2)] and r = rx_stateD [OF assms(3)]
  let ?n = "0x200 + 4096 * i"
  have nd: "?n div 4096 = i" by simp
  have rd: "16 * i div 4096 = 0" "16 * i div 4 mod 1024 = 4 * i" using assms(4) by simp_all
  have t: "translate (mm s) (of_nat (0x400000 + 16 * i)) = Some (fs ! 0) \<and> data_frame (mm s) (pm s) (fs ! 0)"
    if "16 * i div 4096 \<noteq> ?n div 4096"
  proof -
    have "0 < i" using that by (simp add: rd)
    then show ?thesis using r(5,6) [of 0] heap_page [OF n(1), of "16 * i" 0] rd(1) assms(4) by simp
  qed
  obtain a fR m' p' where f: "fill_slot (of_nat (0x400000 + 0)) i (of_nat 12) 0xFFFFFF00 s =
      Some (Inr (of_nat (0x400000 + ?n), s\<lparr>heap_ptr := of_nat (0x400000 + (?n + 4096)), pm := p', mm := m'\<rparr>))"
    "slot_effect ?n (16 * i div 4 mod 1024) a fR (mm s) (pm s) m' p'" "fR = (if 16 * i div 4096 = ?n div 4096 then a else fs ! 0)"
    by (rule fill_slot_eq [OF n(1) assms(5,6), of 0 "16 * i" i 12 "fs ! 0"]) (use assms(4) t in simp_all)
  let ?b = "of_nat (0x400000 + ?n) :: u32"
  let ?s = "s\<lparr>heap_ptr := of_nat (0x400000 + (?n + 4096)), pm := p', mm := m', rx_buffers := (rx_buffers s)[i := ?b], tx_buffers := tx_buffers s\<rparr>"
  note e = slot_effectD [OF f(2), unfolded rd(2)]
  have fR: "fR = (fs @ [a]) ! 0" using f(3) r(3) by (auto simp: rd nth_append)
  have "rx_slot i s = Some (Inr ?s)"
    unfolding rx_slot_def r(1) using f(1) r(2) assms(4) by (simp add: and_then_def)
  moreover have "nic N ?s" by (rule nic_slot [OF assms(1,2) f(2)])
  moreover have "rx_state (Suc i) (fs @ [a]) ?s"
  proof -
    have "a \<notin> set fs" using e(6) r(3,5) by (metis in_set_conv_nth)
    moreover have "unat ((fs @ [a]) ! j) < unat (total_blocks p')" if "j < Suc i" for j
      using that r(3) r(9) [of j] e(2) slot_low [OF n(1) f(2)] by (cases "j = i") (auto simp: nth_append)
    moreover have "data_frame m' p' ((fs @ [a]) ! j)" if "j < Suc i" for j
      using that r(3) e(7) e(8) [OF r(5), of j] by (cases "j = i") (auto simp: nth_append)
    moreover have "translate m' (of_nat (0x400000 + 4096 * j)) = Some ((fs @ [a]) ! j)" if "j < Suc i" for j
      using that r(3) e(4) [of "4096 * j"] r(6) [of j] assms(4) by (cases "j = i") (auto simp: nth_append nd)
    moreover have "phys m' ((fs @ [a]) ! 0) (4 * j) = push_bit 12 ((fs @ [a]) ! j)" if "j < Suc i" for j
    proof (cases "j = i")
      case True
      then show ?thesis using e(10) fR r(3) by (simp add: nth_append)
    next
      case False
      then have j: "j < i" "0 < i" using that by auto
      then have "fR = fs ! 0" using fR r(3) by (simp add: nth_append)
      then show ?thesis using e(11) [of "4 * j"] r(5) [OF j(2)] r(7) [OF j(1)] r(3) j by (simp add: nth_append)
    qed
    moreover have "(rx_buffers s)[i := ?b] ! j = of_nat (0x400000 + (0x200 + 4096 * j))" if "j < Suc i" for j
      using that r(2) r(8) [of j] assms(4) by (cases "j = i") (auto simp del: of_nat_add)
    ultimately show ?thesis unfolding rx_state_def using r(1-4) by simp
  qed
  moreover have "frames_left (pm s) \<le> frames_left (pm ?s) + 2" using e(3) by simp
  moreover have "heap_ptr ?s = of_nat (0x400000 + (0x200 + 4096 * Suc i))" by (simp add: algebra_simps)
  ultimately show ?thesis using that by simp
qed

lemma rx_loop:
  assumes "window_at N" "nic N s" "64 \<le> frames_left (pm s)" "heap_ptr s = of_nat (0x400000 + 0x200)"
    "rx_ring s = of_nat 0x400000" "length (rx_buffers s) = 32"
  obtains s' fs where "for_each rx_slot [0..<32] s = Some (Inr s')" "nic N s'" "rx_state 32 fs s'"
    "frames_left (pm s) \<le> frames_left (pm s') + 64" "heap_ptr s' = of_nat (0x400000 + 0x20200)" "tx_buffers s' = tx_buffers s"
proof -
  define P where "P = (\<lambda>i s'. nic N s' \<and> (\<exists>fs. rx_state i fs s') \<and> frames_left (pm s) \<le> frames_left (pm s') + 2 * i \<and>
    heap_ptr s' = of_nat (0x400000 + (0x200 + 4096 * i)) \<and> tx_buffers s' = tx_buffers s)"
  have "\<exists>s'. for_each rx_slot [0..<32] s = Some (Inr s') \<and> P 32 s'"
  proof (rule for_each_inv)
    show "P 0 s" using assms unfolding P_def rx_state_def by simp
  next
    fix i s1 assume i: "i < 32" "P i s1"
    then obtain fs where fs: "nic N s1" "rx_state i fs s1" "frames_left (pm s) \<le> frames_left (pm s1) + 2 * i"
      "heap_ptr s1 = of_nat (0x400000 + (0x200 + 4096 * i))" "tx_buffers s1 = tx_buffers s" unfolding P_def by blast
    have left: "2 \<le> frames_left (pm s1)" using fs(3) assms(3) i(1) by simp
    obtain s' a where "rx_slot i s1 = Some (Inr s')" "nic N s'" "rx_state (Suc i) (fs @ [a]) s'"
      "frames_left (pm s1) \<le> frames_left (pm s') + 2" "heap_ptr s' = of_nat (0x400000 + (0x200 + 4096 * Suc i))" "tx_buffers s' = tx_buffers s1"
      by (rule rx_step [OF assms(1) fs(1,2) i(1) left fs(4)])
    moreover from this have "P (Suc i) s'" unfolding P_def using fs(3,5) by auto
    ultimately show "\<exists>s'. rx_slot i s1 = Some (Inr s') \<and> P (Suc i) s'" by blast
  qed
  then show ?thesis using that unfolding P_def by auto
qed

section \<open>Register writes\<close>

definition reg :: "mmu \<Rightarrow> nat \<Rightarrow> nat \<Rightarrow> u32" where
  "reg m N y = phys m (of_nat ((N + y) div 4096)) (y div 4 mod 1024)"

definition same_ram :: "nat \<Rightarrow> machine \<Rightarrow> machine \<Rightarrow> bool" where
  "same_ram N s s' \<longleftrightarrow> nic N s' \<and> s' = s\<lparr>mm := mm s'\<rparr> \<and> (\<forall>va. pdx va < 1023 \<longrightarrow> translate (mm s') va = translate (mm s) va) \<and>
     (\<forall>f. data_frame (mm s') (pm s') f = data_frame (mm s) (pm s) f) \<and> (\<forall>f. unat f < N div 4096 \<longrightarrow> phys (mm s') f = phys (mm s) f)"

lemma same_ramD:
  assumes "same_ram N s s'"
  shows "nic N s'" "s' = s\<lparr>mm := mm s'\<rparr>" "pdx va < 1023 \<Longrightarrow> translate (mm s') va = translate (mm s) va"
    "data_frame (mm s') (pm s') f = data_frame (mm s) (pm s) f" "unat f < N div 4096 \<Longrightarrow> phys (mm s') f = phys (mm s) f"
    "pm s' = pm s" "heap_ptr s' = heap_ptr s" "con s' = con s" "rx_ring s' = rx_ring s" "rx_buffers s' = rx_buffers s"
    "tx_ring s' = tx_ring s" "tx_buffers s' = tx_buffers s"
proof -
  show e: "s' = s\<lparr>mm := mm s'\<rparr>" using assms unfolding same_ram_def by blast
  show "pm s' = pm s" "heap_ptr s' = heap_ptr s" "con s' = con s" "rx_ring s' = rx_ring s" "rx_buffers s' = rx_buffers s"
    "tx_ring s' = tx_ring s" "tx_buffers s' = tx_buffers s" by (subst e, simp)+
qed (use assms in \<open>unfold same_ram_def, blast+\<close>)

lemma same_ram_trans:
  assumes "same_ram N s s1" "same_ram N s1 s2"
  shows "same_ram N s s2"
  unfolding same_ram_def
proof (intro conjI allI impI)
  have "s2 = (s\<lparr>mm := mm s1\<rparr>)\<lparr>mm := mm s2\<rparr>" using same_ramD(2) [OF assms(1)] same_ramD(2) [OF assms(2)] by metis
  then show "s2 = s\<lparr>mm := mm s2\<rparr>" by simp
qed (use same_ramD(1,3-5) [OF assms(1)] same_ramD(1,3-5) [OF assms(2)] in simp_all)

lemma write_step:
  assumes "window_at N" "nic N s" "x < 0x10000" "4 * (ucast offset div 4) = (of_nat x :: u32)"
  obtains s' where "e1000_write offset v s = Some s'" "same_ram N s s'" "reg (mm s') N x = v"
    "\<And>y. y < 0x10000 \<Longrightarrow> y div 4 \<noteq> x div 4 \<Longrightarrow> reg (mm s') N y = reg (mm s) N y"
proof -
  note w = register_write [OF assms, where v = v]
  let ?s = "s\<lparr>mm := store (of_nat ((N + x) div 4096)) (x div 4 mod 1024) v (mm s)\<rparr>"
  have "f \<noteq> of_nat ((N + x) div 4096)" if "unat f < N div 4096" for f :: u32
    using window_address(6) [OF assms(1,3)] that by (metis not_add_less1)
  then have "same_ram N s ?s" unfolding same_ram_def using w(2-5) by simp
  moreover have "reg (mm ?s) N y = reg (mm s) N y" if "y < 0x10000" "y div 4 \<noteq> x div 4" for y
  proof -
    have "(of_nat ((N + y) div 4096) :: u32) = of_nat ((N + x) div 4096) \<Longrightarrow> y div 4 mod 1024 = x div 4 mod 1024 \<Longrightarrow> False"
      using window_address(6) [OF assms(1,3)] window_address(6) [OF assms(1) that(1)] that(2)
        div_mult2_eq [of x 4 1024] div_mult2_eq [of y 4 1024] div_mult_mod_eq [of "x div 4" 1024] div_mult_mod_eq [of "y div 4" 1024]
      by simp
    then show ?thesis by (auto simp: reg_def)
  qed
  moreover have "reg (mm ?s) N x = v" by (simp add: reg_def)
  ultimately show ?thesis using that w(1) by blast
qed

lemma rx_state_ram:
  assumes "same_ram N s s'" "rx_state i fs s" "i \<le> 1024"
  shows "rx_state i fs s'"
proof -
  note r = rx_stateD [OF assms(2)] and m = same_ramD [OF assms(1)]
  have low: "unat (fs ! 0) < N div 4096" if "0 < i"
    using r(9) [OF that] nicD(3) [OF m(1)] m(6) by (metis div_le_mono div_mult_self_is_m less_le_trans zero_less_numeral)
  have "translate (mm s') (of_nat (0x400000 + 4096 * j)) = Some (fs ! j)" if "j < i" for j
    using m(3) r(6) [OF that] heap_address(1) [of "4096 * j"] that assms(3) by simp
  then show ?thesis unfolding rx_state_def using r m low by auto
qed

lemma rx_enable_eq:
  assumes "window_at N" "nic N s" "rx_state 32 fs s"
  obtains s' where "rx_enable s = Some s'" "same_ram N s s'" "reg (mm s') N 0x2800 = push_bit 12 (fs ! 0)"
proof -
  note r = rx_stateD [OF assms(3)]
  have ring: "get_phys_addr (rx_ring t) (mm t) = Some (push_bit 12 (fs ! 0))" if "same_ram N s t \<or> t = s" for t
  proof -
    have t: "rx_state 32 fs t" "nic N t" using that rx_state_ram [OF _ assms(3)] assms(2,3) same_ramD(1) by auto
    have "translate (mm t) (of_nat 0x400000) = Some (fs ! 0)" using rx_stateD(6) [OF t(1), of 0] by simp
    moreover have "pdx (of_nat 0x400000) < 1023" using heap_address(1) [of 0] by simp
    ultimately show ?thesis
      unfolding rx_stateD(1) [OF t(1)] using get_phys_addr_eq [OF paging_invD(1) [OF nicD(1) [OF t(2)]], of "of_nat 0x400000"] by simp
  qed
  obtain s1 where 1: "e1000_write 0x2800 (push_bit 12 (fs ! 0)) s = Some s1" "same_ram N s s1" "reg (mm s1) N 0x2800 = push_bit 12 (fs ! 0)"
    by (rule write_step [OF assms(1,2), of "0x2800" "0x2800" "push_bit 12 (fs ! 0)"]) simp_all
  let ?hi = "ucast (drop_bit 32 (ucast (push_bit 12 (fs ! 0)) :: u64)) :: u32"
  obtain s2 where 2: "e1000_write 0x2804 ?hi s1 = Some s2" "same_ram N s1 s2" "reg (mm s2) N 0x2800 = reg (mm s1) N 0x2800"
    by (rule write_step [OF assms(1) same_ramD(1) [OF 1(2)], of "0x2804" "0x2804" ?hi]) simp_all
  obtain s3 where 3: "e1000_write 0x2808 512 s2 = Some s3" "same_ram N s2 s3" "reg (mm s3) N 0x2800 = reg (mm s2) N 0x2800"
    by (rule write_step [OF assms(1) same_ramD(1) [OF 2(2)], of "0x2808" "0x2808" 512]) simp_all
  obtain s4 where 4: "e1000_write 0x2810 0 s3 = Some s4" "same_ram N s3 s4" "reg (mm s4) N 0x2800 = reg (mm s3) N 0x2800"
    by (rule write_step [OF assms(1) same_ramD(1) [OF 3(2)], of "0x2810" "0x2810" 0]) simp_all
  obtain s5 where 5: "e1000_write 0x2818 31 s4 = Some s5" "same_ram N s4 s5" "reg (mm s5) N 0x2800 = reg (mm s4) N 0x2800"
    by (rule write_step [OF assms(1) same_ramD(1) [OF 4(2)], of "0x2818" "0x2818" 31]) simp_all
  let ?v = "push_bit 1 1 OR push_bit 15 1 OR push_bit 26 1 :: u32"
  obtain s6 where 6: "e1000_write 0x0100 ?v s5 = Some s6" "same_ram N s5 s6" "reg (mm s6) N 0x2800 = reg (mm s5) N 0x2800"
    by (rule write_step [OF assms(1) same_ramD(1) [OF 5(2)], of "0x100" "0x0100" ?v]) simp_all
  have "rx_enable s = Some s6"
    unfolding rx_enable_def using ring [of s] ring [of s1] 1(1,2) 2(1) 3(1) 4(1) 5(1) 6(1) by simp
  moreover have "same_ram N s s6" 
    by (rule same_ram_trans [OF 1(2) same_ram_trans [OF 2(2) same_ram_trans [OF 3(2) same_ram_trans [OF 4(2) same_ram_trans [OF 5(2) 6(2)]]]]])
  ultimately show ?thesis using that 1(3) 2(3) 3(3) 4(3) 5(3) 6(3) by simp
qed

lemma tx_enable_eq:
  assumes "window_at N" "nic N s" "tx_ring s = of_nat (0x400000 + 0x20200)"
  obtains s' where "tx_enable s = Some s'" "same_ram N s s'" "reg (mm s') N 0x2800 = reg (mm s) N 0x2800"
proof -
  have p: "pdx (tx_ring s) < 1023" unfolding assms(3) using heap_address(1) [of "0x20200"] by simp
  have ring: "\<exists>g. get_phys_addr (tx_ring t) (mm t) = Some g" if "same_ram N s t \<or> t = s" for t
  proof -
    have "nic N t" "tx_ring t = tx_ring s" using that same_ramD(1,11) assms(2) by auto
    then show ?thesis using get_phys_addr_eq [OF paging_invD(1) [OF nicD(1)] p, of N t] by simp
  qed
  obtain g where g: "get_phys_addr (tx_ring s) (mm s) = Some g" using ring by blast
  obtain s1 where 1: "e1000_write 0x3800 g s = Some s1" "same_ram N s s1" "reg (mm s1) N 0x2800 = reg (mm s) N 0x2800"
    by (rule write_step [OF assms(1,2), of "0x3800" "0x3800" g]) simp_all
  obtain g' where g': "get_phys_addr (tx_ring s1) (mm s1) = Some g'" using ring 1(2) by blast
  let ?hi = "ucast (drop_bit 32 (ucast g' :: u64)) :: u32"
  obtain s2 where 2: "e1000_write 0x3804 ?hi s1 = Some s2" "same_ram N s1 s2" "reg (mm s2) N 0x2800 = reg (mm s1) N 0x2800"
    by (rule write_step [OF assms(1) same_ramD(1) [OF 1(2)], of "0x3804" "0x3804" ?hi]) simp_all
  obtain s3 where 3: "e1000_write 0x3808 128 s2 = Some s3" "same_ram N s2 s3" "reg (mm s3) N 0x2800 = reg (mm s2) N 0x2800"
    by (rule write_step [OF assms(1) same_ramD(1) [OF 2(2)], of "0x3808" "0x3808" 128]) simp_all
  obtain s4 where 4: "e1000_write 0x3810 0 s3 = Some s4" "same_ram N s3 s4" "reg (mm s4) N 0x2800 = reg (mm s3) N 0x2800"
    by (rule write_step [OF assms(1) same_ramD(1) [OF 3(2)], of "0x3810" "0x3810" 0]) simp_all
  obtain s5 where 5: "e1000_write 0x3818 0 s4 = Some s5" "same_ram N s4 s5" "reg (mm s5) N 0x2800 = reg (mm s4) N 0x2800"
    by (rule write_step [OF assms(1) same_ramD(1) [OF 4(2)], of "0x3818" "0x3818" 0]) simp_all
  let ?v = "push_bit 1 1 OR push_bit 3 1 :: u32"
  obtain s6 where 6: "e1000_write 0x0400 ?v s5 = Some s6" "same_ram N s5 s6" "reg (mm s6) N 0x2800 = reg (mm s5) N 0x2800"
    by (rule write_step [OF assms(1) same_ramD(1) [OF 5(2)], of "0x400" "0x0400" ?v]) simp_all
  have "tx_enable s = Some s6" unfolding tx_enable_def using g g' 1(1) 2(1) 3(1) 4(1) 5(1) 6(1) by simp
  moreover have "same_ram N s s6" 
    by (rule same_ram_trans [OF 1(2) same_ram_trans [OF 2(2) same_ram_trans [OF 3(2) same_ram_trans [OF 4(2) same_ram_trans [OF 5(2) 6(2)]]]]])
  ultimately show ?thesis using that 1(3) 2(3) 3(3) 4(3) 5(3) 6(3) by simp
qed

text \<open>The transmit ring after \<open>i\<close> passes; it lies in the frame of the first transmit buffer.\<close>

definition tx_state :: "nat \<Rightarrow> u32 \<Rightarrow> machine \<Rightarrow> bool" where
  "tx_state i f0 s \<longleftrightarrow> tx_ring s = of_nat (0x400000 + 0x20200) \<and> length (tx_buffers s) = 8 \<and>
     heap_ptr s = of_nat (0x400000 + (0x20280 + 4096 * i)) \<and>
     (0 < i \<longrightarrow> (\<exists>g. translate (mm s) (of_nat (0x400000 + 0x20200)) = Some g \<and> data_frame (mm s) (pm s) g \<and> g \<noteq> f0 \<and>
        unat g < unat (total_blocks (pm s))))"

lemma tx_step:
  assumes "window_at N" "nic N s" "rx_state 32 fs s" "i < 8" "2 \<le> frames_left (pm s)" "tx_state i (fs ! 0) s"
  obtains s' where "tx_slot i s = Some (Inr s')" "nic N s'" "rx_state 32 fs s'" "tx_state (Suc i) (fs ! 0) s'"
    "frames_left (pm s) \<le> frames_left (pm s') + 2" "reg (mm s') N 0x2800 = reg (mm s) N 0x2800"
proof -
  note n = nicD [OF assms(2)] and r = rx_stateD [OF assms(3)]
  note t = assms(6) [unfolded tx_state_def]
  let ?n = "0x20280 + 4096 * i" and ?r = "0x20200 + 16 * i"
  have nd: "?n div 4096 = 32 + i" by simp
  have rd: "?r div 4096 = 32" using assms(4) by (intro div_nat_eqI) simp_all
  obtain g where g: "0 < i \<Longrightarrow> translate (mm s) (of_nat (0x400000 + 0x20200)) = Some g \<and> data_frame (mm s) (pm s) g \<and>
      g \<noteq> fs ! 0 \<and> unat g < unat (total_blocks (pm s))" using t by blast
  have ring: "translate (mm s) (of_nat (0x400000 + ?r)) = Some g \<and> data_frame (mm s) (pm s) g" if "?r div 4096 \<noteq> ?n div 4096"
  proof -
    have "0 < i" using that by (simp add: rd nd)
    then show ?thesis using g heap_page [OF n(1), of ?r "0x20200"] rd assms(4) by simp
  qed
  obtain a fR m' p' where f: "fill_slot (of_nat (0x400000 + 0x20200)) i (of_nat 8) 0x00FFFFFF s =
      Some (Inr (of_nat (0x400000 + ?n), s\<lparr>heap_ptr := of_nat (0x400000 + (?n + 4096)), pm := p', mm := m'\<rparr>))"
    "slot_effect ?n (?r div 4 mod 1024) a fR (mm s) (pm s) m' p'" "fR = (if ?r div 4096 = ?n div 4096 then a else g)"
    by (rule fill_slot_eq [OF n(1) assms(5), of ?n "0x20200" ?r i 8 g]) (use t assms(4) ring in simp_all)
  let ?s = "s\<lparr>heap_ptr := of_nat (0x400000 + (?n + 4096)), pm := p', mm := m', rx_buffers := rx_buffers s,
    tx_buffers := (tx_buffers s)[i := of_nat (0x400000 + ?n)]\<rparr>"
  note e = slot_effectD [OF f(2)]
  have low: "unat a < unat (total_blocks (pm s))" by (rule slot_low [OF n(1) f(2)])
  have f0: "data_frame (mm s) (pm s) (fs ! 0)" using r(5) [of 0] by simp
  have fR: "fR \<noteq> fs ! 0" "unat fR < unat (total_blocks (pm s))"
    using f(3) e(6) f0 g low by (auto simp: rd split: if_splits)
  have "tx_slot i s = Some (Inr ?s)"
    unfolding tx_slot_def using t f(1) assms(4) by (simp add: and_then_def)
  moreover have "nic N ?s" by (rule nic_slot [OF assms(1,2) f(2)])
  moreover have "rx_state 32 fs ?s"
  proof -
    have "translate m' (of_nat (0x400000 + 4096 * j)) = Some (fs ! j)" if "j < 32" for j
      using that e(4) [of "4096 * j"] r(6) [OF that] nd by simp
    moreover have "phys m' (fs ! 0) = phys (mm s) (fs ! 0)" using e(9) [OF f0] fR(1) by simp
    ultimately show ?thesis unfolding rx_state_def using r e(2,8) by simp
  qed
  moreover have "tx_state (Suc i) (fs ! 0) ?s"
  proof -
    have "\<exists>g'. translate m' (of_nat (0x400000 + 0x20200)) = Some g' \<and> data_frame m' p' g' \<and> g' \<noteq> fs ! 0 \<and> unat g' < unat (total_blocks p')"
    proof (cases "i = 0")
      case True
      then show ?thesis using e(4) [of "0x20200"] e(2,6,7) f0 low by auto
    next
      case False
      then show ?thesis using e(4) [of "0x20200"] e(2,8) g nd by auto
    qed
    then show ?thesis unfolding tx_state_def using t by (simp add: algebra_simps)
  qed
  moreover have "frames_left (pm s) \<le> frames_left (pm ?s) + 2" using e(3) by simp
  moreover have "reg (mm ?s) N 0x2800 = reg (mm s) N 0x2800"
  proof -
    let ?f = "of_nat ((N + 0x2800) div 4096) :: u32"
    have "data_frame (mm s) (pm s) ?f" by (rule window_frame [OF assms(1) _ n(1,3)]) simp
    moreover have "unat (total_blocks (pm s)) \<le> unat ?f"
      using window_address(6) [OF assms(1), of "0x2800"] n(3) by (simp add: less_eq_div_iff_mult_less_eq trans_le_add1)
    then have "?f \<noteq> fR" using fR(2) by auto
    ultimately show ?thesis using e(9) by (simp add: reg_def)
  qed
  ultimately show ?thesis using that by blast
qed

lemma tx_loop:
  assumes "window_at N" "nic N s" "rx_state 32 fs s" "16 \<le> frames_left (pm s)" "tx_state 0 (fs ! 0) s"
  obtains s' where "for_each tx_slot [0..<8] s = Some (Inr s')" "nic N s'" "rx_state 32 fs s'"
    "tx_ring s' = of_nat (0x400000 + 0x20200)" "reg (mm s') N 0x2800 = reg (mm s) N 0x2800"
proof -
  define P where "P = (\<lambda>i s'. nic N s' \<and> rx_state 32 fs s' \<and> tx_state i (fs ! 0) s' \<and>
    frames_left (pm s) \<le> frames_left (pm s') + 2 * i \<and> reg (mm s') N 0x2800 = reg (mm s) N 0x2800)"
  have "\<exists>s'. for_each tx_slot [0..<8] s = Some (Inr s') \<and> P 8 s'"
  proof (rule for_each_inv)
    show "P 0 s" using assms unfolding P_def by simp
  next
    fix i s1 assume i: "i < 8" "P i s1"
    then have p: "nic N s1" "rx_state 32 fs s1" "tx_state i (fs ! 0) s1" "2 \<le> frames_left (pm s1)" using assms(4) by (auto simp: P_def)
    obtain s' where "tx_slot i s1 = Some (Inr s')" "nic N s'" "rx_state 32 fs s'" "tx_state (Suc i) (fs ! 0) s'"
      "frames_left (pm s1) \<le> frames_left (pm s') + 2" "reg (mm s') N 0x2800 = reg (mm s1) N 0x2800"
      by (rule tx_step [OF assms(1) p(1,2) i(1) p(4,3)])
    then show "\<exists>s'. tx_slot i s1 = Some (Inr s') \<and> P (Suc i) s'" using i(2) by (auto simp: P_def)
  qed
  then show ?thesis using that unfolding P_def tx_state_def by blast
qed

lemma e1000_report_eq:
  assumes "nic N s" "window_at N"
  obtains k' where "e1000_report (of_nat N) s = Some (s\<lparr>con := k'\<rparr>)" "nic N (s\<lparr>con := k'\<rparr>)"
proof -
  note n = nicD [OF assms(1)]
  obtain st where st: "vread (of_nat N + 4 * 2) (mm s) = Some st" using n(5) [of 8] by (simp add: vread_def)
  obtain k1 where k1: "print (lit ''E1000 MMIO Base: '') 0x07 (con s) = Some k1" "con_inv k1" using print_inv [OF n(2) lit_terminated] by blast
  obtain k2 where k2: "print_hex (of_nat N) 0x07 k1 = Some k2" "con_inv k2" using print_number_inv(3) [OF k1(2)] by blast
  obtain k3 where k3: "print (line '''') 0x07 k2 = Some k3" "con_inv k3" using print_inv [OF k2(2) line_terminated] by blast
  obtain k4 where k4: "print (lit ''E1000 Status: '') 0x07 k3 = Some k4" "con_inv k4" using print_inv [OF k3(2) lit_terminated] by blast
  obtain k5 where k5: "print_hex st 0x07 k4 = Some k5" "con_inv k5" using print_number_inv(3) [OF k4(2)] by blast
  obtain k6 where k6: "print (line '''') 0x07 k5 = Some k6" "con_inv k6" using print_inv [OF k5(2) line_terminated] by blast
  show ?thesis
  proof (rule that [of k6])
    show "e1000_report (of_nat N) s = Some (s\<lparr>con := k6\<rparr>)"
      using n(4) st k1(1) k2(1) k3(1) k4(1) k5(1) k6(1) by (simp add: e1000_report_def con_step_def)
    show "nic N (s\<lparr>con := k6\<rparr>)" using assms(1) k6(2) by (simp add: nic_def)
  qed
qed

lemma rx_setup_eq:
  assumes "window_at N" "nic N s" "64 \<le> frames_left (pm s)" "heap_ptr s = 0x400000" "length (rx_buffers s) = 32"
  obtains s' fs where "rx_setup s = Some (Inr s')" "nic N s'" "rx_state 32 fs s'" "reg (mm s') N 0x2800 = push_bit 12 (fs ! 0)"
    "frames_left (pm s) \<le> frames_left (pm s') + 64" "heap_ptr s' = of_nat (0x400000 + 0x20200)" "tx_buffers s' = tx_buffers s"
proof -
  let ?s = "s\<lparr>rx_ring := of_nat 0x400000, heap_ptr := of_nat (0x400000 + 0x200)\<rparr>"
  have s: "nic N ?s" "64 \<le> frames_left (pm ?s)" "heap_ptr ?s = of_nat (0x400000 + 0x200)" "rx_ring ?s = of_nat 0x400000"
    "length (rx_buffers ?s) = 32" using assms by (simp_all add: nic_def)
  have al: "alloc_aligned (16 * 32) 16 (heap_ptr s) = Some (of_nat 0x400000, of_nat (0x400000 + 0x200))"
    using alloc_heap [of 0 512] assms(4) by simp
  obtain s1 fs where 1: "for_each rx_slot [0..<32] ?s = Some (Inr s1)" "nic N s1" "rx_state 32 fs s1"
    "frames_left (pm ?s) \<le> frames_left (pm s1) + 64" "heap_ptr s1 = of_nat (0x400000 + 0x20200)" "tx_buffers s1 = tx_buffers ?s"
    by (rule rx_loop [OF assms(1) s])
  obtain s2 where 2: "rx_enable s1 = Some s2" "same_ram N s1 s2" "reg (mm s2) N 0x2800 = push_bit 12 (fs ! 0)"
    by (rule rx_enable_eq [OF assms(1) 1(2,3)])
  have "rx_setup s = Some (Inr s2)"
    unfolding rx_setup_def al by (simp only: Option.bind.simps prod.case 1(1) and_then_def sum.case 2(1) option.map)
  moreover have "rx_state 32 fs s2" by (rule rx_state_ram [OF 2(2) 1(3)]) simp
  ultimately show ?thesis using that [of s2 fs] 2(3) same_ramD(1,6,7,12) [OF 2(2)] 1(4-6) by simp
qed

lemma tx_setup_eq:
  assumes "window_at N" "nic N s" "rx_state 32 fs s" "16 \<le> frames_left (pm s)" "heap_ptr s = of_nat (0x400000 + 0x20200)"
    "length (tx_buffers s) = 8"
  obtains s' where "tx_setup s = Some (Inr s')" "nic N s'" "rx_state 32 fs s'" "reg (mm s') N 0x2800 = reg (mm s) N 0x2800"
proof -
  define t where "t = s\<lparr>tx_ring := of_nat (0x400000 + 0x20200), heap_ptr := of_nat (0x400000 + 0x20280)\<rparr>"
  have al: "alloc_aligned (16 * 8) 16 (heap_ptr s) = Some (of_nat (0x400000 + 0x20200), of_nat (0x400000 + 0x20280))"
    using alloc_heap [of "0x20200" 128] assms(5) by simp
  have t: "nic N t" "rx_state 32 fs t" "16 \<le> frames_left (pm t)" "tx_state 0 (fs ! 0) t"
    using assms by (simp_all add: t_def nic_def rx_state_def tx_state_def)
  obtain s1 where 1: "for_each tx_slot [0..<8] t = Some (Inr s1)" "nic N s1" "rx_state 32 fs s1"
    "tx_ring s1 = of_nat (0x400000 + 0x20200)" "reg (mm s1) N 0x2800 = reg (mm t) N 0x2800"
    by (rule tx_loop [OF assms(1) t])
  obtain s2 where 2: "tx_enable s1 = Some s2" "same_ram N s1 s2" "reg (mm s2) N 0x2800 = reg (mm s1) N 0x2800"
    by (rule tx_enable_eq [OF assms(1) 1(2,4)])
  obtain k where k: "print (line ''TX ring enabled.'') 0x07 (con s2) = Some k" "con_inv k"
    using print_inv [OF nicD(2) [OF same_ramD(1) [OF 2(2)]] line_terminated] by blast
  have "rx_state 32 fs s2" by (rule rx_state_ram [OF 2(2) 1(3)]) simp
  then have "nic N (s2\<lparr>con := k\<rparr>)" "rx_state 32 fs (s2\<lparr>con := k\<rparr>)"
    using same_ramD(1) [OF 2(2)] k(2) by (simp_all add: nic_def rx_state_def)
  moreover have "tx_setup s = Some (Inr (s2\<lparr>con := k\<rparr>))"
    unfolding tx_setup_def al
    by (simp only: Option.bind.simps prod.case t_def [symmetric] 1(1) and_then_def sum.case 2(1) con_step_def k(1))
  ultimately show ?thesis using that 2(3) 1(5) by (simp add: t_def)
qed

lemma window_bits:
  assumes "window_at N"
  shows "(of_nat N :: u32) AND 1 = 0" "(of_nat N :: u32) AND 0xFFFFFFF0 = of_nat N"
proof -
  obtain q where q: "N = 65536 * q" using assms by (auto simp: window_at_def)
  have e: "(of_nat N :: u32) = push_bit 16 (of_nat q)" by (simp add: q push_bit_eq_mult)
  have m: "(0xFFFFFFF0 :: u32) = push_bit 4 (mask 28)" by (simp add: mask_eq_exp_minus_1)
  show "(of_nat N :: u32) AND 1 = 0" unfolding e by (rule bit_word_eqI) (auto simp: bit_simps)
  show "(of_nat N :: u32) AND 0xFFFFFFF0 = of_nat N" unfolding e m by (rule bit_word_eqI) (auto simp: bit_simps)
qed

text \<open>What the kernel owes the driver, and what the bus tells it.\<close>

definition card_ready :: "device \<Rightarrow> byte \<Rightarrow> byte \<Rightarrow> byte \<Rightarrow> nat \<Rightarrow> machine \<Rightarrow> bool" where
  "card_ready dev bus d func N s \<longleftrightarrow> paging_inv (mm s) (pm s) \<and> con_inv (con s) \<and> 96 \<le> frames_left (pm s) \<and>
     heap_ptr s = 0x400000 \<and> length (rx_buffers s) = 32 \<and> length (tx_buffers s) = 8 \<and>
     fst (pci_config_read dev bus d func 0x10 (con s)) = of_nat N \<and> window_at N \<and> unat (total_blocks (pm s)) * 4096 \<le> N"

lemma e1000_init_effect:
  assumes "card_ready dev bus d func N s"
  obtains s' fs where "e1000_init dev bus d func s = Some (Inr (True, s'))" "nic N s'" "rx_state 32 fs s'"
    "reg (mm s') N 0x2800 = push_bit 12 (fs ! 0)"
proof -
  note c = assms [unfolded card_ready_def]
  have win: "window_at N" using c by blast
  define k0 where "k0 = snd (pci_config_read dev bus d func 0x10 (con s))"
  have pr: "pci_config_read dev bus d func 0x10 (con s) = (of_nat N, k0)" using c by (simp add: k0_def prod_eq_iff)
  have "con_inv k0" using c by (simp add: k0_def pci_config_read_def inl_def outl_def Let_def con_inv_def)
  define s0 where "s0 = s\<lparr>con := k0\<rparr>"
  have s0: "paging_inv (mm s0) (pm s0)" "16 \<le> frames_left (pm s0)" using c by (simp_all add: s0_def)
  obtain m p where mp: "for_each (map_window (of_nat N)) [0..<16] s0 = Some (Inr (s0\<lparr>mm := m, pm := p\<rparr>))" "paging_inv m p"
    "total_blocks p = total_blocks (pm s0)" "frames_left (pm s0) \<le> frames_left p + 16"
    "\<forall>x < 0x10000. translate m (of_nat (N + x)) = Some (of_nat ((N + x) div 4096))"
    using map_windows [OF win s0] by blast
  define s2 where "s2 = s0\<lparr>mm := m, pm := p, e1000_regs := of_nat N\<rparr>"
  have s2: "nic N s2" "heap_ptr s2 = 0x400000" "length (rx_buffers s2) = 32" "length (tx_buffers s2) = 8" "80 \<le> frames_left (pm s2)"
    using mp(2-5) c \<open>con_inv k0\<close> by (simp_all add: nic_def s2_def s0_def)
  obtain k' where k': "e1000_report (of_nat N) s2 = Some (s2\<lparr>con := k'\<rparr>)" "nic N (s2\<lparr>con := k'\<rparr>)"
    by (rule e1000_report_eq [OF s2(1) win])
  obtain s3 fs where s3: "rx_setup (s2\<lparr>con := k'\<rparr>) = Some (Inr s3)" "nic N s3" "rx_state 32 fs s3" "reg (mm s3) N 0x2800 = push_bit 12 (fs ! 0)"
    "frames_left (pm (s2\<lparr>con := k'\<rparr>)) \<le> frames_left (pm s3) + 64" "heap_ptr s3 = of_nat (0x400000 + 0x20200)"
    "tx_buffers s3 = tx_buffers (s2\<lparr>con := k'\<rparr>)"
    by (rule rx_setup_eq [OF win k'(2)]) (use s2 in simp_all)
  obtain s4 where s4: "tx_setup s3 = Some (Inr s4)" "nic N s4" "rx_state 32 fs s4" "reg (mm s4) N 0x2800 = reg (mm s3) N 0x2800"
    by (rule tx_setup_eq [OF win s3(2,3)]) (use s2 s3(5-7) in simp_all)
  have "e1000_init dev bus d func s = Some (Inr (True, s4))"
    unfolding e1000_init_def pr Let_def prod.case window_bits [OF win] s0_def [symmetric] mp(1)
    by (simp only: and_then_def Option.bind.simps sum.case if_False simp_thms s2_def [symmetric] k'(1) s3(1) s4(1))
  then show ?thesis using that s4 s3(4) by simp
qed

section \<open>Listing the bus\<close>

lemma config_read_inv: "con_inv k \<Longrightarrow> con_inv (snd (pci_config_read dev bus d func offset k))"
  by (simp add: pci_config_read_def inl_def outl_def Let_def con_inv_def)

lemma pci_list_one_inv: "con_inv k \<Longrightarrow> \<exists>k'. pci_list_one dev e k = Some k' \<and> con_inv k'"
proof -
  assume k: "con_inv k"
  obtain bus d func where e: "e = (bus, d, func)" by (cases e) auto
  obtain v k1 where 1: "pci_config_read dev bus d func 0x00 k = (v, k1)" "con_inv k1" using config_read_inv [OF k] by (metis prod.collapse)
  obtain c k2 where 2: "pci_config_read dev bus d func 0x08 k1 = (c, k2)" "con_inv k2" using config_read_inv [OF 1(2)] by (metis prod.collapse)
  have "fmt_ok (line ''  Bus %d, Dev %d, Func %d: Vendor %x, Class %x, Subclass %x'') [KInt a1, KInt a2, KInt a3, KInt a4, KInt a5, KInt a6]"
    for a1 a2 a3 a4 a5 a6 by (simp add: line_def bytes_def)
  from kprintf_inv [OF 2(2) this] show ?thesis using 1 2 by (simp add: pci_list_one_def e Let_def)
qed

interpretation bus_list: safe_step "pci_list_one dev" con_inv "\<lambda>_. True" for dev
  by unfold_locales (rule pci_list_one_inv)

lemma pci_list_devices_inv: "con_inv k \<Longrightarrow> \<exists>k'. pci_list_devices dev k = Some k' \<and> con_inv k'"
  unfolding pci_list_devices_def
  by (rule bind_inv [OF print_inv]) (auto intro: bus_list.run_safe simp: list_all_iff)

text \<open>Every function of the bus is visited once.\<close>

lemma length_pci_functions: "length pci_functions = 65536"
  by (simp add: pci_functions_def length_concat o_def sum_list_triv del: upt_rec_numeral)

section \<open>Properties\<close>

text \<open>
  (C26) The initialisation of a network card whose register window lies above the RAM runs to its
  end on a machine with 96 free frames and an unused heap: the page-table invariant survives, the
  window is mapped to itself, and the 32 receive buffers get distinct frames whose addresses are in
  the descriptors.  But the ring starts on the first page of the heap, which the first buffer's
  mapping claims: the ring address given to the card is the address of receive buffer 0, so the
  first packet received overwrites the descriptor ring.
\<close>

theorem e1000_ring_overlap:
  assumes "card_ready dev bus d func N s"
  shows "\<exists>s' fs. e1000_init dev bus d func s = Some (Inr (True, s')) \<and> paging_inv (mm s') (pm s') \<and> con_inv (con s') \<and>
     (\<forall>x < 0x10000. translate (mm s') (of_nat (N + x)) = Some (of_nat ((N + x) div 4096))) \<and>
     length fs = 32 \<and> distinct fs \<and>
     (\<forall>j < 32. rx_buffers s' ! j = of_nat (0x400200 + 4096 * j) \<and> translate (mm s') (of_nat (0x400000 + 4096 * j)) = Some (fs ! j) \<and>
        phys (mm s') (fs ! 0) (4 * j) = push_bit 12 (fs ! j)) \<and>
     reg (mm s') N 0x2800 = phys (mm s') (fs ! 0) 0"
proof -
  obtain s' fs where e: "e1000_init dev bus d func s = Some (Inr (True, s'))" "nic N s'" "rx_state 32 fs s'"
    "reg (mm s') N 0x2800 = push_bit 12 (fs ! 0)" by (rule e1000_init_effect [OF assms])
  note n = nicD [OF e(2)] and r = rx_stateD [OF e(3)]
  show ?thesis
  proof (intro exI [of _ s'] exI [of _ fs] conjI allI impI)
    show "rx_buffers s' ! j = of_nat (0x400200 + 4096 * j)" if "j < 32" for j using r(8) [OF that] by (simp add: algebra_simps)
    show "reg (mm s') N 0x2800 = phys (mm s') (fs ! 0) 0" using e(4) r(7) [of 0] by simp
  qed (use e(1) n r in auto)
qed

definition boot_machine :: machine where
  "boot_machine = \<lparr>mm = boot_tables blank_mmu, pm = boot_pmm, heap_ptr = 0x400000, con = boot_console,
     e1000_regs = 0, rx_ring = 0, rx_buffers = replicate 32 0, tx_ring = 0, tx_buffers = replicate 8 0\<rparr>"

theorem e1000_ring_overlap_witness:
  "\<exists>s' fs. e1000_init (\<lambda>h p. 0xFEBC0000) 0 3 0 boot_machine = Some (Inr (True, s')) \<and>
     reg (mm s') 0xFEBC0000 0x2800 = phys (mm s') (fs ! 0) 0 \<and> translate (mm s') (of_nat 0x400000) = Some (fs ! 0)"
proof -
  have "{b. b < 256 \<and> \<not> marked boot_pmm b} = {160..<256}" using boot_pmm_marked by auto
  then have f: "frames_left boot_pmm = 96" by (simp add: frames_left_def boot_pmm_def)
  have t: "unat (total_blocks boot_pmm) * 4096 \<le> 0xFEBC0000" by (simp add: boot_pmm_def)
  have "fst (pci_config_read (\<lambda>h p. 0xFEBC0000) 0 3 0 0x10 boot_console) = of_nat 0xFEBC0000"
    by (simp add: pci_config_read_def inl_def)
  then have "card_ready (\<lambda>h p. 0xFEBC0000) 0 3 0 0xFEBC0000 boot_machine"
    unfolding card_ready_def using f t boot_paging_inv boot_console_inv by (simp add: boot_machine_def window_at_def)
  from e1000_ring_overlap [OF this] obtain s' fs where e:
    "e1000_init (\<lambda>h p. 0xFEBC0000) 0 3 0 boot_machine = Some (Inr (True, s'))" and
    f: "\<forall>j < 32. translate (mm s') (of_nat (0x400000 + 4096 * j)) = Some (fs ! j)" and
    r: "reg (mm s') 0xFEBC0000 0x2800 = phys (mm s') (fs ! 0) 0" by blast
  show ?thesis using e r f [rule_format, of 0] by (intro exI [of _ s'] exI [of _ fs]) simp
qed

end
