(* ===== verification/Shell.thy ===== *)
theory Shell
  imports Calculator Ata Cable Network
begin

text \<open>
  The command shell of \<^verbatim>\<open>src/shell/shell.c\<close>: the command handlers, the dispatch of a line on its
  first word, the prompt, and the line editor of the main loop.  The system state joins the file
  system, the console, the interrupt state (tick counters and keyboard), the frame allocator whose
  statistics are displayed, the editor's static variable and the shell's own command buffer.

  What comes from outside is in the record \<open>env\<close>: the devices, the linker symbols, the former
  contents of the stack buffers, the interrupts that end a halt, and the keys that are typed into
  the editor.  A handler is \<^term>\<open>None\<close> when it leaves an object, reads through a null pointer, divides
  by zero or waits for ever; the command \<^verbatim>\<open>cable\<close> is \<open>Inl\<close> while the editor waits for more keys.
\<close>

section \<open>Definitions\<close>

abbreviation (input) COLOR_PROMPT :: byte where "COLOR_PROMPT \<equiv> 0x0B"
abbreviation (input) COLOR_INPUT :: byte where "COLOR_INPUT \<equiv> 0x0B"
abbreviation (input) COLOR_SYSTEM :: byte where "COLOR_SYSTEM \<equiv> 0x05"
abbreviation (input) COLOR_SUCCESS :: byte where "COLOR_SUCCESS \<equiv> 0x0A"
abbreviation (input) COLOR_ERROR :: byte where "COLOR_ERROR \<equiv> 0x04"
abbreviation (input) COLOR_FILE :: byte where "COLOR_FILE \<equiv> 0x07"
abbreviation (input) MAX_COMMAND_LENGTH :: nat where "MAX_COMMAND_LENGTH \<equiv> 256"

record env =
  dev :: device
  bss_start :: u32
  kernel_end :: u32
  cmd_bytes :: buf
  dir_bytes :: buf
  bdx_bytes :: buf
  file_bytes :: buf
  draw_bytes :: buf
  save_bytes :: buf
  call_bytes :: buf
  arriving :: "u32 list"
  typed :: "(byte \<times> bool) list"

record system =
  files :: bdfs
  screen :: console
  intr :: interrupts
  frames :: pmm
  ed :: editor
  command_buffer :: buf
  command_len :: nat

definition on_screen :: "(console \<Rightarrow> console option) \<Rightarrow> system \<Rightarrow> system option" where
  "on_screen f s = do { k \<leftarrow> f (screen s); Some (s\<lparr>screen := k\<rparr>) }"

text \<open>Messages: a list of literal texts and colours, each printed by its own call.\<close>

definition prints :: "(buf \<times> byte) list \<Rightarrow> console \<Rightarrow> console option" where
  "prints ms = foldM (\<lambda>(t, color). print t color) ms"

subsection \<open>Commands without arguments\<close>

definition help_command :: "console \<Rightarrow> console option" where
  "help_command = prints (map (\<lambda>t. (line t, COLOR_SYSTEM))
     [''Available commands:'',
      ''  help     - Display this help message'',
      ''  clear    - Clear the screen'',
      ''  meminfo  - Show PMM statistics'',
      ''  time     - Show system uptime'',
      ''  halt     - Halt the system (requires QEMU to be closed manually)'',
      ''  reboot   - Reboot the system'',
      ''  shutdown - Shutdown the system'',
      ''  ls       - List files'',
      ''  touch    - Create a file'',
      ''  write    - Write to a file'',
      ''  echo     - Print text to the screen'',
      ''  cat      - Read from a file'',
      ''  cable    - Open a text editor'',
      ''  rm       - Remove a file'',
      ''  mv       - Rename a file'',
      ''  mkdir    - Create a directory'',
      ''  cd       - Change directory'',
      ''  sysinfo  - Display system information'',
      ''  calc     - Evaluate a mathematical expression'',
      ''  pulse    - Show CPU and memory usage'',
      ''  chrome   - List connected PCI devices'',
      ''  applist  - List available applications''])"

definition applist_command :: "console \<Rightarrow> console option" where
  "applist_command = prints (map (\<lambda>t. (line t, COLOR_SYSTEM))
     [''Available applications:'', ''  calc     - A simple calculator'', ''  cable    - A simple text editor''])"

definition sysinfo_command :: "env \<Rightarrow> system \<Rightarrow> console \<Rightarrow> console option" where
  "sysinfo_command v s k =
     do { let kernel_size = kernel_end v - bss_start v;
          k1 \<leftarrow> print (line ''[sysinfo] brainDance v0.3'') COLOR_SYSTEM k;
          k2 \<leftarrow> kprintf (line ''[sysinfo] Kernel Size: %d KB'') [KInt (kernel_size div 1024)] k1;
          k3 \<leftarrow> kprintf (line ''[sysinfo] Total RAM: %d MB'') [KInt (pmm_get_total_memory (frames s) div 1024 div 1024)] k2;
          k4 \<leftarrow> kprintf (line ''[sysinfo] Free RAM: %d MB'') [KInt (pmm_get_free_memory (frames s) div 1024 div 1024)] k3;
          k5 \<leftarrow> kprintf (line ''[sysinfo] Uptime: %d seconds'') [KInt (timer_ticks (intr s) div 100)] k4;
          k6 \<leftarrow> print (line ''[sysinfo] Drivers: ATA, BDFS, CPU, E1000, Keyboard, Paging, PCI, PMM, Timer'') COLOR_SYSTEM k5;
          print (line ''[sysinfo] Shell User: V'') COLOR_SYSTEM k6 }"

fun atoi_loop :: "buf \<Rightarrow> u32 \<Rightarrow> u32 option" where
  "atoi_loop [] res = None"
| "atoi_loop (c # str) res = (if c \<noteq> 0 then atoi_loop str (res * 10 + scast c - 48) else Some res)"

definition atoi :: "buf \<Rightarrow> u32 option" where
  "atoi str = atoi_loop str 0"

definition ls_command :: "bdfs \<Rightarrow> console \<Rightarrow> console option" where
  "ls_command fs = bdfs_list_files fs"

definition clear_command :: "console \<Rightarrow> console option" where
  "clear_command = clear_screen 0x07"

definition meminfo_command :: "pmm \<Rightarrow> console \<Rightarrow> console option" where
  "meminfo_command p k =
     do { k1 \<leftarrow> print (line ''Physical Memory Manager (PMM) Info:'') COLOR_SYSTEM k;
          k2 \<leftarrow> print (lit ''  Total memory: '') COLOR_SYSTEM k1;
          k3 \<leftarrow> print_int (pmm_get_total_memory p div 1024 div 1024) COLOR_SYSTEM k2;
          k4 \<leftarrow> print (line '' MB'') COLOR_SYSTEM k3;
          k5 \<leftarrow> print (lit ''  Used memory:  '') COLOR_SYSTEM k4;
          k6 \<leftarrow> print_int (pmm_get_used_memory p div 1024 div 1024) COLOR_SYSTEM k5;
          k7 \<leftarrow> print (line '' MB'') COLOR_SYSTEM k6;
          k8 \<leftarrow> print (lit ''  Free memory:  '') COLOR_SYSTEM k7;
          k9 \<leftarrow> print_int (pmm_get_free_memory p div 1024 div 1024) COLOR_SYSTEM k8;
          print (line '' MB'') COLOR_SYSTEM k9 }"

text \<open>Two digits of a clock: a leading zero when the number is below ten.\<close>

definition print_two :: "u32 \<Rightarrow> console \<Rightarrow> console option" where
  "print_two n k =
     do { k1 \<leftarrow> (if n < 10 then print (lit ''0'') COLOR_SYSTEM k else Some k); print_int n COLOR_SYSTEM k1 }"

definition time_command :: "interrupts \<Rightarrow> console \<Rightarrow> console option" where
  "time_command i k =
     do { let total_seconds = timer_ticks i div 100;
          let hours = total_seconds div 3600;
          let minutes = (total_seconds mod 3600) div 60;
          let seconds = total_seconds mod 60;
          k1 \<leftarrow> print (lit ''Uptime: '') COLOR_SYSTEM k;
          k2 \<leftarrow> print_two hours k1;
          k3 \<leftarrow> print (lit '':'') COLOR_SYSTEM k2;
          k4 \<leftarrow> print_two minutes k3;
          k5 \<leftarrow> print (lit '':'') COLOR_SYSTEM k4;
          k6 \<leftarrow> print_two seconds k5;
          print (line '''') COLOR_SYSTEM k6 }"

text \<open>The processor halts until the interrupts of \<open>arriving\<close> have been handled; then the command returns.\<close>

definition halt_command :: "env \<Rightarrow> system \<Rightarrow> system option" where
  "halt_command v s =
     do { k \<leftarrow> print (line ''Halting system...'') COLOR_SYSTEM (screen s);
          (i, h) \<leftarrow> foldM (irq_handler (dev v)) (arriving v) (intr s, ports k);
          Some (s\<lparr>intr := i, screen := k\<lparr>ports := h\<rparr>\<rparr>) }"

partial_function (option) reboot_wait :: "device \<Rightarrow> console \<Rightarrow> console option" where
  "reboot_wait d k =
     (let (good, k') = con_inb d 0x64 k in if good AND 0x02 \<noteq> 0 then reboot_wait d k' else Some k')"

definition reboot_command :: "device \<Rightarrow> console \<Rightarrow> console option" where
  "reboot_command d k =
     do { k1 \<leftarrow> print (line ''Rebooting system...'') COLOR_SYSTEM k;
          k2 \<leftarrow> reboot_wait d k1;
          Some (con_outb 0x64 0xFE k2) }"

definition shutdown_command :: "console \<Rightarrow> console option" where
  "shutdown_command k =
     do { k1 \<leftarrow> print (line ''Shutting down system...'') COLOR_SYSTEM k;
          Some (k1\<lparr>ports := outw 0x604 0x2000 (ports k1)\<rparr>) }"

definition usage_bar :: "u32 \<Rightarrow> console \<Rightarrow> console option" where
  "usage_bar filled =
     foldM (\<lambda>i. if int i < sint filled then print (lit ''#'') COLOR_SUCCESS else print (lit ''-'') COLOR_SYSTEM) [0..<10]"

definition pulse_command :: "pmm \<Rightarrow> interrupts \<Rightarrow> console \<Rightarrow> console option" where
  "pulse_command p i k =
     do { let free_mem = pmm_get_free_memory p div 1024 div 1024;
          let total_mem = pmm_get_total_memory p div 1024 div 1024;
          mem_usage \<leftarrow> (if total_mem = 0 then None else Some (((total_mem - free_mem) * 100) div total_mem));
          let cpu_usage = cpu_get_usage i;
          k1 \<leftarrow> print (line ''System Vitals:'') COLOR_SYSTEM k;
          k2 \<leftarrow> print (lit ''  CPU Usage: ['') COLOR_SYSTEM k1;
          cpu_filled \<leftarrow> idiv (cpu_usage * 10) 100;
          k3 \<leftarrow> usage_bar cpu_filled k2;
          k4 \<leftarrow> kprintf (line ''] %d%%'') [KInt cpu_usage] k3;
          k5 \<leftarrow> print (lit ''  RAM Usage: ['') COLOR_SYSTEM k4;
          mem_filled \<leftarrow> idiv (mem_usage * 10) 100;
          k6 \<leftarrow> usage_bar mem_filled k5;
          kprintf (line ''] %d%% (%d/%d MB)'') [KInt mem_usage, KInt (total_mem - free_mem), KInt total_mem] k6 }"


subsection \<open>Commands on files\<close>

text \<open>A message with the name of a file between quotes, after one text and before another.\<close>

definition report :: "string \<Rightarrow> buf \<Rightarrow> string \<Rightarrow> byte \<Rightarrow> console \<Rightarrow> console option" where
  "report before fname after color =
     prints [(bytes before @ [39, 0], color), (fname, color), ([39] @ line after, color)]"

definition touch_command :: "buf \<Rightarrow> bdfs \<times> console \<Rightarrow> (bdfs \<times> console) option" where
  "touch_command fname = (\<lambda>(fs, k).
     do { (r, fs') \<leftarrow> bdfs_create_file fname fs;
          k' \<leftarrow> (if r = 0 then report ''File '' fname '' created.'' COLOR_SUCCESS k
                else report ''Error creating file '' fname ''.'' COLOR_ERROR k);
          Some (fs', k') })"

definition write_command :: "buf \<Rightarrow> buf \<Rightarrow> bdfs \<times> console \<Rightarrow> (bdfs \<times> console) option" where
  "write_command fname data = (\<lambda>(fs, k).
     do { n \<leftarrow> strlen data;
          (r, fs') \<leftarrow> bdfs_write_file fname data (of_nat n) fs;
          k' \<leftarrow> (if r > 0 then report ''Wrote to file '' fname ''.'' COLOR_SUCCESS k
                else report ''Error writing to file '' fname ''.'' COLOR_ERROR k);
          Some (fs', k') })"

text \<open>The buffer of \<^verbatim>\<open>cat\<close> is cleared before it is used; the loop prints \<^verbatim>\<open>bytes_read\<close> bytes of it.\<close>

definition cat_command :: "buf \<Rightarrow> bdfs \<times> console \<Rightarrow> (bdfs \<times> console) option" where
  "cat_command fname = (\<lambda>(fs, k).
     do { (r, bytes_read, b) \<leftarrow> bdfs_read_file fname (replicate 1024 0) fs;
          if r = 0
          then do { n \<leftarrow> bytes_read;
                    k1 \<leftarrow> foldM (\<lambda>i k. do { c \<leftarrow> rd b i; print_char c COLOR_FILE k }) [0..<unat n] k;
                    k2 \<leftarrow> kprintf (line '''') [] k1;
                    Some (fs, k2) }
          else do { k1 \<leftarrow> report ''Error reading from file '' fname ''.'' COLOR_ERROR k; Some (fs, k1) } })"

definition rm_command :: "buf \<Rightarrow> bdfs \<times> console \<Rightarrow> (bdfs \<times> console) option" where
  "rm_command fname = (\<lambda>(fs, k).
     do { (r, fs') \<leftarrow> bdfs_delete_file fname fs;
          k' \<leftarrow> (if r = 0 then report '' File '' fname '' deleted.'' COLOR_SUCCESS k
                else report ''Error deleting file '' fname ''.'' COLOR_ERROR k);
          Some (fs', k') })"

definition mv_command :: "buf \<Rightarrow> buf \<Rightarrow> bdfs \<times> console \<Rightarrow> (bdfs \<times> console) option" where
  "mv_command old_name new_name = (\<lambda>(fs, k).
     do { (r, fs') \<leftarrow> bdfs_rename_file old_name new_name fs;
          k' \<leftarrow> (if r = 0
                then prints [(bytes ''File '' @ [39, 0], COLOR_SUCCESS), (old_name, COLOR_SUCCESS),
                             ([39] @ bytes '' renamed to '' @ [39, 0], COLOR_SUCCESS), (new_name, COLOR_SUCCESS),
                             ([39] @ line ''.'', COLOR_SUCCESS)] k
                else if r = -2 then report ''Error: Source file '' old_name '' not found.'' COLOR_ERROR k
                else if r = -3 then report ''Error: Destination file '' new_name '' already exists.'' COLOR_ERROR k
                else report ''Error renaming file '' old_name ''.'' COLOR_ERROR k);
          Some (fs', k') })"

definition mkdir_command :: "buf \<Rightarrow> bdfs \<times> console \<Rightarrow> (bdfs \<times> console) option" where
  "mkdir_command dname = (\<lambda>(fs, k).
     do { (r, fs') \<leftarrow> bdfs_mkdir dname fs;
          k' \<leftarrow> (if r = 0 then report ''Directory '' dname '' created.'' COLOR_SUCCESS k
                else if r = -2 then report ''Error: '' dname '' already exists.'' COLOR_ERROR k
                else report ''Error creating directory '' dname ''.'' COLOR_ERROR k);
          Some (fs', k') })"

definition cd_command :: "buf \<Rightarrow> bdfs \<times> console \<Rightarrow> (bdfs \<times> console) option" where
  "cd_command dname = (\<lambda>(fs, k).
     do { (r, fs') \<leftarrow> bdfs_chdir dname fs;
          k' \<leftarrow> (if r = -1 then report ''Error: Directory '' dname '' not found.'' COLOR_ERROR k
                else if r = -2 then report ''Error: '' dname '' is not a directory.'' COLOR_ERROR k
                else Some k);
          Some (fs', k') })"

definition echo_command :: "buf option \<Rightarrow> console \<Rightarrow> console option" where
  "echo_command txt k =
     (case txt of None \<Rightarrow> Some k | Some t \<Rightarrow> do { k1 \<leftarrow> print t COLOR_INPUT k; print (line '''') COLOR_INPUT k1 })"

definition on_files :: "(bdfs \<times> console \<Rightarrow> (bdfs \<times> console) option) \<Rightarrow> system \<Rightarrow> system option" where
  "on_files f s = do { (fs, k) \<leftarrow> f (files s, screen s); Some (s\<lparr>files := fs, screen := k\<rparr>) }"

subsection \<open>Dispatch\<close>

datatype command = Help | Clear | Meminfo | Time | Halt | Reboot | Shutdown | Sysinfo | Ls | Touch | Wr | Echo | Cat
  | Edit | Rm | Mv | Md | Cd | Calc | Pulse | Chrome | Applist

definition command_table :: "(string \<times> command) list" where
  "command_table =
     [(''help'', Help), (''clear'', Clear), (''meminfo'', Meminfo), (''time'', Time), (''halt'', Halt), (''reboot'', Reboot),
      (''shutdown'', Shutdown), (''sysinfo'', Sysinfo), (''ls'', Ls), (''touch'', Touch), (''write'', Wr), (''echo'', Echo),
      (''cat'', Cat), (''cable'', Edit), (''rm'', Rm), (''mv'', Mv), (''mkdir'', Md), (''cd'', Cd), (''calc'', Calc),
      (''pulse'', Pulse), (''chrome'', Chrome), (''applist'', Applist)]"

text \<open>The chain of comparisons of the first word, in the order of the source.\<close>

fun find_command :: "buf \<Rightarrow> (string \<times> command) list \<Rightarrow> command option option" where
  "find_command token [] = Some None"
| "find_command token ((w, c) # rest) =
     do { r \<leftarrow> strcmp token (lit w); if r = 0 then Some (Some c) else find_command token rest }"

text \<open>
  One or two arguments: each is the pointer that \<^verbatim>\<open>strtok(NULL, ...)\<close> returns into the local copy
  \<open>cmd\<close> of the line, whose static position is \<open>st\<close>; a missing one gives the usage message.
\<close>

definition with_arg :: "string \<Rightarrow> (buf \<Rightarrow> system \<Rightarrow> (system + system) option) \<Rightarrow> string \<Rightarrow> buf \<Rightarrow> nat option \<Rightarrow> system \<Rightarrow> (system + system) option" where
  "with_arg ds f usage cmd st s =
     do { (t, cmd', _) \<leftarrow> strtok None (lit ds) cmd st;
          case t of
            Some p \<Rightarrow> f (drop p cmd') s
          | None \<Rightarrow> map_option Inr (on_screen (print (line (''Usage: '' @ usage)) COLOR_ERROR) s) }"

definition with_args :: "string \<Rightarrow> (buf \<Rightarrow> buf \<Rightarrow> system \<Rightarrow> (system + system) option) \<Rightarrow> string \<Rightarrow> buf \<Rightarrow> nat option \<Rightarrow> system \<Rightarrow> (system + system) option" where
  "with_args ds f usage cmd st s =
     do { (t1, cmd1, st1) \<leftarrow> strtok None (lit '' '') cmd st;
          (t2, cmd2, _) \<leftarrow> strtok None (lit ds) cmd1 st1;
          case (t1, t2) of
            (Some p, Some q) \<Rightarrow> f (drop p cmd2) (drop q cmd2) s
          | _ \<Rightarrow> map_option Inr (on_screen (print (line (''Usage: '' @ usage)) COLOR_ERROR) s) }"

definition run_cable :: "env \<Rightarrow> buf \<Rightarrow> system \<Rightarrow> (system + system) option" where
  "run_cable v fname s =
     do { (running, e, fs, k) \<leftarrow> cable_main (file_bytes v) (draw_bytes v) (save_bytes v) (call_bytes v) fname (typed v)
            (ed s, files s, screen s);
          let s' = s\<lparr>ed := e, files := fs, screen := k\<rparr>;
          if running then Some (Inl s') else map_option Inr (on_screen (clear_screen COLOR_SYSTEM) s') }"

fun run_command :: "env \<Rightarrow> command \<Rightarrow> buf \<Rightarrow> nat option \<Rightarrow> system \<Rightarrow> (system + system) option" where
  "run_command v Help cmd st s = map_option Inr (on_screen help_command s)"
| "run_command v Clear cmd st s = map_option Inr (on_screen clear_command s)"
| "run_command v Meminfo cmd st s = map_option Inr (on_screen (meminfo_command (frames s)) s)"
| "run_command v Time cmd st s = map_option Inr (on_screen (time_command (intr s)) s)"
| "run_command v Halt cmd st s = map_option Inr (halt_command v s)"
| "run_command v Reboot cmd st s = map_option Inr (on_screen (reboot_command (dev v)) s)"
| "run_command v Shutdown cmd st s = map_option Inr (on_screen shutdown_command s)"
| "run_command v Sysinfo cmd st s = map_option Inr (on_screen (sysinfo_command v s) s)"
| "run_command v Ls cmd st s = map_option Inr (on_screen (ls_command (files s)) s)"
| "run_command v Touch cmd st s = with_arg '' '' (\<lambda>a s. map_option Inr (on_files (touch_command a) s)) ''touch <filename>'' cmd st s"
| "run_command v Wr cmd st s = with_args '''' (\<lambda>a b s. map_option Inr (on_files (write_command a b) s)) ''write <filename> <data>'' cmd st s"
| "run_command v Echo cmd st s =
     do { (t, cmd', _) \<leftarrow> strtok None (lit '''') cmd st;
          map_option Inr (on_screen (echo_command (map_option (\<lambda>p. drop p cmd') t)) s) }"
| "run_command v Cat cmd st s = with_arg '' '' (\<lambda>a s. map_option Inr (on_files (cat_command a) s)) ''cat <filename>'' cmd st s"
| "run_command v Edit cmd st s = with_arg '' '' (run_cable v) ''cable <filename>'' cmd st s"
| "run_command v Rm cmd st s = with_arg '' '' (\<lambda>a s. map_option Inr (on_files (rm_command a) s)) ''rm <filename>'' cmd st s"
| "run_command v Mv cmd st s = with_args '' '' (\<lambda>a b s. map_option Inr (on_files (mv_command a b) s)) ''mv <source> <destination>'' cmd st s"
| "run_command v Md cmd st s = with_arg '' '' (\<lambda>a s. map_option Inr (on_files (mkdir_command a) s)) ''mkdir <dirname>'' cmd st s"
| "run_command v Cd cmd st s = with_arg '' '' (\<lambda>a s. map_option Inr (on_files (cd_command a) s)) ''cd <dirname>'' cmd st s"
| "run_command v Calc cmd st s = with_arg '''' (\<lambda>a s. map_option Inr (on_screen (calculator_main a) s)) ''calc <expression>'' cmd st s"
| "run_command v Pulse cmd st s = map_option Inr (on_screen (pulse_command (frames s) (intr s)) s)"
| "run_command v Chrome cmd st s = map_option Inr (on_screen (pci_list_devices (dev v)) s)"
| "run_command v Applist cmd st s = map_option Inr (on_screen applist_command s)"

text \<open>What happens to a line that is not a command: a program is run, anything else is reported.\<close>

definition run_other :: "env \<Rightarrow> buf \<Rightarrow> system \<Rightarrow> system option" where
  "run_other v command s =
     do { n \<leftarrow> strlen command;
          if n > 0
          then do { bdx \<leftarrow> ends_with (Some command) (Some (lit ''.bdx''));
                    if bdx
                    then do { (r, fs, k) \<leftarrow> execute_bdx command (bdx_bytes v) (files s) (screen s);
                              let s' = s\<lparr>files := fs, screen := k\<rparr>;
                              if r \<noteq> 0
                              then on_screen (prints [(lit ''Error executing '', COLOR_ERROR), (command, COLOR_ERROR), (line '''', COLOR_ERROR)]) s'
                              else Some s' }
                    else on_screen (prints [(lit ''Unknown command: '', COLOR_ERROR), (command, COLOR_ERROR), (line '''', COLOR_ERROR)]) s }
          else Some s }"

definition process_command :: "env \<Rightarrow> buf \<Rightarrow> system \<Rightarrow> (system + system) option" where
  "process_command v command s =
     do { cmd \<leftarrow> strcpy (take MAX_COMMAND_LENGTH (cmd_bytes v)) 0 command;
          (t, cmd', st) \<leftarrow> strtok (Some 0) (lit '' '') cmd None;
          token \<leftarrow> t;
          c \<leftarrow> find_command (drop token cmd') command_table;
          case c of
            Some c \<Rightarrow> run_command v c cmd' st s
          | None \<Rightarrow> map_option Inr (run_other v command s) }"

subsection \<open>The main loop\<close>

definition print_prompt :: "env \<Rightarrow> system \<Rightarrow> system option" where
  "print_prompt v s =
     do { dir_name \<leftarrow> bdfs_get_current_dir_name (take 16 (dir_bytes v)) (files s);
          on_screen (prints [(dir_name, COLOR_PROMPT), (lit ''> '', COLOR_PROMPT)]) s }"

text \<open>The end of a line: the command is run, the buffer is cleared and the next prompt appears.\<close>

definition enter_line :: "env \<Rightarrow> system \<Rightarrow> (system + system) option" where
  "enter_line v s =
     do { b \<leftarrow> wr (command_buffer s) (command_len s) 0;
          s1 \<leftarrow> on_screen (print (line '''') COLOR_INPUT) (s\<lparr>command_buffer := b\<rparr>);
          and_then (process_command v (command_buffer s1) s1) (\<lambda>s2.
            do { b' \<leftarrow> memset (command_buffer s2) 0 0 MAX_COMMAND_LENGTH;
                 s3 \<leftarrow> print_prompt v (s2\<lparr>command_len := 0, command_buffer := b'\<rparr>);
                 Some (Inr s3) }) }"

definition shell_char :: "env \<Rightarrow> byte \<Rightarrow> system \<Rightarrow> (system + system) option" where
  "shell_char v c s =
     (if c = 0x48 then map_option Inr (on_screen scroll_up s)
      else if c = 0x50 then map_option Inr (on_screen scroll_down s)
      else if c = 10 then enter_line v s
      else if c = 8
      then if command_len s > 0 then map_option Inr (on_screen print_backspace (s\<lparr>command_len := command_len s - 1\<rparr>))
           else Some (Inr s)
      else if command_len s < MAX_COMMAND_LENGTH - 1
      then do { b \<leftarrow> wr (command_buffer s) (command_len s) c;
                map_option Inr (on_screen (print_char c COLOR_INPUT) (s\<lparr>command_buffer := b, command_len := command_len s + 1\<rparr>)) }
      else Some (Inr s))"

text \<open>
  One pass of the loop: without a character the processor is idle until the interrupts of
  \<open>arriving\<close> have come; a character is handled.
\<close>

definition shell_step :: "env \<Rightarrow> system \<Rightarrow> (system + system) option" where
  "shell_step v s =
     (let (c, kb) = keyboard_get_char (keyboard (intr s)); s1 = s\<lparr>intr := (intr s)\<lparr>keyboard := kb\<rparr>\<rparr> in
      if c = 0
      then do { (i, h) \<leftarrow> cpu_idle (dev v) (arriving v) (intr s1, ports (screen s1));
                Some (Inr (s1\<lparr>intr := i, screen := (screen s1)\<lparr>ports := h\<rparr>\<rparr>)) }
      else shell_char v c s1)"

text \<open>The start of the shell, and its endless loop cut after the passes for which \<open>vs\<close> gives the environments.\<close>

definition start_shell :: "env \<Rightarrow> env list \<Rightarrow> system \<Rightarrow> (system + system) option" where
  "start_shell v vs s =
     do { s1 \<leftarrow> on_screen (print (line ''Welcome to BrainDance OS'') COLOR_PROMPT) s;
          s2 \<leftarrow> print_prompt v s1;
          for_each shell_step vs s2 }"

end
