(* ===== verification/Shell_Props.thy ===== *)
theory Shell_Props
  imports Shell
begin

text \<open>
  What the shell promises.  The reference is a line editor on lists of characters and a reading of
  a line as file-system calls; the main theorem says that a session of typed characters leaves the
  file system exactly as those calls do, and that nothing the user types in plain commands breaks
  an invariant of the console, the file system or the command buffer.
\<close>

section \<open>Messages\<close>

lemmas con_bind = bind_inv [where P = con_inv and Q = con_inv]

lemma prints_inv [inv_intros]:
  "con_inv k \<Longrightarrow> \<forall>(t, color) \<in> set ms. terminated t \<Longrightarrow> \<exists>k'. prints ms k = Some k' \<and> con_inv k'"
proof (induction ms arbitrary: k)
  case (Cons m ms)
  obtain t color where m: "m = (t, color)" by (cases m)
  have "terminated t" using Cons.prems(2) m by simp
  then obtain k1 where k1: "print t color k = Some k1" "con_inv k1" using print_inv Cons.prems(1) by blast
  obtain k' where "prints ms k1 = Some k'" "con_inv k'" using Cons.IH [OF k1(2)] Cons.prems(2) by auto
  then show ?case using m k1 by (simp add: prints_def)
qed (simp add: prints_def)

lemma quoted_terminated [simp]: "terminated (bytes b @ [39, 0])" "terminated (39 # line a)" "terminated (bytes b @ [10, 0])"
  by (simp_all add: terminated_def line_def)

lemma report_inv [inv_intros]:
  "con_inv k \<Longrightarrow> terminated nm \<Longrightarrow> \<exists>k'. report b nm a color k = Some k' \<and> con_inv k'"
  unfolding report_def by (rule prints_inv) simp_all

lemma help_inv: "con_inv k \<Longrightarrow> \<exists>k'. help_command k = Some k' \<and> con_inv k'"
  unfolding help_command_def by (rule prints_inv) simp_all

lemma applist_inv: "con_inv k \<Longrightarrow> \<exists>k'. applist_command k = Some k' \<and> con_inv k'"
  unfolding applist_command_def by (rule prints_inv) simp_all

lemma meminfo_inv: "con_inv k \<Longrightarrow> \<exists>k'. meminfo_command p k = Some k' \<and> con_inv k'"
  unfolding meminfo_command_def by (intro con_bind print_inv print_number_inv) simp_all

lemma print_two_inv: "con_inv k \<Longrightarrow> \<exists>k'. print_two n k = Some k' \<and> con_inv k'"
  unfolding print_two_def by (rule bind_inv [where P = con_inv]) (auto intro: print_inv print_number_inv)

lemma time_inv: "con_inv k \<Longrightarrow> \<exists>k'. time_command i k = Some k' \<and> con_inv k'"
  unfolding time_command_def Let_def by (intro con_bind print_inv print_two_inv) simp_all

lemma sysinfo_inv: "con_inv k \<Longrightarrow> \<exists>k'. sysinfo_command v s k = Some k' \<and> con_inv k'"
  unfolding sysinfo_command_def Let_def
  by (intro con_bind print_inv kprintf_inv) (simp_all add: line_def bytes_def)

lemma shutdown_inv: "con_inv k \<Longrightarrow> \<exists>k'. shutdown_command k = Some k' \<and> con_inv k'"
  unfolding shutdown_command_def by (rule bind_inv [OF print_inv]) (simp_all add: con_inv_def)

lemma usage_bar_inv: "con_inv k \<Longrightarrow> \<exists>k'. usage_bar n k = Some k' \<and> con_inv k'"
proof -
  have "\<exists>k'. foldM (\<lambda>i. if int i < sint n then print (lit ''#'') 0x0A else print (lit ''-'') 0x05) xs k = Some k' \<and> con_inv k'"
    if "con_inv k" for xs k using that
  proof (induction xs arbitrary: k)
    case (Cons x xs)
    obtain k1 where "(if int x < sint n then print (lit ''#'') 0x0A else print (lit ''-'') 0x05) k = Some k1" "con_inv k1"
      using print_inv [OF Cons.prems lit_terminated] by (cases "int x < sint n") auto
    then show ?case using Cons.IH by auto
  qed simp
  then show "con_inv k \<Longrightarrow> ?thesis" unfolding usage_bar_def by blast
qed

definition total_mb :: "pmm \<Rightarrow> u32" where
  "total_mb p = pmm_get_total_memory p div 1024 div 1024"

lemma pulse_inv:
  assumes "con_inv k" "total_mb p \<noteq> 0"
  shows "\<exists>k'. pulse_command p i k = Some k' \<and> con_inv k'"
proof -
  have d: "idiv x 100 = Some (word_of_int (sint x sdiv 100))" for x by (simp add: idiv_def)
  show ?thesis
    unfolding pulse_command_def Let_def d total_mb_def [symmetric]
    apply (simp only: assms(2) if_False Option.bind.simps)
    apply (intro con_bind print_inv usage_bar_inv kprintf_inv assms(1))
                 apply (simp_all add: line_def bytes_def)
    done
qed

lemma echo_inv:
  "con_inv k \<Longrightarrow> (\<And>t. a = Some t \<Longrightarrow> terminated t) \<Longrightarrow> \<exists>k'. echo_command a k = Some k' \<and> con_inv k'"
  unfolding echo_command_def by (cases a) (auto intro!: bind_inv [OF print_inv] print_inv)

lemma dir_color_Some: "terminated nm \<Longrightarrow> \<exists>c. dir_color nm = Some c"
proof -
  assume t: "terminated nm"
  have "\<exists>r. strcmp nm (lit w) = Some r" for w using strcmp_Some [OF t lit_terminated] .
  then obtain r where "\<And>w. strcmp nm (lit w) = Some (r w)" by metis
  then show ?thesis by (simp add: dir_color_def)
qed


lemma list_entry_inv:
  assumes "con_inv k" "entry_wf e"
  shows "\<exists>k'. list_entry cwd e k = Some k' \<and> con_inv k'"
proof -
  note t = assms(2) [unfolded entry_wf_def]
  obtain c where c: "dir_color (name e) = Some c" using dir_color_Some t by blast
  have d: "\<exists>k'. do { k1 \<leftarrow> print (lit ''d '') c k; k2 \<leftarrow> print (name e) c k1; print [10, 0] c k2 } = Some k' \<and> con_inv k'"
    using t by (intro con_bind print_inv assms(1)) simp_all
  have f: "\<exists>k'. do { k1 \<leftarrow> print (lit ''- '') 0x07 k; k2 \<leftarrow> print (name e) 0x07 k1; k3 \<leftarrow> print (lit '' ('') 0x09 k2;
      k4 \<leftarrow> print_int (flength e) 0x09 k3; print (bytes '' bytes)'' @ [10, 0]) 0x09 k4 } = Some k' \<and> con_inv k'"
    using t by (intro con_bind print_inv print_number_inv assms(1)) simp_all
  show ?thesis
    using d f assms(1) t unfolding list_entry_def entry_wf_name0 [OF assms(2)] c by (simp del: print.simps)
qed

interpretation listing: safe_step "list_entry cwd" con_inv entry_wf for cwd
  by unfold_locales (rule list_entry_inv)

lemma ls_inv:
  assumes "con_inv k" "fs_inv fs"
  shows "\<exists>k'. ls_command fs k = Some k' \<and> con_inv k'"
proof -
  note f = fs_invD [OF assms(2)]
  have e: "rd (file_table fs) (unat (current_dir_inode fs)) = Some (file_table fs ! unat (current_dir_inode fs))"
    using f(2,4) by simp
  have t: "terminated (name (file_table fs ! unat (current_dir_inode fs)))" using table_invD(5) [OF f(1,4)] .
  have "list_all entry_wf (file_table fs)" using table_invD(2) [OF f(1)] by (simp add: list_all_iff)
  then show ?thesis
    unfolding ls_command_def bdfs_list_files_def e Option.bind.simps
    using t by (intro con_bind print_inv listing.run_safe assms(1)) simp_all
qed

section \<open>File commands\<close>

text \<open>A command makes one file-system call and otherwise only prints.\<close>

definition performs :: "fs_op \<Rightarrow> (bdfs \<times> console \<Rightarrow> (bdfs \<times> console) option) \<Rightarrow> bool" where
  "performs op f \<longleftrightarrow> (\<forall>fs k. fs_inv fs \<and> con_inv k \<longrightarrow>
     (\<exists>fs' k'. fs_apply op fs = Some fs' \<and> fs_inv fs' \<and> f (fs, k) = Some (fs', k') \<and> con_inv k'))"

lemma performsI:
  assumes "op_ok op"
    and "\<And>fs k. fs_inv fs \<Longrightarrow> f (fs, k) = do { (r, fs') \<leftarrow> fs_call op fs; k' \<leftarrow> g r k; Some (fs', k') }"
    and "\<And>r k. con_inv k \<Longrightarrow> \<exists>k'. g r k = Some k' \<and> con_inv k'"
  shows "performs op f"
proof -
  have "\<exists>fs' k'. fs_apply op fs = Some fs' \<and> fs_inv fs' \<and> f (fs, k) = Some (fs', k') \<and> con_inv k'"
    if i: "fs_inv fs" "con_inv k" for fs k
  proof -
    obtain r fs' where c: "fs_call op fs = Some (r, fs')" "fs_inv fs'" using fs_call_inv [OF i(1) assms(1)] by blast
    obtain k' where "g r k = Some k'" "con_inv k'" using assms(3) [OF i(2)] by blast
    then show ?thesis using c assms(2) [OF i(1)] by (simp add: fs_apply_def)
  qed
  then show ?thesis unfolding performs_def by blast
qed

text \<open>Only the C string of an argument counts.\<close>

lemma cstr_cut [simp]: "cstr (cstr a @ [0]) = cstr a"
  by (simp add: cstr_append_zero)

lemma lookup_cstr: "lookup (cstr a @ [0]) = lookup a"
  by (intro ext) (simp add: lookup_def matches_def [abs_def])

lemma named_cstr: "named (cstr a @ [0]) = named a"
  by (intro ext) (simp add: named_def)

text \<open>The calls on the cut argument.\<close>

lemma calls_cstr:
  assumes "fs_inv fs" "terminated a" "terminated b"
  shows "bdfs_create_file (cstr a @ [0]) fs = bdfs_create_file a fs" "bdfs_mkdir (cstr a @ [0]) fs = bdfs_mkdir a fs"
    "bdfs_delete_file (cstr a @ [0]) fs = bdfs_delete_file a fs" "bdfs_chdir (cstr a @ [0]) fs = bdfs_chdir a fs"
    "bdfs_rename_file (cstr a @ [0]) (cstr b @ [0]) fs = bdfs_rename_file a b fs"
  using assms
  by (simp_all add: create_file_eq mkdir_eq delete_eq chdir_eq rename_eq lookup_cstr named_cstr fresh_entry_def split: option.splits)

lemma performs_touch: "terminated a \<Longrightarrow> performs (Create (cstr a @ [0])) (touch_command a)"
  by (rule performsI [where g = "\<lambda>r k. if r = 0 then report ''File '' a '' created.'' 0x0A k
        else report ''Error creating file '' a ''.'' 0x04 k"])
    (simp_all add: touch_command_def calls_cstr report_inv)

lemma performs_rm: "terminated a \<Longrightarrow> performs (Delete (cstr a @ [0])) (rm_command a)"
  by (rule performsI [where g = "\<lambda>r k. if r = 0 then report '' File '' a '' deleted.'' 0x0A k
        else report ''Error deleting file '' a ''.'' 0x04 k"])
    (simp_all add: rm_command_def calls_cstr report_inv)

lemma performs_mkdir: "terminated a \<Longrightarrow> performs (Mkdir (cstr a @ [0])) (mkdir_command a)"
  by (rule performsI [where g = "\<lambda>r k. if r = 0 then report ''Directory '' a '' created.'' 0x0A k
        else if r = -2 then report ''Error: '' a '' already exists.'' 0x04 k
        else report ''Error creating directory '' a ''.'' 0x04 k"])
    (simp_all add: mkdir_command_def calls_cstr report_inv)

lemma performs_cd: "terminated a \<Longrightarrow> performs (Chdir (cstr a @ [0])) (cd_command a)"
  by (rule performsI [where g = "\<lambda>r k. if r = -1 then report ''Error: Directory '' a '' not found.'' 0x04 k
        else if r = -2 then report ''Error: '' a '' is not a directory.'' 0x04 k else Some k"])
    (simp_all add: cd_command_def calls_cstr report_inv)

lemma performs_mv:
  assumes "terminated a" "terminated b"
  shows "performs (Rename (cstr a @ [0]) (cstr b @ [0])) (mv_command a b)"
  using assms
  by (intro performsI [where g = "\<lambda>r k. if r = 0
      then prints [(bytes ''File '' @ [39, 0], 0x0A), (a, 0x0A), ([39] @ bytes '' renamed to '' @ [39, 0], 0x0A), (b, 0x0A),
             ([39] @ line ''.'', 0x0A)] k
      else if r = -2 then report ''Error: Source file '' a '' not found.'' 0x04 k
      else if r = -3 then report ''Error: Destination file '' b '' already exists.'' 0x04 k
      else report ''Error renaming file '' a ''.'' 0x04 k"])
    (simp_all add: mv_command_def calls_cstr report_inv prints_inv)

lemma performs_write:
  assumes "terminated a" "terminated b" "length (cstr b) < 2 ^ 31"
  shows "performs (Write (cstr a @ [0]) (cstr b) (of_nat (length (cstr b)))) (write_command a b)"
proof (rule performsI [where g = "\<lambda>r k. if r > 0 then report ''Wrote to file '' a ''.'' 0x0A k
      else report ''Error writing to file '' a ''.'' 0x04 k"])
  let ?n = "of_nat (length (cstr b)) :: u32"
  have n: "unat ?n = length (cstr b)" using assms(3) by (simp add: unat_of_nat_u32)
  show "op_ok (Write (cstr a @ [0]) (cstr b) ?n)" using assms n by simp
  have tk: "take (length (cstr b)) b = cstr b" by (simp add: cstr_def takeWhile_eq_take [symmetric])
  have w: "written i e b ?n fs = written i e (cstr b) ?n fs" for i e fs by (simp add: written_def n tk)
  have le: "length (cstr b) \<le> length b" using length_cstr_less [OF assms(2)] by simp
  show "write_command a b (fs, k) = do { (r, fs') \<leftarrow> fs_call (Write (cstr a @ [0]) (cstr b) ?n) fs;
      k' \<leftarrow> (if r > 0 then report ''Wrote to file '' a ''.'' 0x0A k else report ''Error writing to file '' a ''.'' 0x04 k); Some (fs', k') }"
    if "fs_inv fs" for fs k
    using that assms le by (simp add: write_command_def strlen_eq write_eq lookup_cstr n w split: option.splits)
qed (use assms(1) in \<open>auto intro: report_inv\<close>)


section \<open>Reading a line\<close>

text \<open>
  The contract of the tokeniser for its clients: on the string at the saved position it finds the
  next word, which can then be read at the returned pointer, or reports that there is none.
\<close>

lemma strtok_next:
  assumes "terminated ds" "terminated (drop p b)" "next_token (set (cstr ds)) (cstr (drop p b)) = (tok, rest)"
  obtains q where "tok = []" "strtok None ds b (Some p) = Some (None, b, Some q)" "terminated (drop q b)" "cstr (drop q b) = []"
  | t b' q where "tok \<noteq> []" "strtok None ds b (Some p) = Some (Some t, b', Some q)" "length b' = length b"
      "cstr (drop t b') = tok" "terminated (drop t b')" "cstr (drop q b') = rest" "terminated (drop q b')"
      "p \<le> t" "t + length tok \<le> q" "\<forall>k < t. b' ! k = b ! k"
proof (cases "tok = []")
  case True
  then show ?thesis using strtok_no_token [OF assms(1,2)] assms(3) that(1) by (auto simp: strtok_resume [of ds b p None])
next
  case False
  then show ?thesis
    using strtok_token [OF assms False, of None] that(2) by (auto simp: strtok_resume [of ds b p None])
qed

text \<open>An earlier word survives the next call: its terminator lies before the new word.\<close>

lemma word_survives:
  assumes "terminated (drop t b)" "t + length (cstr (drop t b)) \<le> q" "cstr (drop q b) \<noteq> []" "q \<le> t'"
    and "\<forall>k < t'. b' ! k = b ! k" "length b' = length b" "t' < length b"
  shows "cstr (drop t b') = cstr (drop t b)" "terminated (drop t b')"
proof -
  let ?w = "cstr (drop t b)"
  note d = cstr_atD [OF assms(1)]
  have "t + length ?w \<noteq> q"
  proof
    assume "t + length ?w = q"
    then have "b ! q = 0" "q < length b" using d(1,3) by simp_all
    then have "drop q b = 0 # drop (Suc q) b" by (metis Cons_nth_drop_Suc)
    then show False using assms(3) by simp
  qed
  then have lt: "t + length ?w < t'" using assms(2,4) by simp
  have "chunk t (length ?w) b' = chunk t (length ?w) b"
    using lt assms(5-7) by (intro nth_equalityI) (auto simp: nth_chunk)
  then have "chunk t (length ?w) b' = ?w" using d(2) by simp
  moreover have "b' ! (t + length ?w) = 0" using d(3) lt assms(5) by simp
  ultimately show "cstr (drop t b') = ?w" "terminated (drop t b')"
    using cstr_at [of t ?w b'] lt assms(6,7) by simp_all
qed

text \<open>The empty delimiter string takes the rest of the line.\<close>

lemma next_token_rest: "next_token {} s = (s, [])"
proof -
  have d: "dropWhile (\<lambda>c. True) s = []" by (simp add: dropWhile_eq_Nil_conv)
  show ?thesis by (simp add: next_token_def d)
qed

lemma next_token_shorter: "next_token D s = (w, r) \<Longrightarrow> length r \<le> length s"
proof -
  assume "next_token D s = (w, r)"
  then have "length r = length (dropWhile (\<lambda>c. c \<notin> D) (dropWhile (\<lambda>c. c \<in> D) s)) - 1" by (auto simp: next_token_def Let_def)
  also have "\<dots> \<le> length (dropWhile (\<lambda>c. c \<in> D) s)" using length_dropWhile_le [of "\<lambda>c. c \<notin> D" "dropWhile (\<lambda>c. c \<in> D) s"] by linarith
  also have "\<dots> \<le> length s" by (rule length_dropWhile_le)
  finally show "length r \<le> length s" .
qed

lemma cstr_lit [simp]: "0 \<notin> set (bytes w) \<Longrightarrow> cstr (lit w) = bytes w"
  by (simp add: lit_def cstr_append_zero)

lemma cstr_lit_blank: "cstr (lit '' '') = [32]" "cstr (lit '''') = []"
  by (simp_all add: lit_def bytes_def)

text \<open>The command that the first word names.\<close>

definition command_of :: "buf \<Rightarrow> command option" where
  "command_of w = map_of (map (\<lambda>(s, c). (bytes s, c)) command_table) w"

lemma find_command_map:
  "terminated t \<Longrightarrow> \<forall>(w, c) \<in> set tb. 0 \<notin> set (bytes w) \<Longrightarrow>
   find_command t tb = Some (map_of (map (\<lambda>(s, c). (bytes s, c)) tb) (cstr t))"
proof (induction tb)
  case (Cons e tb)
  obtain w c where e: "e = (w, c)" by (cases e)
  obtain r where r: "strcmp t (lit w) = Some r" "r = 0 \<longleftrightarrow> cstr t = cstr (lit w)"
    using strcmp_cases [OF Cons.prems(1) lit_terminated] .
  have "cstr (lit w) = bytes w" using Cons.prems(2) e by simp
  then show ?case using Cons e r by auto
qed simp

lemma find_command_eq: "terminated t \<Longrightarrow> find_command t command_table = Some (command_of (cstr t))"
  unfolding command_of_def by (rule find_command_map) (simp_all add: command_table_def bytes_def)


section \<open>What a line does\<close>

text \<open>
  The reading of a line: its first word, up to two further words, and the rest of the line behind
  the second word; a line stands for at most one file-system call.
\<close>

definition command_ops :: "command \<Rightarrow> buf \<Rightarrow> buf \<Rightarrow> buf \<Rightarrow> fs_op list" where
  "command_ops c a b rest =
     (if a = [] then []
      else case c of
        Touch \<Rightarrow> [Create (a @ [0])]
      | Rm \<Rightarrow> [Delete (a @ [0])]
      | Md \<Rightarrow> [Mkdir (a @ [0])]
      | Cd \<Rightarrow> [Chdir (a @ [0])]
      | Mv \<Rightarrow> if b = [] then [] else [Rename (a @ [0]) (b @ [0])]
      | Wr \<Rightarrow> if rest = [] then [] else [Write (a @ [0]) rest (of_nat (length rest))]
      | _ \<Rightarrow> [])"

definition line_ops :: "buf \<Rightarrow> fs_op list" where
  "line_ops l =
     (let (w, r) = next_token {32} l; (a, r1) = next_token {32} r; (b, _) = next_token {32} r1 in
      case command_of w of None \<Rightarrow> [] | Some c \<Rightarrow> command_ops c a b r1)"

text \<open>
  The lines whose handling is safe whatever the state: a first word that is no command (and the
  line no program), or a command other than \<^verbatim>\<open>cat\<close>, \<^verbatim>\<open>cable\<close>, \<^verbatim>\<open>calc\<close> and \<^verbatim>\<open>reboot\<close>.
\<close>

definition plain_line :: "buf \<Rightarrow> bool" where
  "plain_line l =
     (let w = fst (next_token {32} l) in
      w \<noteq> [] \<and> (case command_of w of None \<Rightarrow> \<not> (\<exists>zs. l = zs @ bytes ''.bdx'')
                 | Some c \<Rightarrow> c \<notin> {Cat, Edit, Calc, Reboot}))"

definition sys_ok :: "system \<Rightarrow> bool" where
  "sys_ok s \<longleftrightarrow> fs_inv (files s) \<and> con_inv (screen s) \<and> intr_inv (intr s) \<and> total_mb (frames s) \<noteq> 0"

definition env_ok :: "env \<Rightarrow> bool" where
  "env_ok v \<longleftrightarrow> 256 \<le> length (cmd_bytes v) \<and> 16 \<le> length (dir_bytes v) \<and> (\<forall>n \<in> set (arriving v). 32 \<le> n \<and> n < 48)"

text \<open>A handler has run: it made the given calls, kept the invariants and left the command line alone.\<close>

definition handled :: "fs_op list \<Rightarrow> system \<Rightarrow> (system + system) option \<Rightarrow> bool" where
  "handled ops s r \<longleftrightarrow> (\<exists>s'. r = Some (Inr s') \<and> foldM fs_apply ops (files s) = Some (files s') \<and> sys_ok s' \<and>
     command_buffer s' = command_buffer s \<and> command_len s' = command_len s)"

lemma handled_screen:
  assumes "sys_ok s" "\<And>k. con_inv k \<Longrightarrow> \<exists>k'. f k = Some k' \<and> con_inv k'"
  shows "handled [] s (map_option Inr (on_screen f s))"
proof -
  obtain k' where "f (screen s) = Some k'" "con_inv k'" using assms by (auto simp: sys_ok_def)
  then show ?thesis using assms(1) by (simp add: handled_def on_screen_def sys_ok_def)
qed

lemma handled_files:
  assumes "sys_ok s" "performs op f"
  shows "handled [op] s (map_option Inr (on_files f s))"
proof -
  obtain fs' k' where "fs_apply op (files s) = Some fs'" "fs_inv fs'" "f (files s, screen s) = Some (fs', k')" "con_inv k'"
    using assms unfolding performs_def sys_ok_def by blast
  then show ?thesis using assms(1) by (simp add: handled_def on_files_def sys_ok_def)
qed

lemma handled_halt:
  assumes "sys_ok s" "env_ok v"
  shows "handled [] s (map_option Inr (halt_command v s))"
proof -
  obtain k where k: "print (line ''Halting system...'') 0x05 (screen s) = Some k" "con_inv k"
    using print_inv [of "screen s" "line ''Halting system...''"] assms(1) by (auto simp: sys_ok_def)
  obtain i h where "foldM (irq_handler (dev v)) (arriving v) (intr s, ports k) = Some (i, h)" "intr_inv i"
    using irqs.run_safe [of "(intr s, ports k)" "arriving v" "dev v"] assms by (auto simp: sys_ok_def env_ok_def list_all_iff)
  then show ?thesis using k assms(1) by (simp add: halt_command_def handled_def sys_ok_def con_inv_def)
qed


subsection \<open>Arguments\<close>

lemma handled_usage: "sys_ok s \<Longrightarrow> handled [] s (map_option Inr (on_screen (print (line u) color) s))"
  by (rule handled_screen) (simp_all add: print_inv)

lemma with_arg_handled:
  assumes "sys_ok s" "terminated (drop q cmd)"
    and n: "next_token (set (cstr (lit ds))) (cstr (drop q cmd)) = (tok, rest)"
    and f: "\<And>a. tok \<noteq> [] \<Longrightarrow> terminated a \<Longrightarrow> cstr a = tok \<Longrightarrow> handled ops s (f a s)"
  shows "handled (if tok = [] then [] else ops) s (with_arg ds f usage cmd (Some q) s)"
proof (cases rule: strtok_next [OF lit_terminated assms(2) n])
  case (1 q')
  then show ?thesis
    using handled_usage [OF assms(1)] by (simp add: with_arg_def)
next
  case (2 t b' q')
  then show ?thesis using f by (simp add: with_arg_def)
qed

lemma with_args_handled:
  assumes "sys_ok s" "terminated (drop q cmd)"
    and n1: "next_token {32} (cstr (drop q cmd)) = (tok, rest)"
    and n2: "next_token (set (cstr (lit ds))) rest = (tok', rest')"
    and f: "\<And>a b. tok \<noteq> [] \<Longrightarrow> tok' \<noteq> [] \<Longrightarrow> terminated a \<Longrightarrow> cstr a = tok \<Longrightarrow> terminated b \<Longrightarrow> cstr b = tok' \<Longrightarrow> handled ops s (f a b s)"
  shows "handled (if tok = [] \<or> tok' = [] then [] else ops) s (with_args ds f usage cmd (Some q) s)"
proof -
  note usage = handled_usage [OF assms(1)]
  have n: "next_token (set (cstr (lit '' ''))) (cstr (drop q cmd)) = (tok, rest)" using n1 by (simp add: cstr_lit_blank del: cstr_lit)
  show ?thesis
  proof (cases rule: strtok_next [OF lit_terminated assms(2) n])
    case (1 q1)
    have e: "next_token (set (cstr (lit ds))) (cstr (drop q1 cmd)) = ([], [])" using 1(4) by (simp add: next_token_def)
    show ?thesis
      using usage 1 by (cases rule: strtok_next [OF lit_terminated 1(3) e]) (auto simp: with_args_def)
  next
    case (2 t b1 q1)
    have n2': "next_token (set (cstr (lit ds))) (cstr (drop q1 b1)) = (tok', rest')" using n2 2(6) by simp
    show ?thesis
    proof (cases rule: strtok_next [OF lit_terminated 2(7) n2'])
      case (1 q2)
      then show ?thesis using usage 2 by (simp add: with_args_def)
    next
      case (2 t' b2 q2)
      note a = \<open>cstr (drop t b1) = tok\<close> \<open>terminated (drop t b1)\<close>
      have "cstr (drop q1 b1) \<noteq> []" using n2' 2(1) by (auto simp: next_token_def)
      moreover have "t' < length b1" using cstr_atD(1) [OF 2(5)] 2(3) by simp
      ultimately have "cstr (drop t b2) = tok" "terminated (drop t b2)"
        using word_survives [OF a(2), of q1 t' b2] a 2 \<open>t + length tok \<le> q1\<close> by simp_all
      then show ?thesis using f 2 \<open>tok \<noteq> []\<close> \<open>strtok None (lit '' '') cmd (Some q) = Some (Some t, b1, Some q1)\<close>
        by (simp add: with_args_def)
    qed
  qed
qed


subsection \<open>Commands\<close>

text \<open>A command of a plain line, from the position behind the first word.\<close>

lemma run_command_handled:
  assumes "sys_ok s" "env_ok v" "terminated (drop q cmd)" "c \<notin> {Cat, Edit, Calc, Reboot}"
    and n1: "next_token {32} (cstr (drop q cmd)) = (a, r1)" and n2: "next_token {32} r1 = (b, r2)"
    and len: "length r1 < 2 ^ 31"
  shows "handled (command_ops c a b r1) s (run_command v c cmd (Some q) s)"
proof -
  note scr = handled_screen [OF assms(1)] and fil = handled_files [OF assms(1)]
  have b1: "next_token (set (cstr (lit '' ''))) (cstr (drop q cmd)) = (a, r1)"
    and b2: "next_token (set (cstr (lit '' ''))) r1 = (b, r2)"
    and b3: "next_token (set (cstr (lit ''''))) r1 = (r1, [])"
    using n1 n2 by (simp_all add: cstr_lit_blank next_token_rest del: cstr_lit)
  note w1 = with_arg_handled [OF assms(1,3) b1] and w2 = with_args_handled [OF assms(1,3) n1]
  have one: "handled (if a = [] then [] else [h (a @ [0])]) s (with_arg '' '' (\<lambda>a s. map_option Inr (on_files (g a) s)) u cmd (Some q) s)"
    if "\<And>x. terminated x \<Longrightarrow> performs (h (cstr x @ [0])) (g x)" for h g u
    by (rule w1) (use that fil in auto)
  have echo: "handled [] s (run_command v Echo cmd (Some q) s)"
  proof -
    have e: "next_token (set (cstr (lit ''''))) (cstr (drop q cmd)) = (cstr (drop q cmd), [])"
      by (simp add: cstr_lit_blank next_token_rest del: cstr_lit)
    show ?thesis
    proof (cases rule: strtok_next [OF lit_terminated assms(3) e])
      case (1 q')
      then show ?thesis using scr [of "echo_command None"] echo_inv [of _ None] by simp
    next
      case (2 t b' q')
      then show ?thesis using scr [of "echo_command (Some (drop t b'))"] echo_inv [of _ "Some (drop t b')"] by simp
    qed
  qed
  show ?thesis
  proof (cases c)
    case Touch
    then show ?thesis using one [of Create touch_command, OF performs_touch] by (cases "a = []") (simp_all add: command_ops_def)
  next
    case Rm
    then show ?thesis using one [of Delete rm_command, OF performs_rm] by (cases "a = []") (simp_all add: command_ops_def)
  next
    case Md
    then show ?thesis using one [of Mkdir mkdir_command, OF performs_mkdir] by (cases "a = []") (simp_all add: command_ops_def)
  next
    case Cd
    then show ?thesis using one [of Chdir cd_command, OF performs_cd] by (cases "a = []") (simp_all add: command_ops_def)
  next
    case Mv
    have "handled (if a = [] \<or> b = [] then [] else [Rename (a @ [0]) (b @ [0])]) s (run_command v Mv cmd (Some q) s)"
      unfolding run_command.simps by (rule w2 [OF b2]) (use fil performs_mv in auto)
    then show ?thesis using Mv by (auto simp: command_ops_def split: if_splits)
  next
    case Wr
    have "handled (if a = [] \<or> r1 = [] then [] else [Write (a @ [0]) r1 (of_nat (length r1))]) s (run_command v Wr cmd (Some q) s)"
      unfolding run_command.simps by (rule w2 [OF b3]) (use fil performs_write len in auto)
    then show ?thesis using Wr by (auto simp: command_ops_def split: if_splits)
  next
    case Ls
    have "\<exists>k'. ls_command (files s) k = Some k' \<and> con_inv k'" if "con_inv k" for k
      using ls_inv [OF that] assms(1) by (simp add: sys_ok_def)
    then show ?thesis using Ls scr [of "ls_command (files s)"] by (simp add: command_ops_def)
  next
    case Pulse
    have "\<exists>k'. pulse_command (frames s) (intr s) k = Some k' \<and> con_inv k'" if "con_inv k" for k
      using pulse_inv [OF that] assms(1) by (simp add: sys_ok_def)
    then show ?thesis using Pulse scr [of "pulse_command (frames s) (intr s)"] by (simp add: command_ops_def)
  qed (use assms(4) echo handled_halt [OF assms(1,2)] scr [OF help_inv] scr [OF clear_screen_inv] scr [OF meminfo_inv]
      scr [OF time_inv] scr [OF shutdown_inv] scr [OF sysinfo_inv] scr [OF pci_list_devices_inv] scr [OF applist_inv]
      in \<open>simp_all add: clear_command_def command_ops_def\<close>)
qed


lemma run_other_handled:
  assumes "sys_ok s" "terminated l" "\<not> (\<exists>zs. cstr l = zs @ bytes ''.bdx'')"
  shows "handled [] s (map_option Inr (run_other v l s))"
proof (cases "cstr l = []")
  case True
  then show ?thesis using assms by (simp add: run_other_def strlen_eq handled_def)
next
  case False
  have c: "cstr (lit ''.bdx'') = bytes ''.bdx''" by (simp add: bytes_def)
  have e: "ends_with (Some l) (Some (lit ''.bdx'')) = Some False"
    using ends_with_eq [OF assms(2) lit_terminated [of "''.bdx''"]] assms(3) by (simp only: c)
  let ?m = "[(lit ''Unknown command: '', 4), (l, 4), (line '''', 4)]"
  have "\<exists>k'. prints ?m k = Some k' \<and> con_inv k'" if "con_inv k" for k
    using that assms(2) by (intro prints_inv) simp_all
  then show ?thesis using handled_screen [OF assms(1), of "prints ?m"] False assms(2) by (simp add: run_other_def strlen_eq e)
qed

text \<open>The way to the command: the first word is found, and the saved position reads as the rest of the line.\<close>

lemma process_command_eq:
  assumes "env_ok v" "terminated l" "length (cstr l) < 256" "next_token {32} (cstr l) = (w, r)" "w \<noteq> []"
  obtains cmd q where "terminated (drop q cmd)" "cstr (drop q cmd) = r"
    "process_command v l s = (case command_of w of Some c \<Rightarrow> run_command v c cmd (Some q) s | None \<Rightarrow> map_option Inr (run_other v l s))"
proof -
  let ?d = "take 256 (cmd_bytes v)"
  let ?cmd = "blit ?d 0 (cstr l @ [0])"
  have ld: "length ?d = 256" using assms(1) by (simp add: env_ok_def)
  have cp: "strcpy ?d 0 l = Some ?cmd" using strcpy_eq [OF assms(2), of 0 ?d] assms(3) ld by simp
  have t: "terminated (drop 0 ?cmd)" "cstr (drop 0 ?cmd) = cstr l"
    using cstr_append_zero [of "cstr l"] by (simp_all add: blit_def)
  have n: "next_token (set (cstr (lit '' ''))) (cstr (drop 0 ?cmd)) = (w, r)"
    using assms(4) t(2) by (simp add: cstr_lit_blank del: cstr_lit)
  obtain p cmd' q where st: "strtok (Some 0) (lit '' '') ?cmd None = Some (Some p, cmd', Some q)"
      "cstr (drop p cmd') = w" "terminated (drop p cmd')" "cstr (drop q cmd') = r" "terminated (drop q cmd')"
    using strtok_token [OF lit_terminated t(1) n assms(5), of None] by blast
  have "find_command (drop p cmd') command_table = Some (command_of w)" using find_command_eq [OF st(3)] st(2) by simp
  then show ?thesis
    using that [OF st(5,4)] unfolding process_command_def by (simp add: cp st(1) del: find_command.simps)
qed

text \<open>The handling of a whole plain line.\<close>

lemma process_command_handled:
  assumes "sys_ok s" "env_ok v" "terminated l" "length (cstr l) < 256" "plain_line (cstr l)"
  shows "handled (line_ops (cstr l)) s (process_command v l s)"
proof -
  obtain w r where w: "next_token {32} (cstr l) = (w, r)" by fastforce
  obtain a r1 where a: "next_token {32} r = (a, r1)" by fastforce
  obtain b r2 where b: "next_token {32} r1 = (b, r2)" by fastforce
  have w0: "w \<noteq> []" using assms(5) w by (simp add: plain_line_def)
  obtain cmd q where q: "terminated (drop q cmd)" "cstr (drop q cmd) = r"
    and pc: "process_command v l s = (case command_of w of Some c \<Rightarrow> run_command v c cmd (Some q) s | None \<Rightarrow> map_option Inr (run_other v l s))"
    using process_command_eq [OF assms(2-4) w w0] by blast
  have "length r \<le> length (cstr l)" "length r1 \<le> length r" using next_token_shorter w a by blast+
  then have len: "length r1 < 2 ^ 31" using assms(4) by simp
  show ?thesis
  proof (cases "command_of w")
    case None
    then show ?thesis
      using run_other_handled [OF assms(1,3)] assms(5) w a b pc by (simp add: plain_line_def line_ops_def)
  next
    case (Some c)
    have "c \<notin> {Cat, Edit, Calc, Reboot}" using assms(5) w Some by (simp add: plain_line_def)
    then have "handled (command_ops c a b r1) s (run_command v c cmd (Some q) s)"
      using run_command_handled [OF assms(1,2) q(1)] a b q(2) len by blast
    then show ?thesis using Some pc by (simp add: line_ops_def w a b)
  qed
qed

section \<open>The line editor\<close>

lemma and_then_Inr [simp]: "and_then (Some (Inr s)) f = f s"
  by (simp add: and_then_def)

text \<open>
  The reference: what one character does to the current line, and the lines that a sequence of
  characters enters together with the line that is left unfinished.
\<close>

definition edit_line :: "buf \<Rightarrow> byte \<Rightarrow> buf" where
  "edit_line cur c =
     (if c = 0x48 \<or> c = 0x50 then cur
      else if c = 8 then butlast cur
      else if length cur < 255 then cur @ [c]
      else cur)"

fun lines_typed :: "buf \<Rightarrow> buf \<Rightarrow> buf list \<times> buf" where
  "lines_typed cur [] = ([], cur)"
| "lines_typed cur (c # cs) =
     (if c = 10 then (let (ls, r) = lines_typed [] cs in (cur # ls, r)) else lines_typed (edit_line cur c) cs)"

definition typed_line :: "system \<Rightarrow> buf" where
  "typed_line s = take (command_len s) (command_buffer s)"

definition shell_inv :: "system \<Rightarrow> bool" where
  "shell_inv s \<longleftrightarrow> sys_ok s \<and> length (command_buffer s) = 256 \<and> command_len s < 256 \<and> 0 \<notin> set (typed_line s)"

lemma print_prompt_inv:
  assumes "sys_ok s" "env_ok v"
  shows "\<exists>k'. print_prompt v s = Some (s\<lparr>screen := k'\<rparr>) \<and> con_inv k'"
proof -
  note f = fs_invD [of "files s"]
  have fs: "fs_inv (files s)" and k: "con_inv (screen s)" using assms(1) by (simp_all add: sys_ok_def)
  let ?i = "unat (current_dir_inode (files s))"
  let ?n = "name (file_table (files s) ! ?i)" and ?d = "take 16 (dir_bytes v)"
  have n: "terminated ?n" "length ?n = 16" using table_invD(4,5) [OF f(1) [OF fs] f(4) [OF fs]] by simp_all
  have "strcpy ?d 0 ?n = Some (blit ?d 0 (cstr ?n @ [0]))"
    using strcpy_eq [OF n(1), of 0 ?d] length_cstr_less [OF n(1)] n(2) assms(2) by (simp add: env_ok_def)
  then have g: "bdfs_get_current_dir_name ?d (files s) = Some (blit ?d 0 (cstr ?n @ [0]))"
    using f(2,4) [OF fs] by (simp add: bdfs_get_current_dir_name_def)
  have "terminated (blit ?d 0 (cstr ?n @ [0]))" by (simp add: blit_def)
  then obtain k' where "prints [(blit ?d 0 (cstr ?n @ [0]), 0x0B), (lit ''> '', 0x0B)] (screen s) = Some k'" "con_inv k'"
    using prints_inv [OF k, of "[(blit ?d 0 (cstr ?n @ [0]), 0x0B), (lit ''> '', 0x0B)]"] by auto
  then show ?thesis by (auto simp: print_prompt_def g on_screen_def)
qed

lemma sys_ok_screen [simp]: "sys_ok s \<Longrightarrow> con_inv k \<Longrightarrow> sys_ok (s\<lparr>screen := k\<rparr>)"
  by (simp add: sys_ok_def)

lemma sys_ok_line [simp]: "sys_ok (s\<lparr>command_buffer := b\<rparr>) = sys_ok s" "sys_ok (s\<lparr>command_len := n\<rparr>) = sys_ok s"
  by (simp_all add: sys_ok_def)

text \<open>The end of a line: the buffer is the typed line, and after the command the next line is empty.\<close>

lemma enter_line_eq:
  assumes "shell_inv s"
  obtains k b where "con_inv k" "terminated b" "cstr b = typed_line s" "length b = 256" "length (typed_line s) < 256"
    "enter_line v s = and_then (process_command v b (s\<lparr>command_buffer := b, screen := k\<rparr>)) (\<lambda>s2.
      do { b' \<leftarrow> memset (command_buffer s2) 0 0 256; s3 \<leftarrow> print_prompt v (s2\<lparr>command_len := 0, command_buffer := b'\<rparr>); Some (Inr s3) })"
proof -
  note i = assms [unfolded shell_inv_def]
  let ?b = "(command_buffer s)[command_len s := 0]"
  have lt: "command_len s < length (command_buffer s)" using i by simp
  have "?b = typed_line s @ 0 # drop (Suc (command_len s)) (command_buffer s)"
    using lt by (simp add: typed_line_def upd_conv_take_nth_drop)
  then have b: "terminated ?b" "cstr ?b = typed_line s" using i cstr_append_zero by simp_all
  obtain k where k: "print (line '''') 0x0B (screen s) = Some k" "con_inv k"
    using print_inv [of "screen s" "line ''''"] i by (auto simp: sys_ok_def)
  show ?thesis
    by (rule that [OF k(2) b]) (use lt i in \<open>simp_all add: typed_line_def enter_line_def on_screen_def k(1)\<close>)
qed

lemma line_done:
  assumes "sys_ok s" "env_ok v" "length (command_buffer s) = 256"
  shows "\<exists>s'. do { b \<leftarrow> memset (command_buffer s) 0 0 256; s3 \<leftarrow> print_prompt v (s\<lparr>command_len := 0, command_buffer := b\<rparr>); Some (Inr s3) } =
      Some (Inr s' :: system + system) \<and> shell_inv s' \<and> typed_line s' = [] \<and> files s' = files s"
proof -
  let ?s = "s\<lparr>command_len := 0, command_buffer := replicate 256 0\<rparr>"
  obtain k where k: "print_prompt v ?s = Some (?s\<lparr>screen := k\<rparr>)" "con_inv k"
    using print_prompt_inv [of ?s v] assms by auto
  have m: "memset (command_buffer s) 0 0 256 = Some (replicate 256 0)" using assms(3) by (simp add: memset_eq blit_def)
  have "sys_ok (?s\<lparr>screen := k\<rparr>)" using assms(1) k(2) by (intro sys_ok_screen) simp_all
  then show ?thesis by (simp add: m k(1) shell_inv_def typed_line_def)
qed

text \<open>The end of a plain line: its calls are made.\<close>

lemma enter_line_handled:
  assumes "shell_inv s" "env_ok v" "plain_line (typed_line s)"
  shows "\<exists>s'. enter_line v s = Some (Inr s') \<and> shell_inv s' \<and> typed_line s' = [] \<and>
    foldM fs_apply (line_ops (typed_line s)) (files s) = Some (files s')"
proof (rule enter_line_eq [OF assms(1), of v])
  fix k b
  assume k: "con_inv k" and b: "terminated b" "cstr b = typed_line s" "length b = 256" "length (typed_line s) < 256"
    and e: "enter_line v s = and_then (process_command v b (s\<lparr>command_buffer := b, screen := k\<rparr>)) (\<lambda>s2.
      do { b' \<leftarrow> memset (command_buffer s2) 0 0 256; s3 \<leftarrow> print_prompt v (s2\<lparr>command_len := 0, command_buffer := b'\<rparr>); Some (Inr s3) })"
  let ?s = "s\<lparr>command_buffer := b, screen := k\<rparr>"
  have ok: "sys_ok ?s" using assms(1) k by (simp add: shell_inv_def)
  obtain s2 where s2: "process_command v b ?s = Some (Inr s2)" "foldM fs_apply (line_ops (typed_line s)) (files ?s) = Some (files s2)"
      "sys_ok s2" "command_buffer s2 = b"
    using process_command_handled [OF ok assms(2) b(1)] assms(3) b by (auto simp: handled_def)
  then show ?thesis using line_done [OF s2(3) assms(2)] b(3) unfolding e by auto
qed

lemma screen_inr:
  assumes "\<exists>k'. f (screen s) = Some k' \<and> con_inv k'"
  shows "\<exists>k'. map_option Inr (on_screen f s) = Some (Inr (s\<lparr>screen := k'\<rparr>) :: system + system) \<and> con_inv k'"
  using assms by (auto simp: on_screen_def)

text \<open>Every other character edits the line and leaves the file system alone.\<close>

lemma shell_char_edits:
  assumes "shell_inv s" "c \<noteq> 0" "c \<noteq> 10"
  shows "\<exists>s'. shell_char v c s = Some (Inr s') \<and> shell_inv s' \<and> typed_line s' = edit_line (typed_line s) c \<and> files s' = files s"
proof -
  note i = assms(1) [unfolded shell_inv_def]
  have k: "con_inv (screen s)" using i by (simp add: sys_ok_def)
  have l: "length (typed_line s) = command_len s" using i by (simp add: typed_line_def)
  consider "c = 0x48" | "c = 0x50" | "c = 8" "command_len s = 0" | "c = 8" "command_len s > 0"
    | "c \<notin> {0x48, 0x50, 8}" "command_len s < 255" | "c \<notin> {0x48, 0x50, 8}" "command_len s = 255"
    using i by force
  then show ?thesis
  proof cases
    case 1
    then show ?thesis using screen_inr [of scroll_up s] scroll_inv(1) [OF k] i by (auto simp: shell_char_def edit_line_def shell_inv_def typed_line_def)
  next
    case 2
    then show ?thesis using screen_inr [of scroll_down s] scroll_inv(2) [OF k] i by (auto simp: shell_char_def edit_line_def shell_inv_def typed_line_def)
  next
    case 3
    then show ?thesis using i l by (simp add: shell_char_def edit_line_def shell_inv_def)
  next
    case 4
    have t: "butlast (typed_line s) = take (command_len s - 1) (command_buffer s)"
      using i by (simp add: typed_line_def butlast_take)
    have "0 \<notin> set (take (command_len s - 1) (command_buffer s))" using i t by (metis in_set_butlastD)
    then show ?thesis
      using 4 t screen_inr [of print_backspace "s\<lparr>command_len := command_len s - 1\<rparr>"] print_backspace_inv [OF k] i
      by (auto simp: shell_char_def edit_line_def shell_inv_def typed_line_def)
  next
    case 5
    let ?s = "s\<lparr>command_buffer := (command_buffer s)[command_len s := c], command_len := command_len s + 1\<rparr>"
    have t: "take (command_len s + 1) ((command_buffer s)[command_len s := c]) = typed_line s @ [c]"
      using i by (simp add: typed_line_def take_Suc_conv_app_nth)
    show ?thesis
      using 5 t assms(2,3) screen_inr [of "print_char c 0x0B" ?s] print_char_inv [OF k] i l
      by (auto simp: shell_char_def edit_line_def shell_inv_def typed_line_def)
  next
    case 6
    then show ?thesis using i l assms(3) by (simp add: shell_char_def edit_line_def shell_inv_def)
  qed
qed


lemma session:
  assumes "shell_inv s" "list_all (\<lambda>(v, c). env_ok v \<and> c \<noteq> 0) input" "lines_typed (typed_line s) (map snd input) = (ls, cur)" "list_all plain_line ls"
  shows "\<exists>s'. for_each (\<lambda>(v, c). shell_char v c) input s = Some (Inr s') \<and> shell_inv s' \<and> typed_line s' = cur \<and>
    foldM fs_apply (concat (map line_ops ls)) (files s) = Some (files s')"
  using assms
proof (induction input arbitrary: s ls)
  case (Cons x input)
  obtain v c where x: "x = (v, c)" by (cases x)
  have c: "env_ok v" "c \<noteq> 0" and rest: "list_all (\<lambda>(v, c). env_ok v \<and> c \<noteq> 0) input" using Cons.prems(2) x by auto
  show ?case
  proof (cases "c = 10")
    case True
    obtain ls' where ls: "lines_typed [] (map snd input) = (ls', cur)" "ls = typed_line s # ls'"
      using Cons.prems(3) x True by (auto split: prod.splits)
    obtain s1 where s1: "shell_char v c s = Some (Inr s1)" "shell_inv s1" "typed_line s1 = []"
        "foldM fs_apply (line_ops (typed_line s)) (files s) = Some (files s1)"
      using enter_line_handled [OF Cons.prems(1) c(1)] Cons.prems(4) ls True by (auto simp: shell_char_def)
    then show ?thesis using Cons.IH [OF s1(2) rest] ls Cons.prems(4) x by (simp add: foldM_append)
  next
    case False
    obtain s1 where s1: "shell_char v c s = Some (Inr s1)" "shell_inv s1" "typed_line s1 = edit_line (typed_line s) c" "files s1 = files s"
      using shell_char_edits [OF Cons.prems(1) c(2) False] by blast
    then show ?thesis using Cons.IH [OF s1(2) rest] Cons.prems(3,4) x False by simp
  qed
qed simp


section \<open>Displaying a file\<close>

text \<open>The words of a line that starts with a word and a blank.\<close>

lemma next_token_word:
  assumes "a \<noteq> []" "32 \<notin> set a"
  shows "next_token {32} (a @ 32 # r) = (a, r)" "next_token {32} a = (a, [])"
proof -
  have d: "dropWhile (\<lambda>c. c = 32) (a @ x) = a @ x" for x using assms by (cases a) auto
  have "takeWhile (\<lambda>c. c \<noteq> 32) (a @ 32 # r) = a" "dropWhile (\<lambda>c. c \<noteq> 32) (a @ 32 # r) = 32 # r"
    using assms(2) by (induction a) auto
  then show "next_token {32} (a @ 32 # r) = (a, r)" using d [of "32 # r"] by (simp add: next_token_def)
  have e: "takeWhile (\<lambda>c. c \<noteq> 32) a = a" "dropWhile (\<lambda>c. c \<noteq> 32) a = []" using assms(2) by auto
  show "next_token {32} a = (a, [])" using d [of "[]"] by (simp add: next_token_def e)
qed

lemma print_bytes_of:
  "n \<le> length b \<Longrightarrow> foldM (\<lambda>i k. do { c \<leftarrow> rd b i; print_char c color k }) [0..<n] k = foldM (\<lambda>c. print_char c color) (take n b) k"
proof (induction n)
  case (Suc n)
  then show ?case by (simp add: take_Suc_conv_app_nth)
qed simp

lemma print_newline: "kprintf (line '''') [] k = print_char 10 0x07 k"
  using kprintf_eq [of "line ''''" "[]"] by (simp add: line_def bytes_def)

lemma cat_read:
  assumes "bdfs_read_file nm (replicate 1024 0) fs = Some (0, Some n, b)" "unat n \<le> length b"
  shows "cat_command nm (fs, k) = map_option (Pair fs) (foldM (\<lambda>c. print_char c 0x07) (take (unat n) b @ [10]) k)"
proof -
  have "cat_command nm (fs, k) = do { k1 \<leftarrow> foldM (\<lambda>c. print_char c 0x07) (take (unat n) b) k; k2 \<leftarrow> print_char 10 0x07 k1; Some (fs, k2) }"
    by (simp add: cat_command_def assms(1) print_bytes_of [OF assms(2)] print_newline)
  also have "\<dots> = map_option (Pair fs) (foldM (\<lambda>c. print_char c 0x07) (take (unat n) b @ [10]) k)"
    by (cases "foldM (\<lambda>c. print_char c 0x07) (take (unat n) b) k") (simp_all add: map_conv_bind_option comp_def)
  finally show ?thesis .
qed

text \<open>A file of more than 1024 bytes does not fit the buffer of \<^verbatim>\<open>cat\<close>.\<close>

theorem cat_overflow:
  assumes "fs_inv fs" "terminated nm" "lookup nm (current_dir_inode fs) fs = Some i" "ftype (file_table fs ! i) = 0"
    and "1024 < unat (flength (file_table fs ! i))"
  shows "cat_command nm (fs, k) = None"
  using read_eq [OF assms(1,2), of "replicate 1024 0"] assms(3-5) by (simp add: cat_command_def)

lemma command_words:
  "command_of (bytes ''write'') = Some Wr" "command_of (bytes ''cat'') = Some Cat"
  by (simp_all add: command_of_def command_table_def bytes_def)

lemma word_write: "bytes ''write'' \<noteq> []" "32 \<notin> set (bytes ''write'')" "bytes ''cat'' \<noteq> []" "32 \<notin> set (bytes ''cat'')"
    "0 \<notin> set (bytes ''write'')" "0 \<notin> set (bytes ''cat'')" "length (bytes ''write'') = 5" "length (bytes ''cat'') = 3"
  by (simp_all add: bytes_def)

lemma cstr_line: "0 \<notin> set xs \<Longrightarrow> cstr (xs @ [0]) = xs"
  by (rule cstr_append_zero)

text \<open>The line \<^verbatim>\<open>write a d\<close> stores exactly its text.\<close>

lemma write_line_stores:
  assumes "sys_ok s" "env_ok v" and a: "a \<noteq> []" "0 \<notin> set a" "32 \<notin> set a" and d: "d \<noteq> []" "0 \<notin> set d"
    and len: "length a + length d < 249"
  shows "\<exists>s1. process_command v (bytes ''write'' @ [32] @ a @ [32] @ d @ [0]) s = Some (Inr s1) \<and> sys_ok s1 \<and>
    fs_apply (Write (a @ [0]) d (of_nat (length d))) (files s) = Some (files s1)"
proof -
  let ?x = "bytes ''write'' @ 32 # a @ 32 # d"
  have t: "terminated (?x @ [0])" by (rule terminated_append_zero)
  have c: "cstr (?x @ [0]) = ?x" using a d word_write by (intro cstr_line) auto
  have n: "next_token {32} ?x = (bytes ''write'', a @ 32 # d)" "next_token {32} (a @ 32 # d) = (a, d)"
    using next_token_word word_write a by auto
  obtain b r2 where b: "next_token {32} d = (b, r2)" by fastforce
  have "plain_line ?x" using n(1) word_write by (simp add: plain_line_def command_words)
  moreover have "line_ops ?x = [Write (a @ [0]) d (of_nat (length d))]"
    using n b a d by (simp add: line_ops_def command_words command_ops_def)
  moreover have "length ?x < 256" using len word_write by simp
  ultimately show ?thesis
    using process_command_handled [OF assms(1,2) t] c by (auto simp: handled_def bind_eq_Some_conv)
qed

text \<open>The line \<^verbatim>\<open>cat a\<close> runs the command on the name.\<close>

lemma cat_line_runs:
  assumes "env_ok v" and a: "a \<noteq> []" "0 \<notin> set a" "32 \<notin> set a" and len: "length a < 252"
  obtains nm where "terminated nm" "cstr nm = a"
    "process_command v (bytes ''cat'' @ [32] @ a @ [0]) s = map_option Inr (on_files (cat_command nm) s)"
proof -
  let ?x = "bytes ''cat'' @ 32 # a"
  have t: "terminated (?x @ [0])" by (rule terminated_append_zero)
  have c: "cstr (?x @ [0]) = ?x" using a word_write by (intro cstr_line) auto
  have n: "next_token {32} (cstr (?x @ [0])) = (bytes ''cat'', a)" using next_token_word word_write c by simp
  have l: "length (cstr (?x @ [0])) < 256" using len c word_write by simp
  obtain cmd q where q: "terminated (drop q cmd)" "cstr (drop q cmd) = a"
      "process_command v (?x @ [0]) s = run_command v Cat cmd (Some q) s"
    using process_command_eq [OF assms(1) t l n word_write(3), of s] unfolding command_words option.case by blast
  have m: "next_token (set (cstr (lit '' ''))) (cstr (drop q cmd)) = (a, [])"
    using next_token_word(2) [OF a(1,3)] q(2) by (simp add: cstr_lit_blank del: cstr_lit)
  show ?thesis
  proof (cases rule: strtok_next [OF lit_terminated q(1) m])
    case (1 q')
    then show ?thesis using a(1) by simp
  next
    case (2 t b' q')
    then show ?thesis using that [of "drop t b'"] q(3) by (simp add: with_arg_def)
  qed
qed


text \<open>
  What the file of entry \<open>i\<close> holds once \<open>d\<close> is written to it: the text itself, except in data sector 0,
  where the length field of table entry 63 takes the place of its first four bytes.
\<close>

definition stored_text :: "nat \<Rightarrow> buf \<Rightarrow> bdfs \<Rightarrow> buf" where
  "stored_text i d fs =
     (if start_sector (target i fs) = 0
      then take (length d) (le32 (if i = 63 then of_nat (length d) else flength (file_table fs ! 63)) @ drop 4 d)
      else d)"

lemma length_stored_text [simp]: "length (stored_text i d fs) = length d"
  by (auto simp: stored_text_def)

text \<open>Reading what was just written, under any pointer to the same name.\<close>

lemma read_written:
  assumes "fs_inv fs" "terminated nm" "cstr nm = a" "length d \<le> length out" "length d < 2 ^ 31"
    and "fs_apply (Write (a @ [0]) d (of_nat (length d))) fs = Some fs'"
    and i: "lookup (a @ [0]) (current_dir_inode fs) fs = Some i" "ftype (file_table fs ! i) = 0"
      "fits i (of_nat (length d)) fs"
  shows "bdfs_read_file nm out fs' = Some (0, Some (of_nat (length d)), stored_text i d fs @ drop (length d) out)"
proof -
  let ?n = "of_nat (length d) :: u32"
  have n: "unat ?n = length d" using assms(5) by (simp add: unat_of_nat_u32)
  have l: "lookup nm (current_dir_inode fs) fs = Some i" using i(1) assms(3) lookup_cstr [of nm] by simp
  have w: "bdfs_write_file x d ?n fs = Some (uint ?n, written i (target i fs) d ?n fs)"
    if "terminated x" "lookup x (current_dir_inode fs) fs = Some i" for x
    using write_eq [OF assms(1) that(1), of ?n d] that(2) i n assms(5) by simp
  have fs': "fs' = written i (target i fs) d ?n fs" using assms(6) w [of "a @ [0]"] i(1) by (simp add: fs_apply_def)
  have i64: "i < 64" using lookup_Some(1) [OF fs_invD(1) [OF assms(1)] l] .
  have st: "start_sector (file_table fs' ! i) = start_sector (target i fs)"
      "flength (file_table fs' ! 63) = (if i = 63 then ?n else flength (file_table fs ! 63))"
    using i64 fs_invD(2) [OF assms(1)] by (simp_all add: fs' written_fields)
  have "clobber (file_table fs') (file_table fs' ! i) d = stored_text i d fs"
    unfolding clobber_def stored_text_def st by (auto simp: blit_def min_def take_Cons' not_le)
  then show ?thesis
    using read_after_write [OF assms(1,2) _ _ w [OF assms(2) l] l, of out] n assms(4,5)
    by (simp add: fs' blit_def)
qed

section \<open>Properties\<close>

text \<open>A system to run the properties on.\<close>

definition sample_system :: system where
  "sample_system = \<lparr>files = fs_b, screen = boot_console, intr = idle_intr,
     frames = \<lparr>pmm_bitmap = [], total_blocks = 0x8000, used_blocks = 0x1000\<rparr>, ed = sample_editor,
     command_buffer = replicate 256 0, command_len = 0\<rparr>"

definition sample_env :: env where
  "sample_env = \<lparr>dev = (\<lambda>h p. 0), bss_start = 0, kernel_end = 0, cmd_bytes = replicate 256 7, dir_bytes = replicate 16 7, bdx_bytes = [],
     file_bytes = [], draw_bytes = [], save_bytes = [], call_bytes = [], arriving = [32], typed = []\<rparr>"

lemma sample_ok: "sys_ok sample_system" "shell_inv sample_system" "typed_line sample_system = []" "env_ok sample_env"
  by (simp_all add: sys_ok_def shell_inv_def typed_line_def env_ok_def sample_system_def sample_env_def fs_b_inv boot_console_inv
      idle_intr_inv total_mb_def pmm_get_total_memory_def)

text \<open>
  (C11) A session at the keyboard: whatever characters arrive, the shell edits the current line as the
  reference line editor does (letters, backspace, scrolling keys, at most 255 characters), and when
  all the lines that were entered are plain it never leaves a buffer, keeps the invariants of console,
  file system and command buffer, and has changed the file system by exactly the calls that the
  entered lines stand for, in their order.
\<close>

theorem shell_session:
  assumes "shell_inv s" "list_all (\<lambda>(v, c). env_ok v \<and> c \<noteq> 0) input"
    and "lines_typed (typed_line s) (map snd input) = (ls, cur)" "list_all plain_line ls"
  shows "\<exists>s'. for_each (\<lambda>(v, c). shell_char v c) input s = Some (Inr s') \<and> shell_inv s' \<and> typed_line s' = cur \<and>
    foldM fs_apply (concat (map line_ops ls)) (files s) = Some (files s')"
  by (rule session [OF assms])

theorem shell_session_witness:
  "\<exists>s'. for_each (\<lambda>(v, c). shell_char v c) (map (Pair sample_env) (bytes ''cdx'' @ [8] @ bytes '' .'' @ [10] @ bytes ''ls'')) sample_system
      = Some (Inr s') \<and> shell_inv s' \<and> typed_line s' = bytes ''ls'' \<and> fs_apply (Chdir [46, 0]) fs_b = Some (files s')"
proof -
  let ?cs = "bytes ''cdx'' @ [8] @ bytes '' .'' @ [10] @ bytes ''ls''"
  have l: "lines_typed (typed_line sample_system) (map snd (map (Pair sample_env) ?cs)) = ([bytes ''cd .''], bytes ''ls'')"
    unfolding sample_ok(3) by (simp add: bytes_def edit_line_def)
  have w: "next_token {32} (bytes ''cd .'') = (bytes ''cd'', [46])" "next_token {32} [46] = ([46], [])" "next_token {32} [] = ([], [])"
    by (simp_all add: next_token_def bytes_def)
  have c: "command_of (bytes ''cd'') = Some Cd" by (simp add: command_of_def command_table_def bytes_def)
  have o1: "line_ops (bytes ''cd .'') = [Chdir [46, 0]]" by (simp add: line_ops_def w c command_ops_def)
  have "bytes ''cd'' \<noteq> []" by (simp add: bytes_def)
  then have p1: "plain_line (bytes ''cd .'')" by (simp add: plain_line_def w c)
  have i: "list_all (\<lambda>(v, c). env_ok v \<and> c \<noteq> 0) (map (Pair sample_env) ?cs)"
    by (simp add: sample_ok(4) bytes_def)
  have f: "files sample_system = fs_b" by (simp add: sample_system_def)
  show ?thesis
    using shell_session [OF sample_ok(2) i l] p1 o1 f by (auto simp: bind_eq_Some_conv)
qed

text \<open>
  (C12) What is written can be displayed: after the line \<^verbatim>\<open>write a text\<close> for an existing file with room
  for the text, the line \<^verbatim>\<open>cat a\<close> prints exactly what the file holds and a newline.  That is the text,
  unless the file lies in data sector 0 (the first file stored after formatting): there the length of
  table entry 63 is printed in place of the first four characters.
\<close>

theorem write_then_cat:
  assumes "sys_ok s" "env_ok v" and a: "a \<noteq> []" "0 \<notin> set a" "32 \<notin> set a" and d: "d \<noteq> []" "0 \<notin> set d"
    and len: "length a + length d < 249"
    and i: "lookup (a @ [0]) (current_dir_inode (files s)) (files s) = Some i" "ftype (file_table (files s) ! i) = 0"
      "fits i (of_nat (length d)) (files s)"
  shows "\<exists>s1 k. process_command v (bytes ''write'' @ [32] @ a @ [32] @ d @ [0]) s = Some (Inr s1) \<and>
    process_command v (bytes ''cat'' @ [32] @ a @ [0]) s1 = Some (Inr (s1\<lparr>screen := k\<rparr>)) \<and>
    foldM (\<lambda>c. print_char c 0x07) (stored_text i d (files s) @ [10]) (screen s1) = Some k \<and>
    (start_sector (target i (files s)) \<noteq> 0 \<longrightarrow> stored_text i d (files s) = d)"
proof -
  let ?t = "stored_text i d (files s)"
  obtain s1 where s1: "process_command v (bytes ''write'' @ [32] @ a @ [32] @ d @ [0]) s = Some (Inr s1)" "sys_ok s1"
      "fs_apply (Write (a @ [0]) d (of_nat (length d))) (files s) = Some (files s1)"
    using write_line_stores [OF assms(1,2) a d len] by blast
  have la: "length a < 252" using len by simp
  obtain nm where nm: "terminated nm" "cstr nm = a"
      "process_command v (bytes ''cat'' @ [32] @ a @ [0]) s1 = map_option Inr (on_files (cat_command nm) s1)"
    using cat_line_runs [OF assms(2) a la, where s = s1] by blast
  let ?n = "of_nat (length d) :: u32"
  have n: "unat ?n = length d" using len by (simp add: unat_of_nat_u32)
  have "bdfs_read_file nm (replicate 1024 0) (files s1) = Some (0, Some ?n, ?t @ replicate (1024 - length d) 0)"
    using read_written [OF _ nm(1,2) _ _ s1(3) i, of "replicate 1024 0"] assms(1) len by (simp add: sys_ok_def)
  from cat_read [OF this] have c: "cat_command nm (files s1, k) = map_option (Pair (files s1)) (foldM (\<lambda>c. print_char c 0x07) (?t @ [10]) k)" for k
    by (simp add: n)
  obtain k where k: "foldM (\<lambda>c. print_char c 0x07) (?t @ [10]) (screen s1) = Some k"
    using print_chars_inv [where k = "screen s1" and cs = "?t @ [10]" and color = 7] s1(2) unfolding sys_ok_def by blast
  then show ?thesis using s1(1) nm(3) c by (auto simp: on_files_def stored_text_def)
qed

theorem write_then_cat_witness:
  "\<exists>s1 k. process_command sample_env (bytes ''write'' @ [32] @ bytes ''b'' @ [32] @ bytes ''hi'' @ [0]) sample_system = Some (Inr s1) \<and>
    process_command sample_env (bytes ''cat'' @ [32] @ bytes ''b'' @ [0]) s1 = Some (Inr (s1\<lparr>screen := k\<rparr>)) \<and>
    foldM (\<lambda>c. print_char c 0x07) (bytes ''hi'' @ [10]) (screen s1) = Some k"
proof -
  have f: "files sample_system = fs_b" by (simp add: sample_system_def)
  note l = fs_b_lookup fs_b_table(2)
  have "bytes ''b'' @ [0] = file_b" by (simp add: bytes_def file_b_def)
  moreover have "fits 9 2 fs_b" "ftype (file_table fs_b ! 9) = 0"
    using l by (simp_all add: fits_def fresh_entry_def)
  moreover have t: "start_sector (target 9 fs_b) \<noteq> 0" using l by (simp add: fresh_entry_def target_def)
  moreover have "length (bytes ''hi'') = 2" by (simp add: bytes_def)
  ultimately have "\<exists>s1 k. process_command sample_env (bytes ''write'' @ [32] @ bytes ''b'' @ [32] @ bytes ''hi'' @ [0]) sample_system = Some (Inr s1) \<and>
    process_command sample_env (bytes ''cat'' @ [32] @ bytes ''b'' @ [0]) s1 = Some (Inr (s1\<lparr>screen := k\<rparr>)) \<and>
    foldM (\<lambda>c. print_char c 0x07) (stored_text 9 (bytes ''hi'') fs_b @ [10]) (screen s1) = Some k \<and>
    (start_sector (target 9 fs_b) \<noteq> 0 \<longrightarrow> stored_text 9 (bytes ''hi'') fs_b = bytes ''hi'')"
    using write_then_cat [OF sample_ok(1,4), of "bytes ''b''" "bytes ''hi''" 9] l by (simp add: f bytes_def)
  then show ?thesis using t by auto
qed

text \<open>
  (C40) A line without a word (empty, or blanks only) makes the shell read through a null pointer:
  the token that is compared with the command names is the null pointer that \<^verbatim>\<open>strtok\<close> returns.
\<close>

theorem blank_line_null:
  assumes "env_ok v" "n < 256"
  shows "process_command v (replicate n 32 @ [0]) s = None"
proof -
  let ?d = "take 256 (cmd_bytes v)" and ?l = "replicate n 32 @ [0] :: buf"
  have c: "cstr ?l = replicate n 32" by (rule cstr_append_zero) simp
  let ?cmd = "blit ?d 0 ?l"
  have cp: "strcpy ?d 0 ?l = Some ?cmd"
    using strcpy_eq [of ?l 0 ?d] assms by (simp add: c env_ok_def)
  have t: "terminated (drop 0 ?cmd)" "cstr (drop 0 ?cmd) = replicate n 32"
    using cstr_append_zero [of "replicate n 32"] by (simp_all add: blit_def)
  have "dropWhile (\<lambda>c. c = 32) (replicate n (32 :: byte)) = []" by simp
  then have "fst (next_token (set (cstr (lit '' ''))) (cstr (drop 0 ?cmd))) = []"
    unfolding t(2) by (simp add: next_token_def cstr_lit_blank del: cstr_lit dropWhile_eq_Nil_conv dropWhile_replicate)
  from strtok_no_token [OF lit_terminated t(1) this, of None]
  show ?thesis by (auto simp: process_command_def cp)
qed

theorem blank_line_null_witness:
  "process_command sample_env [32, 32, 0] sample_system = None"
  using blank_line_null [OF sample_ok(4), of 2 sample_system] by (simp add: numeral_2_eq_2)


text \<open>Numbers below 2^31 print as decimals; a sequence of texts prints as one text.\<close>

lemma int_text_small: "unat n < 2 ^ 31 \<Longrightarrow> printed_int n = dec (unat n)"
proof -
  assume n: "unat n < 2 ^ 31"
  then have s: "sint n = int (unat n)" using sint_small [of n] by simp
  have "n \<noteq> 0x80000000" using n by auto
  then show ?thesis by (simp add: printed_int_def int_text_def s)
qed

definition two_digits :: "nat \<Rightarrow> buf" where
  "two_digits n = (if n < 10 then [48] else []) @ dec n"

definition texts :: "byte \<Rightarrow> buf \<Rightarrow> console \<Rightarrow> console option" where
  "texts color cs = foldM (\<lambda>c. print_char c color) cs"

lemma texts_append: "do { k1 \<leftarrow> texts color xs k; texts color ys k1 } = texts color (xs @ ys) k"
  by (simp add: texts_def foldM_append)

lemma print_texts: "0 \<notin> set (bytes w) \<Longrightarrow> print (lit w) color = texts color (bytes w)" "print (line w) color = texts color (cstr (line w))"
  by (intro ext, simp add: texts_def print_eq)+

lemma print_two_texts: "unat n < 2 ^ 31 \<Longrightarrow> print_two n = texts 0x05 (two_digits (unat n))"
proof
  fix k
  assume "unat n < 2 ^ 31"
  then have i: "print_int n 0x05 = texts 0x05 (dec (unat n))" by (intro ext) (simp add: print_int_eq int_text_small texts_def)
  have z: "print (lit ''0'') 0x05 = texts 0x05 [48]" using print_texts(1) [of "''0''"] by (simp add: bytes_def)
  have "(n < 10) = (unat n < 10)" by (simp add: word_less_nat_alt)
  then show "print_two n k = texts 0x05 (two_digits (unat n)) k"
    by (cases "unat n < 10") (simp_all add: print_two_def i z two_digits_def texts_append)
qed

text \<open>
  The command \<^verbatim>\<open>time\<close> prints the uptime as hours, minutes and seconds, each with at least two
  digits, for every value of the tick counter.
\<close>

theorem uptime_text:
  "time_command i k = texts 0x05 (bytes ''Uptime: '' @
     (let t = unat (timer_ticks i) div 100 in two_digits (t div 3600) @ [58] @ two_digits (t mod 3600 div 60) @ [58] @ two_digits (t mod 60) @ [10])) k"
proof -
  let ?t = "timer_ticks i div 100"
  have u: "unat ?t = unat (timer_ticks i) div 100" "unat (?t div 3600) = unat ?t div 3600"
      "unat (?t mod 3600 div 60) = unat ?t mod 3600 div 60" "unat (?t mod 60) = unat ?t mod 60"
    by (simp_all add: unat_div unat_mod)
  have b: "unat (timer_ticks i) < 2 ^ 32" using unsigned_less [of "timer_ticks i"] by simp
  have p: "print_two (?t div 3600) = texts 0x05 (two_digits (unat ?t div 3600))"
      "print_two (?t mod 3600 div 60) = texts 0x05 (two_digits (unat ?t mod 3600 div 60))"
      "print_two (?t mod 60) = texts 0x05 (two_digits (unat ?t mod 60))"
    using b by (simp_all add: print_two_texts u)
  have q: "print (lit ''Uptime: '') 0x05 = texts 0x05 (bytes ''Uptime: '')" "print (lit '':'') 0x05 = texts 0x05 [58]"
      "print (line '''') 0x05 = texts 0x05 [10]"
    using print_texts(1) [of "''Uptime: ''"] print_texts(1) [of "'':''"] print_texts(2) [of "''''"] by (simp_all add: bytes_def line_def)
  show ?thesis
    unfolding time_command_def Let_def p q u(1) [symmetric] by (simp only: texts_append append_assoc)
qed

text \<open>
  On a machine with 4 GiB of memory the byte count wraps to 0 and \<^verbatim>\<open>pulse\<close> divides by zero.
\<close>

theorem pulse_divides_by_zero:
  assumes "total_blocks p = 0x100000"
  shows "pulse_command p i k = None"
  by (simp add: pulse_command_def pmm_get_total_memory_def assms)

end
