(* ===== verification/Shell_Inv.thy ===== *)
theory Shell_Inv
  imports Shell_Props
begin

text \<open>
  Invariants of every state that the shell can reach, whatever is typed: also the commands that may
  fail (\<^verbatim>\<open>cat\<close>, \<^verbatim>\<open>calc\<close>, \<^verbatim>\<open>cable\<close>, \<^verbatim>\<open>reboot\<close>, programs) keep the invariants of the file system, the
  console, the interrupt state and the command buffer whenever they return.  The reachable states are
  an inductive predicate over the passes of the main loop, and the theorem is by rule induction.
\<close>

section \<open>Steps that keep an invariant when they return\<close>

locale keeps_inv =
  fixes step :: "'e \<Rightarrow> 's \<Rightarrow> 's option" and inv :: "'s \<Rightarrow> bool"
  assumes keeps: "inv s \<Longrightarrow> step e s = Some s' \<Longrightarrow> inv s'"
begin

lemma run_keeps: "inv s \<Longrightarrow> foldM step es s = Some s' \<Longrightarrow> inv s'"
proof (induction es arbitrary: s)
  case (Cons e es)
  then show ?case using keeps [of s e] by (auto simp: bind_eq_Some_conv)
qed simp

end

lemma print_keeps: "con_inv k \<Longrightarrow> print t color k = Some k' \<Longrightarrow> con_inv k'"
proof (induction t arbitrary: k)
  case (Cons c t)
  obtain k1 where "print_char c color k = Some k1" "con_inv k1" using print_char_inv [OF Cons.prems(1)] by blast
  then show ?case using Cons by (auto split: if_splits)
qed simp

lemma print_char_keeps: "con_inv k \<Longrightarrow> print_char c color k = Some k' \<Longrightarrow> con_inv k'"
  using print_char_inv [of k c color] by auto

interpretation cell_bytes: keeps_inv "\<lambda>i k. do { c \<leftarrow> rd b i; print_char c color k }" con_inv for b color
  by unfold_locales (auto simp: bind_eq_Some_conv intro: print_char_keeps)

lemma at_cell_keeps: "con_inv k \<Longrightarrow> print_char_at c color (int x) (int y) k = Some k' \<Longrightarrow> con_inv k'"
  using print_char_at_inv [of k "int x" "int y" c color] by auto

interpretation draw_cells: keeps_inv "draw_cell e" con_inv for e
  by unfold_locales (auto simp: draw_cell_def bind_eq_Some_conv intro: at_cell_keeps)

interpretation status_cells: keeps_inv "status_cell status" con_inv for status
proof
  fix s i s'
  assume "con_inv s" "status_cell status i s = Some s'"
  then show "con_inv s'"
    using at_cell_keeps [of s _ _ i 23 s'] by (auto simp: status_cell_def bind_eq_Some_conv split: if_splits)
qed

section \<open>The interpreter and the editor\<close>

lemma store_data_keeps:
  assumes "fs_inv fs" "terminated nm" "bdfs_write_file nm b n fs = Some (r, fs')" "\<not> (unat n \<le> length b \<and> unat n + 511 < 2 ^ 32)"
  shows "fs' = fs"
proof -
  note f = fs_invD [OF assms(1)]
  have n0: "unat n \<noteq> 0" using assms(4) by auto
  have "memcpy (bdfs_storage fs) o' b (unat n) = None" for o'
    using assms(4) n0 f(3) by (auto simp: memcpy_eq)
  then have s: "store_data i e b n fs = None" for i e by (simp add: store_data_def Let_def split: bind_splits)
  show ?thesis
    using assms(3) s find_entry_eq [OF f(1) assms(2)]
    by (auto simp: bdfs_write_file_def Let_def bind_eq_Some_conv split: if_splits)
qed

lemma write_keeps:
  assumes "fs_inv fs" "terminated nm" "bdfs_write_file nm b n fs = Some (r, fs')"
  shows "fs_inv fs'"
proof (cases "unat n \<le> length b \<and> unat n + 511 < 2 ^ 32")
  case True
  then show ?thesis using fs_call_inv [OF assms(1), of "Write nm b n"] assms by auto
next
  case False
  then show ?thesis using store_data_keeps [OF assms] assms(1) by simp
qed

lemma strlen_terminated: "strlen s = Some n \<Longrightarrow> terminated s"
  by (simp add: strlen_eq split: if_splits)

lemma interpret_step_keeps:
  assumes "interpret_step b ip fs k = Some (next, fs', k')" "fs_inv fs" "con_inv k"
  shows "fs_inv fs' \<and> con_inv k'"
  using assms(1) assms(2,3) print_keeps [OF assms(3)] write_keeps [OF assms(2)] strlen_terminated
  by (auto simp: interpret_step_def bind_eq_Some_conv Let_def split: if_splits) blast+

lemma interpret_keeps:
  assumes "interpret_loop b ip fs k = Some r"
  shows "fs_inv fs \<longrightarrow> con_inv k \<longrightarrow> sys_inv r"
proof (rule interpret_loop.raw_induct [OF _ assms, of "\<lambda>b ip fs k r. fs_inv fs \<longrightarrow> con_inv k \<longrightarrow> sys_inv r"], goal_cases)
  case (1 loop b ip fs k r)
  from 1(2) obtain nxt fs' k' where st: "interpret_step b ip fs k = Some (nxt, fs', k')"
      "(case nxt of Some ip' \<Rightarrow> loop b ip' fs' k' | None \<Rightarrow> Some (fs', k')) = Some r"
    by (auto simp: bind_eq_Some_conv)
  show ?case using interpret_step_keeps [OF st(1)] st(2) 1(1) by (cases nxt) (auto simp: sys_inv_def)
qed

lemma bdx_keeps: "interpret_bdx b fs k = Some (fs', k') \<Longrightarrow> fs_inv fs \<Longrightarrow> con_inv k \<Longrightarrow> fs_inv fs' \<and> con_inv k'"
  using interpret_keeps [of b 0 fs k "(fs', k')"] by (simp add: interpret_bdx_def sys_inv_def)

lemma draw_keeps: "con_inv k \<Longrightarrow> editor_draw st e k = Some k' \<Longrightarrow> con_inv k'"
proof -
  assume k: "con_inv k" "editor_draw st e k = Some k'"
  obtain k1 where k1: "clear_screen 0x05 k = Some k1" "con_inv k1" using clear_screen_inv [OF k(1)] by blast
  obtain k2 k3 where "foldM (draw_cell e) (List.product [0..<24 - 1] [0..<80]) k1 = Some k2"
      "editor_draw_status_bar st e k2 = Some k3" and k': "k' = set_cursor (int (cx e)) (int (cy e)) k3"
    using k(2) k1(1) by (auto simp: editor_draw_def bind_eq_Some_conv)
  then have "con_inv k3"
    using draw_cells.run_keeps [OF k1(2)] status_cells.run_keeps by (fastforce simp: editor_draw_status_bar_def bind_eq_Some_conv)
  then show ?thesis unfolding k' by (auto simp: set_cursor_def update_cursor_def con_inv_def Let_def)
qed


lemma syscall_keeps:
  "syscall_write path data n st fs k = Some (fs', k') \<Longrightarrow> fs_inv fs \<Longrightarrow> con_inv k \<Longrightarrow> fs_inv fs' \<and> con_inv k'"
  unfolding syscall_write_def Let_def using bdx_keeps by (auto simp: bind_eq_Some_conv)

lemma save_keeps:
  "editor_save_file sb st e fs k = Some (e', fs', k') \<Longrightarrow> fs_inv fs \<Longrightarrow> con_inv k \<Longrightarrow> fs_inv fs' \<and> con_inv k'"
  unfolding editor_save_file_def using syscall_keeps by (auto simp: bind_eq_Some_conv)

lemma keypress_keeps:
  assumes "editor_process_keypress sb st sc ctrl (e, fs, k) = Some (b, e', fs', k')" "fs_inv fs" "con_inv k"
  shows "fs_inv fs' \<and> con_inv k'"
proof (cases "sc = 0x1F \<and> ctrl")
  case True
  then show ?thesis using assms save_keeps by (auto simp: editor_process_keypress_def bind_eq_Some_conv)
next
  case False
  then have "fs' = fs \<and> k' = k"
    using assms(1) by (auto simp: editor_process_keypress_def bind_eq_Some_conv split: if_splits)
  then show ?thesis using assms by simp
qed

lemma cable_keeps:
  "cable_loop db sb st keys (e, fs, k) = Some (b, e', fs', k') \<Longrightarrow> fs_inv fs \<Longrightarrow> con_inv k \<Longrightarrow> fs_inv fs' \<and> con_inv k'"
proof (induction keys arbitrary: e fs k)
  case Nil
  then show ?case using draw_keeps by (auto simp: bind_eq_Some_conv)
next
  case (Cons x keys)
  obtain sc ctrl where x: "x = (sc, ctrl)" by (cases x)
  obtain k1 where k1: "editor_draw db e k = Some k1" "con_inv k1" using Cons.prems draw_keeps by (auto simp: bind_eq_Some_conv)
  obtain r e1 fs1 k2 where p: "editor_process_keypress sb st sc ctrl (e, fs, k1) = Some (r, e1, fs1, k2)"
      "(if r then cable_loop db sb st keys (e1, fs1, k2) else Some (False, e1, fs1, k2)) = Some (b, e', fs', k')"
    using Cons.prems(1) k1(1) x by (auto simp: bind_eq_Some_conv)
  have "fs_inv fs1 \<and> con_inv k2" using keypress_keeps [OF p(1) Cons.prems(2) k1(2)] .
  then show ?case using p(2) Cons.IH [of e1 fs1 k2] by (auto split: if_splits)
qed

section \<open>The commands\<close>

text \<open>What a command that returns has kept; compare \<open>handled\<close>, which also says that it returns.\<close>

definition kept :: "system \<Rightarrow> (system + system) option \<Rightarrow> bool" where
  "kept s r \<longleftrightarrow> (\<forall>s'. r = Some (Inr s') \<longrightarrow> sys_ok s' \<and> command_buffer s' = command_buffer s \<and> command_len s' = command_len s)"

lemma handled_kept: "handled ops s r \<Longrightarrow> kept s r"
  by (auto simp: handled_def kept_def)

lemma kept_screen:
  assumes "sys_ok s" "\<And>k'. f (screen s) = Some k' \<Longrightarrow> con_inv k'"
  shows "kept s (map_option Inr (on_screen f s))"
  using assms by (auto simp: kept_def on_screen_def sys_ok_def bind_eq_Some_conv)

lemma kept_files:
  assumes "sys_ok s" "\<And>fs' k'. f (files s, screen s) = Some (fs', k') \<Longrightarrow> fs_inv fs' \<and> con_inv k'"
  shows "kept s (map_option Inr (on_files f s))"
  using assms by (auto simp: kept_def on_files_def sys_ok_def bind_eq_Some_conv)

lemma cat_keeps:
  assumes "cat_command nm (fs, k) = Some (fs', k')" "fs_inv fs" "con_inv k" "terminated nm"
  shows "fs_inv fs' \<and> con_inv k'"
proof -
  obtain r n b where r: "bdfs_read_file nm (replicate 1024 0) fs = Some (r, n, b)"
    using assms(1) by (auto simp: cat_command_def bind_eq_Some_conv)
  show ?thesis
  proof (cases "r = 0")
    case True
    then obtain m :: u32 and k1 where "foldM (\<lambda>i k. do { c \<leftarrow> rd b i; print_char c 0x07 k }) [0..<unat m] k = Some k1" "print_char 10 0x07 k1 = Some k'" "fs' = fs"
      using assms(1) r by (auto simp: cat_command_def bind_eq_Some_conv print_newline)
    then show ?thesis using cell_bytes.run_keeps [OF assms(3)] print_char_keeps assms(2) by blast
  next
    case False
    then show ?thesis
      using assms r report_inv [OF assms(3,4), of "''Error reading from file ''" "''.''" 4] by (auto simp: cat_command_def)
  qed
qed

lemma calc_keeps: "con_inv k \<Longrightarrow> calculator_main l k = Some k' \<Longrightarrow> con_inv k'"
proof -
  assume k: "con_inv k" "calculator_main l k = Some k'"
  obtain v where "kprintf (line ''Result: %d'') [KInt v] k = Some k'"
    using k(2) by (auto simp: calculator_main_def bind_eq_Some_conv)
  moreover have "fmt_ok (line ''Result: %d'') [KInt v]" by (simp add: line_def bytes_def)
  ultimately show ?thesis using kprintf_inv [OF k(1)] by fastforce
qed

lemma reboot_wait_keeps:
  assumes "reboot_wait d k = Some k'"
  shows "con_inv k \<longrightarrow> con_inv k'"
proof (rule reboot_wait.raw_induct [OF _ assms, of "\<lambda>d k r. con_inv k \<longrightarrow> con_inv r"], goal_cases)
  case (1 loop d k r)
  have i: "con_inv (snd (con_inb d 0x64 k)) = con_inv k" by (simp add: con_inb_def con_inv_def split: prod.splits)
  obtain g k1 where g: "con_inb d 0x64 k = (g, k1)" by (cases "con_inb d 0x64 k")
  show ?case using 1 i by (auto simp: g Let_def split: if_splits)
qed

lemma reboot_keeps:
  assumes "con_inv k" "reboot_command d k = Some k'"
  shows "con_inv k'"
proof -
  obtain k1 k2 where "print (line ''Rebooting system...'') 0x05 k = Some k1" "reboot_wait d k1 = Some k2" "k' = con_outb 0x64 0xFE k2"
    using assms(2) by (auto simp: reboot_command_def bind_eq_Some_conv)
  moreover have "con_inv (con_outb 0x64 0xFE k2) = con_inv k2" by (simp add: con_outb_def con_inv_def)
  ultimately show ?thesis using print_keeps [OF assms(1)] reboot_wait_keeps by blast
qed

text \<open>An argument handed to a command that keeps the invariants.\<close>

lemma with_arg_kept:
  assumes "sys_ok s" "terminated (drop q cmd)" "\<And>a. terminated a \<Longrightarrow> kept s (f a s)"
  shows "kept s (with_arg ds f usage cmd (Some q) s)"
proof -
  obtain tok rest where n: "next_token (set (cstr (lit ds))) (cstr (drop q cmd)) = (tok, rest)" by fastforce
  show ?thesis
  proof (cases rule: strtok_next [OF lit_terminated assms(2) n])
    case (1 q')
    then show ?thesis using handled_kept [OF handled_usage [OF assms(1)]] by (simp add: with_arg_def)
  next
    case (2 t b' q')
    then show ?thesis using assms(3) by (simp add: with_arg_def)
  qed
qed

lemma cable_kept:
  assumes "sys_ok s"
  shows "kept s (run_cable v a s)"
proof -
  have i: "fs_inv (files s)" "con_inv (screen s)" using assms by (simp_all add: sys_ok_def)
  have "sys_ok s' \<and> command_buffer s' = command_buffer s \<and> command_len s' = command_len s" if r: "run_cable v a s = Some (Inr s')" for s'
  proof -
    obtain b e fs k where c: "cable_main (file_bytes v) (draw_bytes v) (save_bytes v) (call_bytes v) a (typed v) (ed s, files s, screen s) = Some (b, e, fs, k)"
        "(if b then Some (Inl (s\<lparr>ed := e, files := fs, screen := k\<rparr>))
          else map_option Inr (on_screen (clear_screen 0x05) (s\<lparr>ed := e, files := fs, screen := k\<rparr>))) = Some (Inr s')"
      using r by (auto simp: run_cable_def Let_def bind_eq_Some_conv)
    obtain e0 where "cable_loop (draw_bytes v) (save_bytes v) (call_bytes v) (typed v) (e0, files s, screen s) = Some (b, e, fs, k)"
      using c(1) by (auto simp: cable_main_def bind_eq_Some_conv simp del: cable_loop.simps)
    from cable_keeps [OF this i] have f: "fs_inv fs \<and> con_inv k" .
    then obtain k' where k': "clear_screen 0x05 k = Some k'" "con_inv k'" using clear_screen_inv by blast
    then show ?thesis using c(2) f assms by (auto simp: on_screen_def sys_ok_def split: if_splits)
  qed
  then show ?thesis by (simp add: kept_def)
qed

text \<open>Every command keeps the invariants.\<close>

lemma run_command_kept:
  assumes "sys_ok s" "env_ok v" "terminated (drop q cmd)" "length (cstr (drop q cmd)) < 2 ^ 31"
  shows "kept s (run_command v c cmd (Some q) s)"
proof -
  have i: "fs_inv (files s)" "con_inv (screen s)" using assms(1) by (simp_all add: sys_ok_def)
  obtain a r1 where a: "next_token {32} (cstr (drop q cmd)) = (a, r1)" by fastforce
  obtain b r2 where b: "next_token {32} r1 = (b, r2)" by fastforce
  have l: "length r1 < 2 ^ 31" using next_token_shorter [OF a] assms(4) by simp
  consider "c \<notin> {Cat, Edit, Calc, Reboot}" | "c = Cat" | "c = Edit" | "c = Calc" | "c = Reboot" by blast
  then show ?thesis
  proof cases
    case 1
    then show ?thesis using handled_kept [OF run_command_handled [OF assms(1-3) 1 a b l]] by simp
  next
    case 2
    have "kept s (map_option Inr (on_files (cat_command x) s))" if "terminated x" for x
      using kept_files [OF assms(1), of "cat_command x"] cat_keeps [OF _ i that] by simp
    then show ?thesis unfolding 2 run_command.simps by (rule with_arg_kept [OF assms(1,3)])
  next
    case 3
    show ?thesis unfolding 3 run_command.simps using cable_kept [OF assms(1)] by (rule with_arg_kept [OF assms(1,3)])
  next
    case 4
    have "kept s (map_option Inr (on_screen (calculator_main x) s))" for x
      using kept_screen [OF assms(1), of "calculator_main x"] calc_keeps [OF i(2)] by simp
    then show ?thesis unfolding 4 run_command.simps by (rule with_arg_kept [OF assms(1,3)])
  next
    case 5
    then show ?thesis using kept_screen [OF assms(1), of "reboot_command (dev v)"] reboot_keeps [OF i(2)] by simp
  qed
qed

lemma run_other_kept:
  assumes "sys_ok s" "terminated l"
  shows "kept s (map_option Inr (run_other v l s))"
proof (cases "\<exists>zs. cstr l = zs @ bytes ''.bdx''")
  case False
  then show ?thesis using handled_kept [OF run_other_handled [OF assms]] by simp
next
  case True
  have i: "fs_inv (files s)" "con_inv (screen s)" using assms(1) by (simp_all add: sys_ok_def)
  have c: "cstr (lit ''.bdx'') = bytes ''.bdx''" by (simp add: bytes_def)
  have e: "ends_with (Some l) (Some (lit ''.bdx'')) = Some True"
    using ends_with_eq [OF assms(2) lit_terminated [of "''.bdx''"]] True unfolding c by simp
  have ne: "cstr l \<noteq> []" using True by (auto simp: bytes_def)
  let ?m = "[(lit ''Error executing '', 4), (l, 4), (line '''', 4)]"
  have m: "\<exists>k'. prints ?m k = Some k' \<and> con_inv k'" if "con_inv k" for k
    using that assms(2) by (intro prints_inv) simp_all
  have "sys_ok s' \<and> command_buffer s' = command_buffer s \<and> command_len s' = command_len s" if r: "run_other v l s = Some s'" for s'
  proof -
    obtain x fs k where x: "execute_bdx l (bdx_bytes v) (files s) (screen s) = Some (x, fs, k)"
        "(if x \<noteq> 0 then on_screen (prints ?m) (s\<lparr>files := fs, screen := k\<rparr>) else Some (s\<lparr>files := fs, screen := k\<rparr>)) = Some s'"
      using r ne assms(2) by (auto simp: run_other_def strlen_eq e Let_def bind_eq_Some_conv)
    have "fs_inv fs \<and> con_inv k"
      using x(1) i bdx_keeps by (auto simp: execute_bdx_def bind_eq_Some_conv split: if_splits)
    then show ?thesis using x(2) m [of k] assms(1) by (auto simp: on_screen_def sys_ok_def split: if_splits)
  qed
  then show ?thesis by (auto simp: kept_def)
qed


section \<open>The main loop\<close>

text \<open>A line of any kind; a line without a word does not return.\<close>

lemma process_command_kept:
  assumes "sys_ok s" "env_ok v" "terminated l" "length (cstr l) < 256"
  shows "kept s (process_command v l s)"
proof -
  obtain w r where w: "next_token {32} (cstr l) = (w, r)" by fastforce
  show ?thesis
  proof (cases "w = []")
    case True
    let ?d = "take 256 (cmd_bytes v)"
    let ?cmd = "blit ?d 0 (cstr l @ [0])"
    have cp: "strcpy ?d 0 l = Some ?cmd" using strcpy_eq [OF assms(3), of 0 ?d] assms(2,4) by (simp add: env_ok_def)
    have t: "terminated (drop 0 ?cmd)" "cstr (drop 0 ?cmd) = cstr l"
      using cstr_append_zero [of "cstr l"] by (simp_all add: blit_def)
    have "fst (next_token (set (cstr (lit '' ''))) (cstr (drop 0 ?cmd))) = []"
      using w True t(2) by (simp add: cstr_lit_blank del: cstr_lit)
    from strtok_no_token [OF lit_terminated t(1) this, of None] have "process_command v l s = None"
      by (auto simp: process_command_def cp)
    then show ?thesis by (simp add: kept_def)
  next
    case False
    obtain cmd q where q: "terminated (drop q cmd)" "cstr (drop q cmd) = r"
        "process_command v l s = (case command_of w of Some c \<Rightarrow> run_command v c cmd (Some q) s | None \<Rightarrow> map_option Inr (run_other v l s))"
      using process_command_eq [OF assms(2-4) w False] by blast
    have "length r < 2 ^ 31" using next_token_shorter [OF w] assms(4) by simp
    then show ?thesis
      using q run_command_kept [OF assms(1,2) q(1)] run_other_kept [OF assms(1,3)] by (auto split: option.splits)
  qed
qed

lemma and_then_Some: "and_then r f = Some (Inr y) \<Longrightarrow> \<exists>x. r = Some (Inr x) \<and> f x = Some (Inr y)"
  by (cases r; cases "the r") (auto simp: and_then_def)

lemma enter_line_kept:
  assumes "shell_inv s" "env_ok v" "enter_line v s = Some (Inr s')"
  shows "shell_inv s'"
proof (rule enter_line_eq [OF assms(1), of v])
  fix k b
  assume k: "con_inv k" and b: "terminated b" "cstr b = typed_line s" "length b = 256" "length (typed_line s) < 256"
    and e: "enter_line v s = and_then (process_command v b (s\<lparr>command_buffer := b, screen := k\<rparr>)) (\<lambda>s2.
      do { b' \<leftarrow> memset (command_buffer s2) 0 0 256; s3 \<leftarrow> print_prompt v (s2\<lparr>command_len := 0, command_buffer := b'\<rparr>); Some (Inr s3) })"
  let ?s = "s\<lparr>command_buffer := b, screen := k\<rparr>"
  have ok: "sys_ok ?s" using assms(1) k by (simp add: shell_inv_def)
  obtain s2 where p: "process_command v b ?s = Some (Inr s2)"
    using and_then_Some [OF assms(3) [unfolded e]] by blast
  have "length (cstr b) < 256" using b by simp
  then have s2: "sys_ok s2" "command_buffer s2 = b" using process_command_kept [OF ok assms(2) b(1)] p by (auto simp: kept_def)
  then show ?thesis using line_done [OF s2(1) assms(2)] b(3) assms(3) unfolding e p by auto
qed

lemma shell_step_kept:
  assumes "shell_inv s" "env_ok v" "shell_step v s = Some (Inr s')"
  shows "shell_inv s'"
proof -
  note i = assms(1) [unfolded shell_inv_def sys_ok_def]
  obtain c kb where c: "keyboard_get_char (keyboard (intr s)) = (c, kb)" by fastforce
  let ?s = "s\<lparr>intr := (intr s)\<lparr>keyboard := kb\<rparr>\<rparr>"
  have s: "shell_inv ?s" using i by (simp add: shell_inv_def sys_ok_def typed_line_def intr_inv_def)
  show ?thesis
  proof (cases "c = 0")
    case True
    have "intr_inv (intr ?s)" using s by (simp add: shell_inv_def sys_ok_def)
    then obtain i' h' where "foldM (irq_handler (dev v)) (arriving v) (intr ?s, ports (screen s)) = Some (i', h')" "intr_inv i'"
      using irqs.run_safe [of "(intr ?s, ports (screen s))" "arriving v" "dev v"] assms(2) by (auto simp: env_ok_def list_all_iff)
    then show ?thesis
      using assms(3) s True c by (auto simp: shell_step_def cpu_idle_def shell_inv_def sys_ok_def typed_line_def con_inv_def intr_inv_def)
  next
    case False
    then have st: "shell_char v c ?s = Some (Inr s')" using assms(3) c by (simp add: shell_step_def)
    show ?thesis
    proof (cases "c = 10")
      case True
      then show ?thesis using enter_line_kept [OF s assms(2)] st by (auto simp: shell_char_def)
    next
      case c10: False
      then show ?thesis using shell_char_edits [OF s False c10, of v] st by auto
    qed
  qed
qed

lemma idle_returns:
  assumes "shell_inv s" "env_ok v" "last_char (keyboard (intr s)) = 0"
  shows "\<exists>s'. shell_step v s = Some (Inr s')"
proof -
  have "intr_inv (intr s)" using assms(1) by (simp add: shell_inv_def sys_ok_def)
  then obtain i' h' where "foldM (irq_handler (dev v)) (arriving v) (intr s, ports (screen s)) = Some (i', h')"
    using irqs.run_safe [of "(intr s, ports (screen s))" "arriving v" "dev v"] assms(2) by (auto simp: env_ok_def list_all_iff)
  then show ?thesis using assms(3) by (simp add: shell_step_def keyboard_get_char_def cpu_idle_def)
qed

text \<open>The states that the shell reaches from a state in which it has started.\<close>

inductive shell_reaches :: "system \<Rightarrow> system \<Rightarrow> bool" for s0 where
  start: "shell_reaches s0 s0"
| pass: "shell_reaches s0 s \<Longrightarrow> env_ok v \<Longrightarrow> shell_step v s = Some (Inr s') \<Longrightarrow> shell_reaches s0 s'"

section \<open>Properties\<close>

text \<open>
  (C2) In every state that the shell can reach, whatever is typed, whatever programs are run and
  whatever interrupts arrive, the invariants hold: the file table is well formed and equal to its
  saved copy, the extents are disjoint, cursor, view and screen are in bounds, the dispatch tables
  are intact, and the command line is a string of at most 255 characters in its 256-byte buffer.
\<close>

theorem shell_reachable_inv:
  assumes "shell_reaches s0 s" "shell_inv s0"
  shows "fs_inv (files s) \<and> con_inv (screen s) \<and> intr_inv (intr s) \<and>
    length (command_buffer s) = 256 \<and> command_len s \<le> 255 \<and> 0 \<notin> set (take (command_len s) (command_buffer s))"
proof -
  have "shell_inv s" using assms by (induction rule: shell_reaches.induct) (auto intro: shell_step_kept)
  then show ?thesis by (auto simp: shell_inv_def sys_ok_def typed_line_def)
qed

theorem shell_reachable_inv_witness:
  "\<exists>s. shell_step sample_env sample_system = Some (Inr s) \<and> shell_reaches sample_system s \<and> fs_inv (files s) \<and> command_len s \<le> 255"
proof -
  obtain s where s: "shell_step sample_env sample_system = Some (Inr s)"
    using idle_returns [OF sample_ok(2,4)] by (auto simp: sample_system_def idle_intr_def)
  then have r: "shell_reaches sample_system s" by (rule pass [OF start sample_ok(4)])
  show ?thesis using s r shell_reachable_inv [OF r sample_ok(2)] by blast
qed

end
