(* ===== verification/Kernel.thy ===== *)
theory Kernel
  imports Shell_Props
begin

text \<open>
  The start of the kernel (\<^verbatim>\<open>kernel_main\<close> of \<^verbatim>\<open>src/kernel/BDkernel.c\<close>): every component is initialised
  in the order of the source, and the shell runs on the state that results.  The machine starts
  with the memory map of the boot loader, the addresses that the linker and the assembler supply
  and arbitrary contents elsewhere; hardware interrupts are delivered where the processor is idle.

  The theorem says what the boot establishes: the frame allocator, the page tables, the interrupt
  descriptors, the console, the file system and the shell all start in their invariants.
\<close>

section \<open>Definitions\<close>

record boot =
  mmap :: "e820_entry list"
  bss_end :: u32
  stack_start :: u32
  stack_end :: u32
  idt_addr :: u32
  isr_stub :: "nat \<Rightarrow> u32"
  irq_stub :: "nat \<Rightarrow> u32"

definition cpu_init :: "interrupts \<Rightarrow> interrupts" where
  "cpu_init i = i"

text \<open>The messages about the memory layout.\<close>

definition memory_diagnostics :: "boot \<Rightarrow> env \<Rightarrow> console \<Rightarrow> console option" where
  "memory_diagnostics b v k =
     do { let bss_size = bss_end b - bss_start v;
          let stack_size = stack_end b - stack_start b;
          k1 \<leftarrow> print (line ''Memory Info:'') 0x07 k;
          k2 \<leftarrow> print (lit ''  BSS Size   : '') 0x07 k1;
          k3 \<leftarrow> print_int bss_size 0x07 k2;
          k4 \<leftarrow> print (line '' bytes'') 0x07 k3;
          k5 \<leftarrow> print (lit ''  Stack Size : '') 0x07 k4;
          k6 \<leftarrow> print_int stack_size 0x07 k5;
          print (bytes '' bytes'' @ [10, 10, 0]) 0x07 k6 }"

text \<open>The installation of the interrupt tables, with the controllers' ports in the console's history.\<close>

definition interrupts_start :: "boot \<Rightarrow> env \<Rightarrow> interrupts \<Rightarrow> console \<Rightarrow> (interrupts \<times> console) option" where
  "interrupts_start b v i k =
     do { i1 \<leftarrow> isr_install (isr_stub b) (idt_install (idt_addr b) i);
          (i2, h) \<leftarrow> irq_install (dev v) (irq_stub b) (i1, ports k);
          k1 \<leftarrow> print (line ''INFO: IDT, ISRs, and IRQs installed'') 0x02 (k\<lparr>ports := h\<rparr>);
          Some (i2, k1) }"

definition drivers_start :: "env \<Rightarrow> interrupts \<Rightarrow> bdfs \<Rightarrow> console \<Rightarrow> (interrupts \<times> bdfs \<times> console) option" where
  "drivers_start v i fs k =
     do { (i1, h) \<leftarrow> timer_install (i, ports k);
          k1 \<leftarrow> print (line ''INFO: Timer installed'') 0x02 (k\<lparr>ports := h\<rparr>);
          i2 \<leftarrow> keyboard_install i1;
          k2 \<leftarrow> print (line ''INFO: Keyboard installed'') 0x02 k1;
          k3 \<leftarrow> ata_init (dev v) k2;
          (fs', k4) \<leftarrow> bdfs_init fs k3;
          k5 \<leftarrow> print (line ''INFO: BDFS initialized'') 0x02 k4;
          Some (i2, fs', k5) }"

text \<open>Everything before the shell; \<open>Inl\<close> is the endless loop of \<^verbatim>\<open>map_page\<close> during the bus scan.\<close>

definition kernel_start :: "boot \<Rightarrow> env \<Rightarrow> machine \<Rightarrow> system \<Rightarrow> (console + machine \<times> system) option" where
  "kernel_start b v m s =
     do { p \<leftarrow> pmm_init (kernel_end v) (mmap b) (pm m);
          k1 \<leftarrow> clear_screen 0x07 (con m);
          k2 \<leftarrow> print (bytes ''BrainDance Kernel Loaded.'' @ [10, 10, 0]) 0x04 k1;
          k3 \<leftarrow> memory_diagnostics b v k2;
          (i1, k4) \<leftarrow> interrupts_start b v (intr s) k3;
          (tables, i2) \<leftarrow> paging_install (mm m, i1);
          k5 \<leftarrow> print (line ''INFO: Paging enabled'') 0x02 k4;
          k6 \<leftarrow> print (line ''INFO: Kernel Heap initialized'') 0x02 k5;
          (i3, fs, k7) \<leftarrow> drivers_start v i2 (files s) k6;
          and_then (pci_scan_all (dev v) (m\<lparr>mm := tables, pm := p, con := k7\<rparr>)) (\<lambda>m'.
            Some (Inr (m', s\<lparr>files := fs, screen := con m', intr := cpu_init i3, frames := pm m'\<rparr>))) }"

definition kernel_main :: "boot \<Rightarrow> env \<Rightarrow> env list \<Rightarrow> machine \<Rightarrow> system \<Rightarrow> (console + system + system) option" where
  "kernel_main b v vs m s = and_then (kernel_start b v m s) (\<lambda>(_, s'). map_option Inr (start_shell v vs s'))"


section \<open>The stages of the boot\<close>

lemma bare_clear_inv:
  "rows_ok (scrollback_buffer k) \<Longrightarrow> length (vga_memory k) = 4000 \<Longrightarrow> \<exists>k'. clear_screen color k = Some k' \<and> con_inv k'"
  by (simp add: clear_screen_eq con_inv_def length_window)

lemma two_newlines [simp]: "terminated (bytes s @ [10, 10, 0])"
  by (simp add: terminated_def)

lemma memory_diagnostics_inv: "con_inv k \<Longrightarrow> \<exists>k'. memory_diagnostics b v k = Some k' \<and> con_inv k'"
  unfolding memory_diagnostics_def Let_def by (intro con_bind print_inv print_number_inv) simp_all

definition gates_set :: "boot \<Rightarrow> interrupts \<Rightarrow> bool" where
  "gates_set b i \<longleftrightarrow> (\<forall>n < 32. gate_target (idt i ! n) = isr_stub b n) \<and> (\<forall>n < 16. gate_target (idt i ! (32 + n)) = irq_stub b n)"

lemma interrupts_start_inv:
  assumes "intr_inv i" "con_inv k"
  shows "\<exists>i' k'. interrupts_start b v i k = Some (i', k') \<and> intr_inv i' \<and> con_inv k' \<and> gates_set b i' \<and> irq_routines i' = irq_routines i"
proof -
  let ?i0 = "idt_install (idt_addr b) i"
  have i0: "intr_inv ?i0" "length (idt ?i0) = 256" using assms(1) by (simp_all add: intr_inv_def idt_install_def)
  note e1 = isr_install_eq [OF i0(1), of "isr_stub b"]
  let ?i1 = "?i0\<lparr>interrupt_handlers := replicate 256 None, idt := map (\<lambda>i. gate (isr_stub b i)) [0..<32] @ drop 32 (idt ?i0)\<rparr>"
  have i1: "intr_inv ?i1" using assms(1) by (simp add: intr_inv_def idt_install_def)
  let ?t = "blit (idt ?i1) 32 (map (\<lambda>i. gate (irq_stub b i)) [0..<16])"
  obtain h where e2: "irq_install (dev v) (irq_stub b) (?i1, ports k) = Some (?i1\<lparr>idt := ?t\<rparr>, h)"
    using irq_install_eq [OF i1, of "dev v" "irq_stub b" "ports k"] by (elim exE conjE)
  have l: "length ?t = 256" using i1 by (simp add: intr_inv_def del: upt_rec_numeral)
  have "gate_target (?t ! n) = isr_stub b n" if "n < 32" for n
    using that i0(2) by (simp add: nth_blit nth_append del: upt_rec_numeral)
  moreover have "gate_target (?t ! (32 + n)) = irq_stub b n" if "n < 16" for n
    using that i0(2) by (simp add: nth_blit del: upt_rec_numeral)
  ultimately have g: "gates_set b (?i1\<lparr>idt := ?t\<rparr>)" by (simp add: gates_set_def del: upt_rec_numeral)
  have i2: "intr_inv (?i1\<lparr>idt := ?t\<rparr>)" using i1 l by (simp add: intr_inv_def del: upt_rec_numeral)
  obtain k' where "print (line ''INFO: IDT, ISRs, and IRQs installed'') 0x02 (k\<lparr>ports := h\<rparr>) = Some k'" "con_inv k'"
    using print_inv [of "k\<lparr>ports := h\<rparr>" "line ''INFO: IDT, ISRs, and IRQs installed''" 2] assms(2) by auto
  then have "interrupts_start b v i k = Some (?i1\<lparr>idt := ?t\<rparr>, k')"
    unfolding interrupts_start_def e1 Option.bind.simps e2 prod.case by (simp only: Option.bind.simps)
  moreover have "irq_routines (?i1\<lparr>idt := ?t\<rparr>) = irq_routines i" by (simp add: idt_install_def)
  ultimately show ?thesis using g i2 \<open>con_inv k'\<close> by blast
qed

lemma drivers_start_inv:
  assumes "intr_inv i" "con_inv k" "gets_ready (dev v)" "length (bdfs_storage fs) = 34816" "of_le32 (take 4 (bdfs_storage fs)) \<noteq> BDFS_MAGIC"
  shows "\<exists>fs' k'. drivers_start v i fs k =
      Some (i\<lparr>irq_routines := (irq_routines i)[0 := Some Timer_handler, 1 := Some Keyboard_handler]\<rparr>, fs', k') \<and>
    con_inv k' \<and> fs_inv fs' \<and> file_table fs' = default_table \<and> current_dir_inode fs' = 0"
proof -
  have l: "length (irq_routines i) = 16" using assms(1) by (simp add: intr_inv_def)
  obtain h where t: "timer_install (i, ports k) = Some (i\<lparr>irq_routines := (irq_routines i)[0 := Some Timer_handler]\<rparr>, h)"
    using l by (simp add: timer_install_def irq_install_handler_def Let_def)
  have kb: "keyboard_install (i\<lparr>irq_routines := (irq_routines i)[0 := Some Timer_handler]\<rparr>) =
      Some (i\<lparr>irq_routines := (irq_routines i)[0 := Some Timer_handler, 1 := Some Keyboard_handler]\<rparr>)"
    using l by (simp add: keyboard_install_def irq_install_handler_def)
  obtain k1 where k1: "print (line ''INFO: Timer installed'') 0x02 (k\<lparr>ports := h\<rparr>) = Some k1" "con_inv k1"
    using print_inv [of "k\<lparr>ports := h\<rparr>" "line ''INFO: Timer installed''" 2] assms(2) by auto
  obtain k2 where k2: "print (line ''INFO: Keyboard installed'') 0x02 k1 = Some k2" "con_inv k2"
    using print_inv [OF k1(2), of "line ''INFO: Keyboard installed''" 2] by auto
  obtain k3 where k3: "ata_init (dev v) k2 = Some k3" "con_inv k3" using init_returns [OF assms(3) k2(2)] by blast
  obtain fs' k4 where k4: "bdfs_init fs k3 = Some (fs', k4)" "con_inv k4" "fs_inv fs'" "file_table fs' = default_table" "current_dir_inode fs' = 0"
    using init_fresh [OF assms(4,5) k3(2)] by blast
  obtain k5 where k5: "print (line ''INFO: BDFS initialized'') 0x02 k4 = Some k5" "con_inv k5"
    using print_inv [OF k4(2), of "line ''INFO: BDFS initialized''" 2] by auto
  show ?thesis
    unfolding drivers_start_def by (simp add: t k1(1) kb k2(1) k3(1) k4 k5)
qed

text \<open>A bus without Ethernet controllers leaves the machine alone.\<close>

definition no_ethernet :: "device \<Rightarrow> bool" where
  "no_ethernet d \<longleftrightarrow> (\<forall>bus slot func k. drop_bit 16 (fst (pci_config_read d bus slot func 0x08 k)) \<noteq> 0x0200)"


lemma class_bytes:
  assumes "(ucast (drop_bit 24 c AND 0xFF :: u32) :: byte) = 2" "(ucast (drop_bit 16 c AND 0xFF :: u32) :: byte) = 0"
  shows "drop_bit 16 c = 0x0200"
proof -
  have m: "(0xFF :: u32) = mask 8" by (simp add: mask_numeral)
  have b: "bit (ucast (x AND 0xFF :: u32) :: byte) n = (n < 8 \<and> bit x n)" for x n
    unfolding m by (auto simp: bit_simps)
  have c1: "bit c (24 + n) = bit (2 :: byte) n" "bit c (16 + n) = False" if "n < 8" for n
    using that b [of "drop_bit 24 c" n] b [of "drop_bit 16 c" n] assms by (simp_all add: bit_drop_bit_eq)
  show ?thesis
  proof (rule bit_word_eqI)
    fix n
    assume n: "n < LENGTH(32)"
    have two: "bit (0x0200 :: u32) n = (n = 9)" "j < 8 \<Longrightarrow> bit (2 :: byte) j = (j = 1)" for j
      using bit_exp_iff [where 'a = "32 word", of 9 n] bit_exp_iff [where 'a = "8 word", of 1 j] by auto
    consider "n < 8" | "8 \<le> n" "n < 16" | "16 \<le> n" by linarith
    then show "bit (drop_bit 16 c) n = bit (0x0200 :: u32) n"
    proof cases
      case 1
      then show ?thesis using c1(2) [OF 1] two(1) by (simp add: bit_drop_bit_eq)
    next
      case 2
      then have "bit c (24 + (n - 8)) = (n - 8 = 1)" using c1(1) [of "n - 8"] two(2) by simp
      moreover have "24 + (n - 8) = 16 + n" using 2 by simp
      ultimately show ?thesis using 2 two(1) by (auto simp: bit_drop_bit_eq)
    next
      case 3
      then have "\<not> bit c (16 + n)" using bit_imp_le_length [of c "16 + n"] by auto
      then show ?thesis using 3 two(1) by (simp add: bit_drop_bit_eq)
    qed
  qed
qed

lemma scan_one_quiet:
  assumes "no_ethernet d" "con_inv (con m)"
  shows "\<exists>k. pci_scan_one d e m = Some (Inr (m\<lparr>con := k\<rparr>)) \<and> con_inv k"
proof -
  obtain bus slot func where e: "e = (bus, slot, func)" by (cases e) auto
  obtain x k1 where 1: "pci_config_read d bus slot func 0x00 (con m) = (x, k1)" "con_inv k1"
    using config_read_inv [OF assms(2)] by (metis prod.collapse)
  obtain c k2 where 2: "pci_config_read d bus slot func 0x08 k1 = (c, k2)" "con_inv k2"
    using config_read_inv [OF 1(2)] by (metis prod.collapse)
  have "drop_bit 16 c \<noteq> 0x0200" using assms(1) 2(1) unfolding no_ethernet_def by (metis fst_conv)
  then have "\<not> ((ucast (drop_bit 24 c AND 0xFF) :: byte) = 2 \<and> (ucast (drop_bit 16 c AND 0xFF) :: byte) = 0)"
    using class_bytes by blast
  then have "pci_scan_one d e m = Some (Inr (m\<lparr>con := k1\<rparr>)) \<or> pci_scan_one d e m = Some (Inr (m\<lparr>con := k2\<rparr>))"
    unfolding pci_scan_one_def e Let_def prod.case 1(1) 2(1) by (simp only: if_False) auto
  then show ?thesis using 1(2) 2(2) by blast
qed

lemma scan_quiet:
  assumes "no_ethernet d" "con_inv (con m)"
  shows "\<exists>k. for_each (pci_scan_one d) es m = Some (Inr (m\<lparr>con := k\<rparr>)) \<and> con_inv k"
  using assms(2)
proof (induction es arbitrary: m)
  case Nil
  then show ?case by (intro exI [of _ "con m"]) simp
next
  case (Cons e es)
  obtain k1 where k1: "pci_scan_one d e m = Some (Inr (m\<lparr>con := k1\<rparr>))" "con_inv k1" using scan_one_quiet [OF assms(1) Cons.prems] by blast
  obtain k where "for_each (pci_scan_one d) es (m\<lparr>con := k1\<rparr>) = Some (Inr (m\<lparr>con := k1\<rparr>\<lparr>con := k\<rparr>))" "con_inv k"
    using Cons.IH [of "m\<lparr>con := k1\<rparr>"] k1(2) by auto
  then show ?case using k1(1) by auto
qed

section \<open>The whole boot\<close>

text \<open>
  What the boot loader, the linker and the hardware owe the kernel: a memory map below 4 GiB whose
  usable regions do not overlap and hold the kernel at 1 MiB, paging off, cleared static variables,
  a drive that gets ready, and no network card.
\<close>

definition boot_ready :: "boot \<Rightarrow> env \<Rightarrow> machine \<Rightarrow> system \<Rightarrow> bool" where
  "boot_ready b v m s \<longleftrightarrow> boot_ok (kernel_end v) (mmap b) (pm m) \<and> 8 dvd mem_top (mmap b) div 4096 \<and>
     distinct (concat (map usable_blocks (mmap b))) \<and> (\<forall>x \<in> set (concat (map usable_blocks (mmap b))). x < mem_top (mmap b) div 4096) \<and>
     0x100000 \<le> unat (kernel_end v) \<and> kernel_blocks (kernel_end v) (mmap b) \<le> mem_top (mmap b) div 4096 \<and> mem_top (mmap b) < 2 ^ 32 \<and>
     \<not> pg (mm m) \<and> rows_ok (scrollback_buffer (con m)) \<and> length (vga_memory (con m)) = 4000 \<and> intr_inv (intr s) \<and>
     length (bdfs_storage (files s)) = 34816 \<and> of_le32 (take 4 (bdfs_storage (files s))) \<noteq> BDFS_MAGIC \<and>
     length (command_buffer s) = 256 \<and> command_len s = 0 \<and> gets_ready (dev v) \<and> no_ethernet (dev v) \<and> env_ok v"

lemma kernel_frames_owned:
  assumes "boot_ok kend es p" "8 dvd mem_top es div 4096" "distinct (concat (map usable_blocks es))"
    "\<forall>b \<in> set (concat (map usable_blocks es)). b < mem_top es div 4096"
    "0x100000 \<le> unat kend" "kernel_blocks kend es \<le> mem_top es div 4096"
  obtains p' where "pmm_init kend es p = Some p'" "pmm_inv p'" "unat (total_blocks p') = mem_top es div 4096"
    "\<And>f. f < 256 \<Longrightarrow> of_nat f * 4096 \<in> owned_frames p'"
proof -
  have kb: "256 \<le> kernel_blocks kend es" using assms(5) by (simp add: kernel_blocks_def bitmap_end_def div_le_mono [of "0x100000" _ 4096, simplified])
  obtain p' where p': "pmm_init kend es p = Some p'" "pmm_inv p'" "unat (total_blocks p') = mem_top es div 4096"
    using pmm_init_inv [OF assms(1-4) _ assms(6)] kb by auto
  obtain p2 where p2: "pmm_init kend es p = Some p2" "\<And>b. b < 8 * (mem_top es div 4096 div 8) \<Longrightarrow> marked p2 b \<longleftrightarrow>
       b < kernel_blocks kend es \<or> (\<forall>e \<in> set es. b \<notin> set (usable_blocks e))"
    using pmm_init_eq [OF assms(1)] by metis
  have e: "p2 = p'" and d: "8 * (mem_top es div 4096 div 8) = mem_top es div 4096" using p2(1) p'(1) assms(2) by simp_all
  have "of_nat f * 4096 \<in> owned_frames p'" if "f < 256" for f
    using that kb assms(6) p'(3) p2(2) [of f] unfolding e d owned_frames_def by auto
  then show ?thesis using that p' by blast
qed


lemma total_mb_booted:
  assumes "unat (total_blocks p) = mem_top es div 4096" "mem_top es < 2 ^ 32" "0x100000 \<le> unat kend" "kernel_blocks kend es \<le> mem_top es div 4096"
  shows "total_mb p \<noteq> 0"
proof -
  let ?n = "unat (total_blocks p)"
  have "256 \<le> kernel_blocks kend es" using assms(3) by (simp add: kernel_blocks_def bitmap_end_def div_le_mono [of "0x100000" _ 4096, simplified])
  then have n: "256 \<le> ?n" "?n * 4096 < 2 ^ 32" using assms(1,2,4) by simp_all
  have "unat (pmm_get_total_memory p) = ?n * 4096" using n(2) by (simp add: pmm_get_total_memory_def unat_word_ariths)
  then have "unat (total_mb p) = ?n * 4096 div 1024 div 1024" by (simp add: total_mb_def unat_div)
  then have "0 < unat (total_mb p)" using n(1) by (simp add: div_greater_zero_iff)
  then show ?thesis by auto
qed

lemma handlers_inv:
  assumes "intr_inv i"
  shows "intr_inv (i\<lparr>irq_routines := (irq_routines i)[0 := Some Timer_handler, 1 := Some Keyboard_handler]\<rparr>)"
proof -
  have "set ((irq_routines i)[0 := Some Timer_handler, 1 := Some Keyboard_handler]) \<subseteq>
      insert (Some Keyboard_handler) (insert (Some Timer_handler) (set (irq_routines i)))"
    by (meson insert_mono order_trans set_update_subset_insert)
  then show ?thesis using assms by (auto simp: intr_inv_def)
qed

lemma boot_start:
  assumes "boot_ready b v m s"
  obtains m' s' where "kernel_start b v m s = Some (Inr (m', s'))" "shell_inv s'" "typed_line s' = []" "frames s' = pm m'"
    "paging_inv (mm m') (pm m')" "file_table (files s') = default_table" "current_dir_inode (files s') = 0" "gates_set b (intr s')"
    "irq_routines (intr s') ! 0 = Some Timer_handler" "irq_routines (intr s') ! 1 = Some Keyboard_handler"
    "interrupt_handlers (intr s') ! 14 = Some Page_fault_handler"
    "\<forall>va. pdx va = 0 \<longrightarrow> translate (mm m') va = Some (drop_bit 12 va)"
proof -
  note r = assms [unfolded boot_ready_def]
  obtain p where p: "pmm_init (kernel_end v) (mmap b) (pm m) = Some p" "pmm_inv p" "unat (total_blocks p) = mem_top (mmap b) div 4096"
      "\<And>f. f < 256 \<Longrightarrow> of_nat f * 4096 \<in> owned_frames p"
    using kernel_frames_owned [of "kernel_end v" "mmap b" "pm m"] r by blast
  have own: "push_bit 12 (0x91 :: u32) \<in> owned_frames p" "page_directory \<in> owned_frames p"
    using p(4) [of "0x91"] p(4) [of "0x90"] by (simp_all add: push_bit_eq_mult)
  obtain k1 where k1: "clear_screen 0x07 (con m) = Some k1" "con_inv k1" using bare_clear_inv r by blast
  obtain k2 where k2: "print (bytes ''BrainDance Kernel Loaded.'' @ [10, 10, 0]) 0x04 k1 = Some k2" "con_inv k2"
    using print_inv [OF k1(2) two_newlines] by blast
  obtain k3 where k3: "memory_diagnostics b v k2 = Some k3" "con_inv k3" using memory_diagnostics_inv [OF k2(2)] by blast
  obtain i1 k4 where i1: "interrupts_start b v (intr s) k3 = Some (i1, k4)" "intr_inv i1" "con_inv k4" "gates_set b i1"
    using interrupts_start_inv [of "intr s" k3] r k3(2) by blast
  let ?i2 = "i1\<lparr>interrupt_handlers := (interrupt_handlers i1)[14 := Some Page_fault_handler]\<rparr>"
  have pi: "paging_install (mm m, i1) = Some (boot_tables (mm m), ?i2)" using paging_install_eq [OF _ i1(2)] r by blast
  have i2: "intr_inv ?i2" using i1(2) by (simp add: intr_inv_def)
  obtain k5 where k5: "print (line ''INFO: Paging enabled'') 0x02 k4 = Some k5" "con_inv k5" using print_inv [OF i1(3) line_terminated] by blast
  obtain k6 where k6: "print (line ''INFO: Kernel Heap initialized'') 0x02 k5 = Some k6" "con_inv k6" using print_inv [OF k5(2) line_terminated] by blast
  let ?i3 = "?i2\<lparr>irq_routines := (irq_routines ?i2)[0 := Some Timer_handler, 1 := Some Keyboard_handler]\<rparr>"
  obtain fs k7 where d: "drivers_start v ?i2 (files s) k6 = Some (?i3, fs, k7)" "con_inv k7" "fs_inv fs" "file_table fs = default_table" "current_dir_inode fs = 0"
    using drivers_start_inv [OF i2 k6(2), of v "files s"] r by blast
  let ?m = "m\<lparr>mm := boot_tables (mm m), pm := p, con := k7\<rparr>"
  have nc: "con_inv (con ?m)" using d(2) by simp
  obtain k8 where k8: "pci_scan_all (dev v) ?m = Some (Inr (?m\<lparr>con := k8\<rparr>))" "con_inv k8"
    using scan_quiet [OF _ nc, of "dev v" pci_functions] r unfolding pci_scan_all_def by blast
  let ?m' = "?m\<lparr>con := k8\<rparr>"
  let ?s = "s\<lparr>files := fs, screen := con ?m', intr := cpu_init ?i3, frames := pm ?m'\<rparr>"
  have "kernel_start b v m s = Some (Inr (?m', ?s))"
    unfolding kernel_start_def by (simp only: p(1) k1(1) k2(1) k3(1) i1(1) pi k5(1) k6(1) d(1) k8(1) Option.bind.simps prod.case and_then_Inr)
  moreover have "total_mb p \<noteq> 0" using total_mb_booted [OF p(3)] r by blast
  moreover have i3: "intr_inv ?i3" using handlers_inv [OF i2] .
  ultimately show ?thesis
  proof (intro that [of ?m' ?s])
    show "paging_inv (mm ?m') (pm ?m')" using boot_tables_inv [OF p(2) own] by simp
    show "gates_set b (intr ?s)" using i1(4) by (simp add: gates_set_def cpu_init_def)
    show "irq_routines (intr ?s) ! 0 = Some Timer_handler" "irq_routines (intr ?s) ! 1 = Some Keyboard_handler"
      "interrupt_handlers (intr ?s) ! 14 = Some Page_fault_handler"
      using i1(2) by (simp_all add: cpu_init_def intr_inv_def)
    show "shell_inv ?s" if "total_mb p \<noteq> 0"
      using that i3 d k8(2) r by (simp add: shell_inv_def sys_ok_def typed_line_def cpu_init_def)
  qed (use d r boot_translate in \<open>simp_all add: typed_line_def\<close>)
qed


lemma shell_starts:
  assumes "shell_inv s" "env_ok v"
  shows "\<exists>k. start_shell v [] s = Some (Inr (s\<lparr>screen := k\<rparr>)) \<and> con_inv k"
proof -
  have i: "sys_ok s" "con_inv (screen s)" using assms(1) by (simp_all add: shell_inv_def sys_ok_def)
  obtain k1 where k1: "print (line ''Welcome to BrainDance OS'') 0x0B (screen s) = Some k1" "con_inv k1"
    using print_inv [OF i(2) line_terminated] by blast
  have "sys_ok (s\<lparr>screen := k1\<rparr>)" using i(1) k1(2) by (rule sys_ok_screen)
  then obtain k2 where "print_prompt v (s\<lparr>screen := k1\<rparr>) = Some (s\<lparr>screen := k1\<rparr>\<lparr>screen := k2\<rparr>)" "con_inv k2"
    using print_prompt_inv assms(2) by blast
  then show ?thesis using k1(1) by (auto simp: start_shell_def on_screen_def)
qed

section \<open>Properties\<close>

text \<open>
  (C9) The kernel boots: on a machine with usable memory, a drive that gets ready and no network card,
  the start-up sequence runs to the shell's prompt.  Then the frame allocator and the page tables
  satisfy their invariant, the first 4 MiB (kernel, screen and page tables) are mapped to themselves,
  all 48 interrupt gates point to their stubs with timer, keyboard and page fault handlers in
  place, the file system holds exactly the default directories, and the shell waits with an empty line
  in its invariant.
\<close>

theorem kernel_boots:
  assumes "boot_ready b v m s"
  shows "\<exists>m' s' k. kernel_start b v m s = Some (Inr (m', s')) \<and> kernel_main b v [] m s = Some (Inr (Inr (s'\<lparr>screen := k\<rparr>))) \<and>
    shell_inv s' \<and> con_inv k \<and> typed_line s' = [] \<and> frames s' = pm m' \<and> paging_inv (mm m') (pm m') \<and>
    (\<forall>va. pdx va = 0 \<longrightarrow> translate (mm m') va = Some (drop_bit 12 va)) \<and>
    file_table (files s') = default_table \<and> current_dir_inode (files s') = 0 \<and>
    (\<forall>n < 32. gate_target (idt (intr s') ! n) = isr_stub b n) \<and> (\<forall>n < 16. gate_target (idt (intr s') ! (32 + n)) = irq_stub b n) \<and>
    irq_routines (intr s') ! 0 = Some Timer_handler \<and> irq_routines (intr s') ! 1 = Some Keyboard_handler \<and>
    interrupt_handlers (intr s') ! 14 = Some Page_fault_handler"
proof -
  obtain m' s' where k: "kernel_start b v m s = Some (Inr (m', s'))" "shell_inv s'" and rest: "typed_line s' = []" "frames s' = pm m'"
    "paging_inv (mm m') (pm m')" "file_table (files s') = default_table" "current_dir_inode (files s') = 0" "gates_set b (intr s')"
    "irq_routines (intr s') ! 0 = Some Timer_handler" "irq_routines (intr s') ! 1 = Some Keyboard_handler"
    "interrupt_handlers (intr s') ! 14 = Some Page_fault_handler"
    "\<forall>va. pdx va = 0 \<longrightarrow> translate (mm m') va = Some (drop_bit 12 va)"
    by (rule boot_start [OF assms])
  have "env_ok v" using assms by (simp add: boot_ready_def)
  then obtain k' where k': "start_shell v [] s' = Some (Inr (s'\<lparr>screen := k'\<rparr>))" "con_inv k'" using shell_starts [OF k(2)] by blast
  then have "kernel_main b v [] m s = Some (Inr (Inr (s'\<lparr>screen := k'\<rparr>)))" by (simp add: kernel_main_def k(1))
  then show ?thesis using k k'(2) rest unfolding gates_set_def by (intro exI [of _ m'] exI [of _ s'] exI [of _ k'] conjI) auto
qed

definition sample_boot :: boot where
  "sample_boot = \<lparr>mmap = [\<lparr>base = 0, len = 0x1000000, etype = 1\<rparr>], bss_end = 0x120000, stack_start = 0x120000, stack_end = 0x130000,
     idt_addr = 0x110000, isr_stub = (\<lambda>n. 0x101000 + of_nat n), irq_stub = (\<lambda>n. 0x102000 + of_nat n)\<rparr>"

definition sample_machine :: machine where
  "sample_machine = boot_machine\<lparr>mm := blank_mmu, pm := \<lparr>pmm_bitmap = replicate 256 0, total_blocks = 0, used_blocks = 0\<rparr>\<rparr>"

definition cold_system :: system where
  "cold_system = sample_system\<lparr>files := \<lparr>bdfs_storage = replicate 34816 0, file_table = [], current_dir_inode = 0\<rparr>\<rparr>"

lemma sample_boot_ready: "boot_ready sample_boot (sample_env\<lparr>kernel_end := 0x100000\<rparr>) sample_machine cold_system"
proof -
  have t: "mem_top (mmap sample_boot) = 0x1000000" by (simp add: sample_boot_def entry_end_def)
  have u: "concat (map usable_blocks (mmap sample_boot)) = [0..<4096]"
    using map_idI [of "[0..<4096]" "(+) (0 :: nat)"] by (simp add: sample_boot_def usable_blocks_def block_count_def del: upt_rec_numeral)
  have d: "dev sample_env = (\<lambda>h p. 0)" by (simp add: sample_env_def)
  have g: "gets_ready (\<lambda>h p. 0)" by (simp add: gets_ready_def inb_def)
  have n: "no_ethernet (\<lambda>h p. 0)" by (simp add: no_ethernet_def pci_config_read_def inl_def outl_def)
  have b: "boot_ok 0x100000 (mmap sample_boot) (pm sample_machine)"
    unfolding boot_ok_def kernel_blocks_def bitmap_end_def t by (simp add: sample_boot_def sample_machine_def entry_end_def)
  have c: "con_inv (con sample_machine)" by (simp add: sample_machine_def boot_machine_def boot_console_inv)
  have o1: "of_le32 (take 4 (replicate 34816 0)) \<noteq> BDFS_MAGIC" by (simp add: of_le32_def)
  show ?thesis
    unfolding boot_ready_def u t kernel_blocks_def bitmap_end_def using b g n c o1 sample_ok(4) idle_intr_inv
    by (auto simp: d con_inv_def cold_system_def sample_system_def sample_machine_def boot_machine_def blank_mmu_def env_ok_def simp del: upt_rec_numeral)
qed

theorem kernel_boots_witness:
  "\<exists>(m' :: machine) s' k. kernel_main sample_boot (sample_env\<lparr>kernel_end := 0x100000\<rparr>) [] sample_machine cold_system = Some (Inr (Inr (s'\<lparr>screen := k\<rparr>))) \<and>
     shell_inv s' \<and> paging_inv (mm m') (frames s') \<and> translate (mm m') 0xB8000 = Some 0xB8 \<and> file_table (files s') = default_table"
proof -
  obtain m' :: machine and s' k where w: "kernel_main sample_boot (sample_env\<lparr>kernel_end := 0x100000\<rparr>) [] sample_machine cold_system = Some (Inr (Inr (s'\<lparr>screen := k\<rparr>)))"
      "shell_inv s'" "frames s' = pm m'" "paging_inv (mm m') (pm m')"
      "\<forall>va. pdx va = 0 \<longrightarrow> translate (mm m') va = Some (drop_bit 12 va)" "file_table (files s') = default_table"
    using kernel_boots [OF sample_boot_ready] by blast
  have "pdx 0xB8000 = 0" by (simp add: indices)
  then have "translate (mm m') 0xB8000 = Some 0xB8" using w(5) by simp
  then show ?thesis using w by (intro exI [of _ m'] exI [of _ s'] exI [of _ k]) simp
qed

end
