(* ===== verification/Spec2Isabelle.thy ===== *)
theory Spec2Isabelle
  imports Bdfs_Props Console_Props Bdx Calculator Ata Cable Network Shell_Inv Kernel
begin

text \<open>
  BrainDance is a hobby operating system: a freestanding 32-bit x86 kernel in C with a text console,
  memory management, interrupt-driven timer and keyboard, an ATA driver, a PCI scan with the start of
  an E1000 driver, an in-memory file system (BDFS), a bytecode interpreter, an editor, a calculator and
  a command shell.  This library models all of its C code and proves what makes each part correct, up
  to the composition of all parts: power-on, boot, prompt, and a session of typed commands.

  \<^bold>\<open>The program and its parts.\<close>  The boot loader jumps to \<^verbatim>\<open>kernel_main\<close>, which builds the frame
  bitmap from the BIOS memory map, clears the screen, installs the interrupt tables, enables paging,
  starts timer, keyboard and disk driver, initialises BDFS, scans the PCI bus (which starts the network
  card when there is one) and enters the shell.  The shell takes characters from the keyboard driver,
  edits a line, and dispatches it to a command handler; handlers call BDFS and the console, and the
  commands \<^verbatim>\<open>cable\<close>, \<^verbatim>\<open>calc\<close> and \<^verbatim>\<open>NAME.bdx\<close> call the editor, the calculator and the interpreter.  The editor
  itself saves by assembling a program for the interpreter.  Everything prints through the console.

  \<^bold>\<open>Theories and sources\<close> (paths under \<^verbatim>\<open>src/\<close>).
  \<^item> \<open>BD_Prelude\<close>: types of the model, checked accesses (\<open>rd\<close>, \<open>wr\<close>, \<open>blit\<close>), C strings (\<open>cstr\<close>,
    \<open>terminated\<close>), the loop \<open>foldM\<close>, the collections \<open>buf_simps\<close> and \<open>inv_intros\<close>, and the
    locale \<open>safe_step\<close>.
  \<^item> \<open>Memcore\<close>: the memory and string functions of \<^verbatim>\<open>libc/memcore.c\<close> and \<^verbatim>\<open>libc/mathlib.c\<close>, loop by loop, with
    their closed forms (overlapping moves included).
  \<^item> \<open>Ports\<close>: \<^verbatim>\<open>include/ports.h\<close>; the machine's input and output is the list of port events.
  \<^item> \<open>Console\<close>, \<open>Console_Props\<close>: the screen half of \<^verbatim>\<open>libc/memcore.c\<close>.  State \<open>console\<close> (scrollback
    buffer, cursor, view, video memory).  \<open>print_char\<close> equals a reference terminal; every sequence of calls
    is safe; \<open>kprintf\<close> and \<open>snprintf\<close> print the formatted text.
  \<^item> \<open>Bdfs\<close>, \<open>Bdfs_Inv\<close>, \<open>Bdfs_Props\<close>: \<^verbatim>\<open>fs/bdfs.c\<close>.  State \<open>bdfs\<close> (RAM disk, file table, current
    directory).  The invariant \<open>fs_inv\<close> (well-formed table, unique names, disjoint extents, saved copy in
    step) is kept by every call; the current directory implements a finite map; writing and reading
    round-trip; files are isolated; the saved table reloads.
  \<^item> \<open>Pmm\<close>, \<open>Heap_Alloc\<close>, \<open>Paging\<close>: \<^verbatim>\<open>memory/pmm.c\<close>, \<^verbatim>\<open>memory/heap.c\<close>, \<^verbatim>\<open>memory/paging.c\<close>.  The blocks that
    the bitmap marks after boot, the block that it wrongly leaves free included; allocations are
    distinct; heap blocks are disjoint; \<open>map_page\<close>
    and \<open>get_phys_addr\<close> agree with the two-level walk of the hardware.
  \<^item> \<open>Interrupts\<close>: \<^verbatim>\<open>arch/i386/{idt,isr,irq,pic,timer}.c\<close>, \<^verbatim>\<open>kernel/cpu.c\<close>,
    \<^verbatim>\<open>drivers/keyboard_driver.c\<close>.  Dispatch through tables of routines; end-of-interrupt commands, tick
    counts and delivered characters are those of the interrupt sequence.
  \<^item> \<open>Bdx\<close>: \<^verbatim>\<open>exec/exec.c\<close>.  Assembled programs run to their end and make exactly their calls.
  \<^item> \<open>Calculator\<close>: \<^verbatim>\<open>app/utils/calculator.c\<close>.  Every expression of an inductive grammar evaluates to
    its value, when it fits the buffers.
  \<^item> \<open>Ata\<close>, \<open>Network\<close>: \<^verbatim>\<open>drivers/ata/ata.c\<close>, \<^verbatim>\<open>network/pci.c\<close>, \<^verbatim>\<open>network/e1000.c\<close>.  Command sequences and
    transferred data; the page mappings made for the card.
  \<^item> \<open>Cable\<close>: \<^verbatim>\<open>app/utils/cable.c\<close>.  Keys refine an editor on a list of lines; saving stores the lines.
  \<^item> \<open>Shell\<close>, \<open>Shell_Props\<close>, \<open>Shell_Inv\<close>: \<^verbatim>\<open>shell/shell.c\<close>.  State \<open>system\<close>.  A session refines a line editor
    followed by the file-system calls of the lines; the invariants hold in all reachable states.
  \<^item> \<open>Kernel\<close>: \<^verbatim>\<open>kernel/BDkernel.c\<close>.  The boot reaches the prompt and establishes all invariants.
  \<^item> This theory: power-on followed by a session, and programs stored in files.

  \<^bold>\<open>Conventions.\<close>  A C object is a list of bytes of its size, and static variables are the fields of a
  record that operations return updated.  Machine integers are words; arithmetic wraps where it can.
  \<^term>\<open>None\<close> is a run that leaves an object, follows a null pointer, divides by zero, faults on a page or
  never ends; the error codes of the C code are ordinary values; \<open>Inl\<close> is a deliberate endless loop (a
  panic, the loop of \<open>map_page\<close> without frames) or a wait for input that
  has not come (the keyboard waits, the editor).  A
  theorem that an operation works therefore states that the result is \<open>Some\<close>.  Loops with a C bound are
  structural recursion over that bound; the unbounded ones (\<open>interpret_loop\<close>, \<open>ata_wait\<close>, \<open>reboot_wait\<close>,
  \<open>free_region\<close>) are partial functions, and termination is proved where it holds.  No fuel is used: the
  endless main loops of shell and editor run over the list of their inputs.

  \<^bold>\<open>Parameters.\<close>  The hardware behind the ports is a function from the history of port events to the value
  read; linker symbols, addresses of assembly stubs, the BIOS memory map (record \<open>boot\<close>), the former contents
  of uninitialised stack buffers, and the arriving interrupts and keys (record \<open>env\<close>) are arguments.

  \<^bold>\<open>Interfaces.\<close>  \<open>safe_step\<close> (operations that keep an invariant never fail in any sequence; interpreted on
  the console calls, the file-system calls, the interrupt handler, programs, directory listings, the bus
  listing and the driver messages), \<open>keeps_inv\<close> (operations that may fail but keep the invariant when they
  return), \<open>directory\<close> (create, delete and rename on a finite map, interpreted on BDFS), \<open>bump_source\<close>
  (disjoint blocks, interpreted on the heap) and \<open>frame_source\<close> (distinct frames, interpreted on the
  bitmap).

  \<^bold>\<open>Where the code falls short.\<close>  Theorems also pin down behaviours that differ from the intention:
  the first data sector is overwritten by the saved table (so the first file does not read back, and a
  program stored there does not run), a huge write size wraps, the frame allocator hands out the frame
  that holds the end of its own bitmap, \<^verbatim>\<open>unmap_page\<close> uses a physical address, a six-byte program
  hangs the machine, a blank command line reads address 0, the receive ring of the card lies in its
  first receive buffer, typing with the cursor behind the end of a line leaves the editor's buffer, and
  the smallest \<^verbatim>\<open>int\<close> is not printed in decimal.

  \<^bold>\<open>Not modelled.\<close>  \<^verbatim>\<open>boot/*.asm\<close>, \<^verbatim>\<open>arch/i386/*.asm\<close>, \<^verbatim>\<open>kernel/linker.ld\<close> and the \<^verbatim>\<open>Makefile\<close> (assembly and
  build; the C side sees their symbols as parameters); headers that only declare prototypes; the
  documentation.  Interrupts are delivered where the processor waits
  (\<^verbatim>\<open>cpu_idle\<close>, the \<^verbatim>\<open>halt\<close> command, the keyboard waits); elsewhere a handler touches only the tick
  counters and the keyboard variables, and its interleaving with running code is not modelled.  The
  editor's keys are a list of its own, which the keyboard state does not see.  The frame bitmap is a
  field of the allocator and not part of the physical memory, so that writing to the frame that holds
  its end does not change it.  Time, caches, access rights of pages and the depth of the kernel stack are not modelled either.
\<close>

section \<open>From power-on to a session\<close>

text \<open>
  (C1) From power-on to any session of plain commands: the kernel boots, the shell reads the typed
  characters, and the file system ends as the default directories changed by exactly the
  file-system calls of the entered lines; page tables, frame allocator, console and shell keep their
  invariants throughout.
\<close>

theorem boot_session:
  assumes "boot_ready b v m s" "list_all (\<lambda>(v, c). env_ok v \<and> c \<noteq> 0) input"
    and "lines_typed [] (map snd input) = (ls, cur)" "list_all plain_line ls"
  shows "\<exists>m' s1 k s2. kernel_start b v m s = Some (Inr (m', s1)) \<and> kernel_main b v [] m s = Some (Inr (Inr (s1\<lparr>screen := k\<rparr>))) \<and>
    file_table (files s1) = default_table \<and> paging_inv (mm m') (frames s1) \<and>
    for_each (\<lambda>(v, c). shell_char v c) input (s1\<lparr>screen := k\<rparr>) = Some (Inr s2) \<and> shell_inv s2 \<and> typed_line s2 = cur \<and>
    foldM fs_apply (concat (map line_ops ls)) (files s1) = Some (files s2)"
proof -
  obtain m' s1 where k: "kernel_start b v m s = Some (Inr (m', s1))" "shell_inv s1" "typed_line s1 = []" "frames s1 = pm m'"
      "paging_inv (mm m') (pm m')" "file_table (files s1) = default_table"
    by (rule boot_start [OF assms(1)])
  have "env_ok v" using assms(1) by (simp add: boot_ready_def)
  then obtain k' where k': "start_shell v [] s1 = Some (Inr (s1\<lparr>screen := k'\<rparr>))" "con_inv k'" using shell_starts [OF k(2)] by blast
  have i: "shell_inv (s1\<lparr>screen := k'\<rparr>)" and t: "typed_line (s1\<lparr>screen := k'\<rparr>) = []"
    using k(2,3) k'(2) by (simp_all add: shell_inv_def typed_line_def)
  obtain s2 where "for_each (\<lambda>(v, c). shell_char v c) input (s1\<lparr>screen := k'\<rparr>) = Some (Inr s2)" "shell_inv s2" "typed_line s2 = cur"
      "foldM fs_apply (concat (map line_ops ls)) (files s1) = Some (files s2)"
    using session [OF i assms(2) _ assms(4), of cur] assms(3) t by auto
  moreover have "kernel_main b v [] m s = Some (Inr (Inr (s1\<lparr>screen := k'\<rparr>)))" by (simp add: kernel_main_def k(1) k'(1))
  ultimately show ?thesis using k by (intro exI [of _ m'] exI [of _ s1] exI [of _ k'] exI [of _ s2]) simp
qed

theorem boot_session_witness:
  "\<exists>m' s1 k s2. kernel_start sample_boot (sample_env\<lparr>kernel_end := 0x100000\<rparr>) sample_machine cold_system = Some (Inr (m', s1)) \<and>
    for_each (\<lambda>(v, c). shell_char v c) (map (Pair sample_env) (bytes ''touch ab'' @ [8] @ [10])) (s1\<lparr>screen := k\<rparr>) = Some (Inr s2) \<and>
    fs_apply (Create [97, 0]) (files s1) = Some (files s2)"
proof -
  let ?cs = "bytes ''touch ab'' @ [8] @ [10]"
  have l: "lines_typed [] (map snd (map (Pair sample_env) ?cs)) = ([bytes ''touch a''], [])" by (simp add: bytes_def edit_line_def)
  have w: "next_token {32} (bytes ''touch a'') = (bytes ''touch'', [97])" "next_token {32} [97] = ([97], [])" "next_token {32} [] = ([], [])"
    by (simp_all add: next_token_def bytes_def)
  have c: "command_of (bytes ''touch'') = Some Touch" "bytes ''touch'' \<noteq> []"
    by (simp_all add: command_of_def command_table_def bytes_def)
  have o1: "line_ops (bytes ''touch a'') = [Create [97, 0]]" by (simp add: line_ops_def w c command_ops_def)
  have p1: "plain_line (bytes ''touch a'')" using c by (simp add: plain_line_def w)
  have i: "list_all (\<lambda>(v, c). env_ok v \<and> c \<noteq> 0) (map (Pair sample_env) ?cs)" by (simp add: sample_ok(4) bytes_def)
  obtain m' s1 k s2 where "kernel_start sample_boot (sample_env\<lparr>kernel_end := 0x100000\<rparr>) sample_machine cold_system = Some (Inr (m', s1))"
      "for_each (\<lambda>(v, c). shell_char v c) (map (Pair sample_env) ?cs) (s1\<lparr>screen := k\<rparr>) = Some (Inr s2)"
      "foldM fs_apply (concat (map line_ops [bytes ''touch a''])) (files s1) = Some (files s2)"
    using boot_session [OF sample_boot_ready i l] p1 by auto
  then show ?thesis using o1 by (auto simp: bind_eq_Some_conv)
qed

section \<open>Programs in files\<close>

lemma program_line:
  assumes "l = zs @ bytes ''.bdx''" "0 \<notin> set l" "32 \<notin> set l" "length l < 256" "env_ok v"
  shows "process_command v (l @ [0]) s = map_option Inr (run_other v (l @ [0]) s)"
    "ends_with (Some (l @ [0])) (Some (lit ''.bdx'')) = Some True" "strlen (l @ [0]) = Some (length l)" "0 < length l"
proof -
  have c: "cstr (l @ [0]) = l" "terminated (l @ [0])" using assms(2) by (simp_all add: cstr_append_zero)
  have ne: "l \<noteq> []" "46 \<in> set l" using assms(1) by (simp_all add: bytes_def)
  have "\<forall>w \<in> fst ` set (map (\<lambda>(s, c). (bytes s, c)) command_table). 46 \<notin> set w" by (simp add: command_table_def bytes_def)
  then have n: "command_of l = None" using ne(2) unfolding command_of_def by (auto simp: map_of_eq_None_iff)
  have t: "next_token {32} (cstr (l @ [0])) = (l, [])" using next_token_word(2) [OF ne(1) assms(3)] c(1) by simp
  obtain cmd q where "process_command v (l @ [0]) s =
      (case command_of l of Some c \<Rightarrow> run_command v c cmd (Some q) s | None \<Rightarrow> map_option Inr (run_other v (l @ [0]) s))"
    using process_command_eq [OF assms(5) c(2) _ t ne(1), of s] assms(4) c(1) by metis
  then show "process_command v (l @ [0]) s = map_option Inr (run_other v (l @ [0]) s)" using n by simp
  have e: "cstr (lit ''.bdx'') = bytes ''.bdx''" by (simp add: bytes_def)
  have x: "(\<exists>zs. l = zs @ bytes ''.bdx'') = True" using assms(1) by blast
  show "ends_with (Some (l @ [0])) (Some (lit ''.bdx'')) = Some True"
    using ends_with_eq [OF c(2) lit_terminated [of "''.bdx''"]] unfolding c(1) e x .
  show "strlen (l @ [0]) = Some (length l)" "0 < length l" using c ne(1) by (simp_all add: strlen_eq)
qed

text \<open>
  (C10) A stored program runs: when the assembled code of a program (at most 1024 bytes) has been
  written to a file outside data sector 0 whose name ends in \<^verbatim>\<open>.bdx\<close>, typing the name makes the shell
  execute exactly the program's print and write calls, in order, and the invariants survive.  In data
  sector 0 (the first file stored after formatting) the saved length of table entry 63 lies over the
  program's first bytes; when that length is 0, as it is until the last entry is used, typing the name
  does nothing at all.
\<close>

theorem stored_program_runs:
  assumes "sys_ok s" "env_ok v" "1024 \<le> length (bdx_bytes v)"
    and l: "l = zs @ bytes ''.bdx''" "0 \<notin> set l" "32 \<notin> set l" "length l < 256"
    and prog: "list_all instr_ok is" "length (assemble is) \<le> 1024"
    and fs: "fs_inv fs" "fs_apply (Write (l @ [0]) (assemble is) (of_nat (length (assemble is)))) fs = Some (files s)"
      "lookup (l @ [0]) (current_dir_inode fs) fs = Some i" "ftype (file_table fs ! i) = 0"
      "fits i (of_nat (length (assemble is))) fs"
  shows "(start_sector (target i fs) \<noteq> 0 \<longrightarrow>
      (\<exists>s'. process_command v (l @ [0]) s = Some (Inr s') \<and> foldM exec1 is (files s, screen s) = Some (files s', screen s') \<and> sys_ok s')) \<and>
    (start_sector (target i fs) = 0 \<and> i \<noteq> 63 \<and> flength (file_table fs ! 63) = 0 \<longrightarrow> process_command v (l @ [0]) s = Some (Inr s))"
proof -
  note pl = program_line [OF l assms(2)]
  let ?p = "assemble is" and ?out = "take 1024 (bdx_bytes v)"
  have lo: "length ?out = 1024" using assms(3) by simp
  have r: "bdfs_read_file (l @ [0]) ?out (files s) = Some (0, Some (of_nat (length ?p)), stored_text i ?p fs @ drop (length ?p) ?out)"
    using read_written [OF fs(1) _ _ _ _ fs(2-5), of "l @ [0]" ?out] l(2) prog(2) lo by (simp add: cstr_append_zero)
  have x: "process_command v (l @ [0]) s = Some (Inr (s\<lparr>files := fs', screen := k'\<rparr>))"
    if "interpret_bdx (stored_text i ?p fs @ drop (length ?p) ?out) (files s) (screen s) = Some (fs', k')" for fs' k'
    using pl by (simp add: run_other_def execute_bdx_def r that)
  have ran: "\<exists>s'. process_command v (l @ [0]) s = Some (Inr s') \<and> foldM exec1 is (files s, screen s) = Some (files s', screen s') \<and> sys_ok s'"
    if "start_sector (target i fs) \<noteq> 0"
  proof -
    from that have p: "stored_text i ?p fs = ?p" by (simp add: stored_text_def)
    have b: "length (?p @ drop (length ?p) ?out) < 2 ^ 31" using lo prog(2) by simp
    have inv: "fs_inv (files s)" "con_inv (screen s)" using assms(1) by (simp_all add: sys_ok_def)
    obtain fs' k' where e: "interpret_bdx (?p @ drop (length ?p) ?out) (files s) (screen s) = Some (fs', k')"
        "foldM exec1 is (files s, screen s) = Some (fs', k')" "fs_inv fs'" "con_inv k'"
      by (rule interpret_assembled [OF prog(1) b inv])
    then show ?thesis
      using x [of fs' k'] p assms(1) by (simp add: sys_ok_def)
  qed
  have "process_command v (l @ [0]) s = Some (Inr s)"
    if z: "start_sector (target i fs) = 0 \<and> i \<noteq> 63 \<and> flength (file_table fs ! 63) = 0"
  proof -
    obtain m where "length ?p = Suc m" by (simp add: assemble_def)
    then obtain c where "stored_text i ?p fs @ drop (length ?p) ?out = 0 # c" using z by (simp add: stored_text_def le32_def)
    then have "interpret_bdx (stored_text i ?p fs @ drop (length ?p) ?out) (files s) (screen s) = Some (files s, screen s)"
      by (simp add: interpret_zero)
    from x [OF this] show ?thesis by simp
  qed
  with ran show ?thesis by blast
qed


definition program_name :: buf where
  "program_name = bytes ''p.bdx''"

definition hello_program :: "instr list" where
  "hello_program = [PrintI (bytes ''hi''), WriteI (bytes ''a'') (bytes ''x'')]"

definition fs_p :: bdfs where
  "fs_p = resync (put_entry 9 (named (program_name @ [0]) (fresh_entry file_b 0 0 zero_entry)) fs_b)"

lemma fs_p_facts: "fs_inv fs_p" "lookup (program_name @ [0]) 0 fs_p = Some 9" "current_dir_inode fs_p = 0"
    "ftype (file_table fs_p ! 9) = 0" "flength (file_table fs_p ! 9) = 0" "free_sector fs_p = 1"
proof -
  have t: "terminated (program_name @ [0])" "length (cstr (program_name @ [0])) < 16" by (simp_all add: program_name_def bytes_def)
  have "lookup (program_name @ [0]) 0 fs_b = None" unfolding lookup_def fs_b_table program_name_def by code_simp
  then have "bdfs_rename_file file_b (program_name @ [0]) fs_b = Some (0, fs_p)"
    using rename_eq [OF fs_b_inv file_b_terminated t(1)] t(2) fs_b_lookup fs_b_table(2) by (simp add: fs_p_def)
  then show "fs_inv fs_p" using fs_call_inv [OF fs_b_inv, of "Rename file_b (program_name @ [0])"] t by simp
  have tb: "file_table fs_p = default_table[8 := entry_a, 9 := named (program_name @ [0]) (fresh_entry file_b 0 0 zero_entry)]"
    by (simp add: fs_p_def put_entry_def fs_b_table)
  show "current_dir_inode fs_p = 0" by (simp add: fs_p_def put_entry_def fs_b_table)
  show "lookup (program_name @ [0]) 0 fs_p = Some 9" unfolding lookup_def tb program_name_def by code_simp
  show "ftype (file_table fs_p ! 9) = 0" "flength (file_table fs_p ! 9) = 0" unfolding tb program_name_def by code_simp+
  show "free_sector fs_p = 1" unfolding free_sector_def find_free_sector_def tb program_name_def by code_simp
qed

text \<open>The same program as the first file of a formatted disk.\<close>

definition fs_q :: bdfs where
  "fs_q = resync (put_entry 8 (named (program_name @ [0]) (fresh_entry file_a 0 0 zero_entry)) fs_a)"

lemma fs_q_facts: "fs_inv fs_q" "lookup (program_name @ [0]) 0 fs_q = Some 8" "current_dir_inode fs_q = 0"
    "ftype (file_table fs_q ! 8) = 0" "flength (file_table fs_q ! 8) = 0" "free_sector fs_q = 0" "flength (file_table fs_q ! 63) = 0"
proof -
  have t: "terminated (program_name @ [0])" "length (cstr (program_name @ [0])) < 16" by (simp_all add: program_name_def bytes_def)
  have ta: "file_table fs_a = default_table[8 := fresh_entry file_a 0 0 zero_entry]" by (simp add: fs_a_def)
  have "lookup (program_name @ [0]) 0 fs_a = None" unfolding lookup_def ta program_name_def by code_simp
  then have "bdfs_rename_file file_a (program_name @ [0]) fs_a = Some (0, fs_q)"
    using rename_eq [OF fs_a_inv file_a_terminated t(1)] t(2) fs_a_lookup by (simp add: fs_q_def)
  then show "fs_inv fs_q" using fs_call_inv [OF fs_a_inv, of "Rename file_a (program_name @ [0])"] t by simp
  have tb: "file_table fs_q = default_table[8 := named (program_name @ [0]) (fresh_entry file_a 0 0 zero_entry)]"
    by (simp add: fs_q_def put_entry_def ta)
  show "current_dir_inode fs_q = 0" by (simp add: fs_q_def put_entry_def fs_a_lookup)
  show "lookup (program_name @ [0]) 0 fs_q = Some 8" unfolding lookup_def tb program_name_def by code_simp
  show "ftype (file_table fs_q ! 8) = 0" "flength (file_table fs_q ! 8) = 0" "flength (file_table fs_q ! 63) = 0"
    unfolding tb program_name_def by code_simp+
  show "free_sector fs_q = 0" unfolding free_sector_def find_free_sector_def tb program_name_def by code_simp
qed

theorem stored_program_runs_witness:
  "(\<exists>fs1 s'. fs_apply (Write (program_name @ [0]) (assemble hello_program) (of_nat (length (assemble hello_program)))) fs_p = Some fs1 \<and>
     process_command (sample_env\<lparr>bdx_bytes := replicate 1024 0\<rparr>) (program_name @ [0]) (sample_system\<lparr>files := fs1\<rparr>) = Some (Inr s') \<and>
     foldM exec1 hello_program (fs1, boot_console) = Some (files s', screen s')) \<and>
   (\<exists>fs1. fs_apply (Write (program_name @ [0]) (assemble hello_program) (of_nat (length (assemble hello_program)))) fs_q = Some fs1 \<and>
     process_command (sample_env\<lparr>bdx_bytes := replicate 1024 0\<rparr>) (program_name @ [0]) (sample_system\<lparr>files := fs1\<rparr>) =
       Some (Inr (sample_system\<lparr>files := fs1\<rparr>)))"
proof -
  let ?v = "sample_env\<lparr>bdx_bytes := replicate 1024 0\<rparr>" and ?p = "assemble hello_program"
  let ?w = "Write (program_name @ [0]) ?p (of_nat (length ?p))"
  note f = fs_p_facts and q = fs_q_facts
  have a: "length ?p = 13" by (simp add: hello_program_def assemble_def bytes_def)
  have fit: "fits 9 (of_nat (length ?p)) fs_p" "start_sector (target 9 fs_p) \<noteq> 0"
    and fit_q: "fits 8 (of_nat (length ?p)) fs_q" "start_sector (target 8 fs_q) = 0"
    using f(5,6) q(5,6) a by (simp_all add: fits_def target_def)
  have ow: "op_ok ?w" using a by simp
  obtain fs1 where fs1: "fs_apply ?w fs_p = Some fs1" "fs_inv fs1" using fsops.step_safe [OF f(1) ow] by blast
  obtain fs2 where fs2: "fs_apply ?w fs_q = Some fs2" "fs_inv fs2" using fsops.step_safe [OF q(1) ow] by blast
  have s: "sys_ok (sample_system\<lparr>files := fs1\<rparr>)" "sys_ok (sample_system\<lparr>files := fs2\<rparr>)"
    using sample_ok(1) fs1(2) fs2(2) by (simp_all add: sys_ok_def)
  have v: "env_ok ?v" "1024 \<le> length (bdx_bytes ?v)" using sample_ok(4) by (simp_all add: env_ok_def)
  have l: "program_name = bytes ''p'' @ bytes ''.bdx''" "0 \<notin> set program_name" "32 \<notin> set program_name" "length program_name < 256"
    by (simp_all add: program_name_def bytes_def)
  have ok: "list_all instr_ok hello_program" "length ?p \<le> 1024" using a by (simp_all add: hello_program_def bytes_def)
  have b: "screen (sample_system\<lparr>files := fs1\<rparr>) = boot_console" by (simp add: sample_system_def)
  have w: "fs_apply ?w fs_p = Some (files (sample_system\<lparr>files := fs1\<rparr>))" "fs_apply ?w fs_q = Some (files (sample_system\<lparr>files := fs2\<rparr>))"
    using fs1(1) fs2(1) by simp_all
  have lk: "lookup (program_name @ [0]) (current_dir_inode fs_p) fs_p = Some 9" "lookup (program_name @ [0]) (current_dir_inode fs_q) fs_q = Some 8"
    using f(2,3) q(2,3) by simp_all
  have "process_command ?v (program_name @ [0]) (sample_system\<lparr>files := fs2\<rparr>) = Some (Inr (sample_system\<lparr>files := fs2\<rparr>))"
    using stored_program_runs [OF s(2) v l ok q(1) w(2) lk(2) q(4) fit_q(1), THEN conjunct2] fit_q(2) q(7) by simp
  then show ?thesis using stored_program_runs [OF s(1) v l ok f(1) w(1) lk(1) f(4) fit(1)] fit(2) b fs1(1) fs2(1) by auto
qed

end
